(* ===== verification/Prelude.thy ===== *)
theory Prelude
  imports Main "HOL-Library.Multiset" "HOL-Library.Word"
begin

text \<open>
  Shared vocabulary of the development: the outcome of a Go call that may also panic or
  block, runs and reachable states of a transition system given by a partial step
  function, the locale in which invariants of such systems are lifted to reachable
  states, and generic list and multiset lemmas used by several components.
\<close>

section \<open>Outcomes of a Go call\<close>

text \<open>
  A call returns, panics with a message, or blocks for ever (a second \<open>Lock\<close> of a held
  mutex, a send on a full channel nobody drains).
\<close>

datatype 'a outcome = Done 'a | Panic string | Blocked

fun obind :: "'a outcome \<Rightarrow> ('a \<Rightarrow> 'b outcome) \<Rightarrow> 'b outcome" where
  "obind (Done x) f = f x"
| "obind (Panic m) f = Panic m"
| "obind Blocked f = Blocked"

lemma obind_Done_iff: "obind m f = Done y \<longleftrightarrow> (\<exists>x. m = Done x \<and> f x = Done y)"
  by (cases m) auto

lemma obind_assoc: "obind (obind m f) g = obind m (\<lambda>x. obind (f x) g)"
  by (cases m) auto

lemma obind_Done_right [simp]: "obind m Done = m"
  by (cases m) auto

text \<open>
  \<open>opost P m\<close>: if the call returns, its result has property \<open>P\<close>. The rules push it through the
  code.
\<close>

definition opost :: "('a \<Rightarrow> bool) \<Rightarrow> 'a outcome \<Rightarrow> bool" where
  "opost P m = (\<forall>x. m = Done x \<longrightarrow> P x)"

lemma opost_simps [simp]:
  "opost P (Done x) = P x"
  "opost P (Panic e)"
  "opost P Blocked"
  "opost P (obind m f) = opost (\<lambda>x. opost P (f x)) m"
  by (cases m; auto simp: opost_def)+

lemma opost_if [simp]: "opost P (if b then m else n) = (if b then opost P m else opost P n)"
  by simp

lemma opost_True [simp]: "opost (\<lambda>x. True) m"
  by (simp add: opost_def)

lemma opostI: "(\<And>x. m = Done x \<Longrightarrow> P x) \<Longrightarrow> opost P m"
  by (simp add: opost_def)

lemma opostD: "opost P m \<Longrightarrow> m = Done x \<Longrightarrow> P x"
  by (simp add: opost_def)

lemma opost_mono: "opost Q m \<Longrightarrow> (\<And>x. Q x \<Longrightarrow> P x) \<Longrightarrow> opost P m"
  by (simp add: opost_def)

text \<open>A non-blocking send on a buffered channel: a full buffer drops the value.\<close>

definition trysend :: "nat \<Rightarrow> nat \<Rightarrow> nat" where
  "trysend capacity n = (if n < capacity then Suc n else n)"

lemma trysend_le: "n \<le> capacity \<Longrightarrow> trysend capacity n \<le> capacity"
  by (simp add: trysend_def)

section \<open>Transition systems\<close>

text \<open>
  A system is a set of initial states and a step function that is \<open>None\<close> where an event
  is not enabled. The event carries every choice the environment makes.
\<close>

inductive reach :: "('s \<Rightarrow> bool) \<Rightarrow> ('s \<Rightarrow> 'e \<Rightarrow> 's option) \<Rightarrow> 's \<Rightarrow> bool"
  for init :: "'s \<Rightarrow> bool" and step :: "'s \<Rightarrow> 'e \<Rightarrow> 's option" where
  reach_init: "init s \<Longrightarrow> reach init step s"
| reach_step: "reach init step s \<Longrightarrow> step s e = Some t \<Longrightarrow> reach init step t"

fun run :: "('s \<Rightarrow> 'e \<Rightarrow> 's option) \<Rightarrow> 's \<Rightarrow> 'e list \<Rightarrow> 's option" where
  "run step s [] = Some s"
| "run step s (e # es) = (case step s e of None \<Rightarrow> None | Some t \<Rightarrow> run step t es)"

lemma run_append:
  "run step s (xs @ ys) = (case run step s xs of None \<Rightarrow> None | Some t \<Rightarrow> run step t ys)"
  by (induction xs arbitrary: s) (auto split: option.splits)

lemma run_reach:
  "reach init step s \<Longrightarrow> run step s es = Some t \<Longrightarrow> reach init step t"
proof (induction es arbitrary: s)
  case Nil
  then show ?case by simp
next
  case (Cons e es)
  from Cons.prems(2) obtain u where u: "step s e = Some u" "run step u es = Some t"
    by (auto split: option.splits)
  with Cons.prems(1) show ?case by (blast intro: Cons.IH reach.reach_step)
qed

lemma run_from_init: "init s \<Longrightarrow> run step s es = Some t \<Longrightarrow> reach init step t"
  by (rule run_reach [OF reach.reach_init])

lemma reach_mono:
  assumes "reach init step s" and "\<And>s e t. step s e = Some t \<Longrightarrow> step' s e = Some t"
  shows "reach init step' s"
  using assms(1)
proof (induction rule: reach.induct)
  case (reach_init s)
  then show ?case by (rule reach.reach_init)
next
  case (reach_step s e t)
  then show ?case using assms(2) reach.reach_step by metis
qed

text \<open>
  The contract of an invariant: initial states have it and steps keep it. The conclusion
  is proved once here and used by every state machine of the development.
\<close>

locale inv_system =
  fixes init :: "'s \<Rightarrow> bool"
    and step :: "'s \<Rightarrow> 'e \<Rightarrow> 's option"
    and inv :: "'s \<Rightarrow> bool"
  assumes inv_init: "init s \<Longrightarrow> inv s"
    and inv_step: "inv s \<Longrightarrow> step s e = Some t \<Longrightarrow> inv t"
begin

lemma reach_inv: "reach init step s \<Longrightarrow> inv s"
  by (induction rule: reach.induct) (auto intro: inv_init inv_step)

lemma run_inv: "inv s \<Longrightarrow> run step s es = Some t \<Longrightarrow> inv t"
proof (induction es arbitrary: s)
  case (Cons e es)
  then show ?case by (auto split: option.splits intro: inv_step)
qed simp

end

section \<open>Lists and multisets\<close>

lemma butlast_last: "xs \<noteq> [] \<Longrightarrow> mset xs = add_mset (last xs) (mset (butlast xs))"
  by (subst append_butlast_last_id [symmetric], assumption, subst mset_append) simp

lemma count_upt: "count (mset [0..<n]) k = (if k < n then 1 else 0)"
  by (simp add: distinct_count_atmost_1 count_mset_0_iff)

text \<open>A list ordered so that a property spreads to the right is cut in two by it.\<close>

lemma sorted_wrt_partition:
  assumes "sorted_wrt R xs" and "\<And>a b. R a b \<Longrightarrow> P a \<Longrightarrow> P b"
  shows "filter (\<lambda>x. \<not> P x) xs @ filter P xs = xs"
  using assms(1)
proof (induction xs)
  case (Cons x xs)
  show ?case
  proof (cases "P x")
    case True
    with Cons.prems assms(2) have "\<forall>y \<in> set xs. P y" by auto
    with True show ?thesis by simp
  next
    case False
    with Cons show ?thesis by simp
  qed
qed simp

text \<open>Moving one element of a multiset that is summed over.\<close>

lemma sum_image_diff:
  fixes f :: "'a \<Rightarrow> 'b::comm_monoid_add"
  assumes "x \<in># M"
  shows "(\<Sum>\<^sub># (image_mset f M)) = f x + \<Sum>\<^sub># (image_mset f (M - {#x#}))"
proof -
  from assms obtain N where "M = add_mset x N" by (blast dest: multi_member_split)
  then show ?thesis by simp
qed

lemma size_filter_diff:
  assumes "x \<in># M"
  shows "size (filter_mset P M) = (if P x then 1 else 0) + size (filter_mset P (M - {#x#}))"
proof -
  from assms obtain N where "M = add_mset x N" by (blast dest: multi_member_split)
  then show ?thesis by simp
qed

end
