(* ===== verification/Pool_Base.thy ===== *)
theory Pool_Base
  imports Prelude
begin

text \<open>
  The part of package onepool that the two pools share (src/onepool/pool.go): the
  configuration, the stamped item and its expiry, and the errors. A connection (the
  \<open>io.Closer\<close> that the application's \<open>New\<close> returns) is a number; times and durations
  are nanoseconds as \<open>int\<close>.
\<close>

type_synonym conn = nat
type_synonym time = int

text \<open>\<open>Config\<close>: the durations are \<open>xtime.Duration\<close>, converted to \<open>time.Duration\<close> at use.\<close>

record config =
  Active :: int
  Idle :: int
  IdleTimeout :: int
  WaitTimeout :: int
  Wait :: bool

record item =
  createdAt :: time
  item_c :: conn

text \<open>
  The errors a caller of the pool sees: the package's two error values, the error of the
  caller's context and the error of \<open>New\<close>.
\<close>

datatype pool_error = ErrPoolExhausted | ErrPoolClosed | ErrCtx | ErrNew

text \<open>What \<open>Get\<close> gives: a connection, an error, or \<open>None\<close> when it has to wait.\<close>

type_synonym get_result = "(pool_error + conn) option"

definition expired :: "item \<Rightarrow> int \<Rightarrow> time \<Rightarrow> bool" where
  "expired i timeout now = (if timeout \<le> 0 then False else createdAt i + timeout < now)"

lemma expired_mono: "expired i d t \<Longrightarrow> t \<le> t' \<Longrightarrow> expired i d t'"
  by (auto simp: expired_def split: if_splits)

lemma expired_older:
  "expired i d t \<Longrightarrow> createdAt j \<le> createdAt i \<Longrightarrow> expired j d t"
  by (auto simp: expired_def split: if_splits)

lemma not_expired_fresh [simp]: "createdAt i = now \<Longrightarrow> \<not> expired i d now"
  by (simp add: expired_def)

text \<open>The check both constructors make before they build a pool.\<close>

definition config_ok :: "config option \<Rightarrow> bool" where
  "config_ok oc = (case oc of None \<Rightarrow> False | Some c \<Rightarrow> \<not> Active c < Idle c)"

text \<open>
  The connections that \<open>New\<close> has made after \<open>n\<close> successful calls: each returns a new one,
  numbered in order.
\<close>

definition made_conns :: "nat \<Rightarrow> conn multiset" where
  "made_conns n = mset [0..<n]"

lemma made_conns_simps [simp]:
  "made_conns 0 = {#}"
  "made_conns (Suc n) = add_mset n (made_conns n)"
  by (simp_all add: made_conns_def)

lemma count_made_conns: "count (made_conns n) c = (if c < n then 1 else 0)"
  by (simp add: made_conns_def count_upt del: mset_upt)

lemma in_made_conns [simp]: "c \<in># made_conns n \<longleftrightarrow> c < n"
  by (simp add: made_conns_def)

text \<open>The connections of a list of items, as a multiset.\<close>

definition conns_of :: "item list \<Rightarrow> conn multiset" where
  "conns_of is = mset (map item_c is)"

lemma conns_of_simps [simp]:
  "conns_of [] = {#}"
  "conns_of (i # is) = add_mset (item_c i) (conns_of is)"
  "conns_of (is @ js) = conns_of is + conns_of js"
  by (simp_all add: conns_of_def)

lemma conns_of_butlast:
  "is \<noteq> [] \<Longrightarrow> conns_of is = add_mset (item_c (last is)) (conns_of (butlast is))"
  by (metis append_butlast_last_id conns_of_simps add_mset_add_single)

lemma size_conns_of [simp]: "size (conns_of is) = length is"
  by (simp add: conns_of_def)

lemma conns_of_split: "conns_of (take n is) + conns_of (drop n is) = conns_of is"
  by (metis append_take_drop_id conns_of_simps(3))

end
