(* ===== verification/List_Pool.thy ===== *)
theory List_Pool
  imports Pool_Base
begin

text \<open>
  The list pool (src/onepool/list.go) as a sequence of critical sections. Every definition
  is the code between one \<open>Lock\<close> and the next \<open>Unlock\<close> (or return) of \<open>p.mu\<close>; the theory
  List_Pool_System interleaves them. Here are also the runs of \<open>Get\<close> that no other
  goroutine interrupts, and what they return.
\<close>

section \<open>State\<close>

text \<open>
  \<open>lp_cleaner\<close> is \<open>cleanerCh\<close>: \<open>None\<close> before it is made, then the number of buffered
  signals (capacity 1). The unbuffered channel \<open>cond\<close> is represented by its waiters:
  \<open>lp_recvq\<close> counts goroutines parked in a receive on it, \<open>lp_woken\<close> those whose receive
  a send has completed and that have not resumed yet. The front of \<open>lp_idles\<close> is the
  front of the Go list.
\<close>

record list_pool =
  lp_conf :: config
  lp_closed :: bool
  lp_active :: int
  lp_idles :: "item list"
  lp_cleaner :: "nat option"
  lp_recvq :: nat
  lp_woken :: nat

section \<open>Operations\<close>

text \<open>The second component says whether a goroutine running \<open>staleCleaner\<close> is started.\<close>

definition list_startCleanerLocked :: "int \<Rightarrow> list_pool \<Rightarrow> list_pool \<times> bool" where
  "list_startCleanerLocked d p =
     (if d \<le> 0 then (p, False)
      else
        let p1 = (case lp_cleaner p of
                    Some n \<Rightarrow> if d < IdleTimeout (lp_conf p)
                              then p\<lparr>lp_cleaner := Some (trysend 1 n)\<rparr> else p
                  | None \<Rightarrow> p)
        in if lp_cleaner p1 = None then (p1\<lparr>lp_cleaner := Some 0\<rparr>, True) else (p1, False))"

definition NewList :: "config option \<Rightarrow> (list_pool \<times> bool) outcome" where
  "NewList oc =
     (case oc of
        None \<Rightarrow> Panic ''config nil or Idle Must <= Active''
      | Some c \<Rightarrow>
          if Active c < Idle c then Panic ''config nil or Idle Must <= Active''
          else Done (list_startCleanerLocked (IdleTimeout c)
                 \<lparr>lp_conf = c, lp_closed = False, lp_active = 0, lp_idles = [],
                  lp_cleaner = None, lp_recvq = 0, lp_woken = 0\<rparr>))"

definition list_Reload :: "config \<Rightarrow> list_pool \<Rightarrow> list_pool \<times> bool" where
  "list_Reload c p =
     (let (p1, started) = list_startCleanerLocked (IdleTimeout c) p
      in (p1\<lparr>lp_conf := c\<rparr>, started))"

text \<open>
  \<open>signal\<close>: a send on an unbuffered channel inside \<open>select\<close> with a default case succeeds
  only when a receiver is parked.
\<close>

definition list_signal :: "list_pool \<Rightarrow> list_pool" where
  "list_signal p =
     (if 0 < lp_recvq p then p\<lparr>lp_recvq := lp_recvq p - 1, lp_woken := Suc (lp_woken p)\<rparr> else p)"

definition list_release :: "list_pool \<Rightarrow> list_pool" where
  "list_release p = list_signal (p\<lparr>lp_active := lp_active p - 1\<rparr>)"

text \<open>How a critical section of \<open>Get\<close> ends.\<close>

datatype list_get_out =
    Popped item nat nat \<comment> \<open>took an idle item, counters i and n of the inner loop\<close>
  | Dialing             \<comment> \<open>counted a new item, goes on to call New\<close>
  | Waiting             \<comment> \<open>goes on to wait for a signal\<close>
  | Failed pool_error

definition list_after_scan :: "list_pool \<Rightarrow> list_pool \<times> list_get_out" where
  "list_after_scan p =
     (if lp_closed p then (p, Failed ErrPoolClosed)
      else if Active (lp_conf p) = 0 \<or> lp_active p < Active (lp_conf p)
      then (p\<lparr>lp_active := lp_active p + 1\<rparr>, Dialing)
      else if WaitTimeout (lp_conf p) = 0 \<and> \<not> Wait (lp_conf p)
      then (p, Failed ErrPoolExhausted)
      else (p, Waiting))"

definition list_scan :: "nat \<Rightarrow> nat \<Rightarrow> list_pool \<Rightarrow> list_pool \<times> list_get_out" where
  "list_scan i n p =
     (if i < n
      then (case lp_idles p of
              [] \<Rightarrow> list_after_scan p
            | ic # rest \<Rightarrow> (p\<lparr>lp_idles := rest\<rparr>, Popped ic i n))
      else list_after_scan p)"

text \<open>The head of the outer loop, with \<open>n\<close> set to the current number of idle items.\<close>

definition list_loop :: "list_pool \<Rightarrow> list_pool \<times> list_get_out" where
  "list_loop p = list_scan 0 (length (lp_idles p)) p"

definition list_get_begin :: "list_pool \<Rightarrow> list_pool \<times> list_get_out" where
  "list_get_begin p = (if lp_closed p then (p, Failed ErrPoolClosed) else list_loop p)"

text \<open>\<open>Put\<close>: the second component is the connection to close after the lock is dropped.\<close>

definition list_Put :: "time \<Rightarrow> conn \<Rightarrow> bool \<Rightarrow> list_pool \<Rightarrow> list_pool \<times> conn option" where
  "list_Put now c forceClose p =
     (let (p1, c1) =
        (if \<not> lp_closed p \<and> \<not> forceClose then
           let idles1 = \<lparr>createdAt = now, item_c = c\<rparr> # lp_idles p in
           if int (length idles1) > Idle (lp_conf p)
           then (p\<lparr>lp_idles := butlast idles1\<rparr>, Some (item_c (last idles1)))
           else (p\<lparr>lp_idles := idles1\<rparr>, None)
         else (p, Some c))
      in case c1 of None \<Rightarrow> (list_signal p1, None) | Some x \<Rightarrow> (list_release p1, Some x))"

text \<open>\<open>Close\<close>: the second component lists the connections it then closes, in order.\<close>

definition list_Close :: "list_pool \<Rightarrow> list_pool \<times> conn list" where
  "list_Close p =
     (p\<lparr>lp_idles := [], lp_closed := True, lp_active := lp_active p - int (length (lp_idles p))\<rparr>,
      map item_c (lp_idles p))"

definition list_Stat :: "list_pool \<Rightarrow> int \<times> int \<times> int \<times> nat" where
  "list_Stat p = (Active (lp_conf p), Idle (lp_conf p), lp_active p, length (lp_idles p))"

text \<open>
  One turn of the cleaner's loop under the lock: the item it removed, if any, is closed
  after the lock is dropped, and the loop goes on with \<open>i + 1\<close>.
\<close>

definition list_clean_turn :: "nat \<Rightarrow> nat \<Rightarrow> time \<Rightarrow> list_pool \<Rightarrow> list_pool \<times> item option" where
  "list_clean_turn i n now p =
     (if i < n \<and> lp_idles p \<noteq> [] then
        let ic = last (lp_idles p) in
        if \<not> expired ic (IdleTimeout (lp_conf p)) now then (p, None)
        else (list_release (p\<lparr>lp_idles := butlast (lp_idles p)\<rparr>), Some ic)
      else (p, None))"

text \<open>The test with which a woken cleaner decides to stop for good.\<close>

definition list_clean_stop :: "list_pool \<Rightarrow> bool" where
  "list_clean_stop p = (lp_closed p \<or> IdleTimeout (lp_conf p) \<le> 0)"

section \<open>Uninterrupted runs\<close>

text \<open>
  \<open>Get\<close> from the point where it holds the lock with loop counters \<open>i\<close> and \<open>n\<close>, no other
  goroutine moving meanwhile: the clock stands at \<open>now\<close>, \<open>made\<close> is what \<open>New\<close> returns
  (\<open>None\<close> for an error). The result is a \<open>get_result\<close>; the list holds the connections closed on the way.
\<close>

definition list_dial :: "conn option \<Rightarrow> list_pool \<Rightarrow> list_pool \<times> get_result" where
  "list_dial made p =
     (case made of
        None \<Rightarrow> (list_release p, Some (Inl ErrNew))
      | Some c \<Rightarrow> (p, Some (Inr c)))"

function list_get_from ::
  "time \<Rightarrow> conn option \<Rightarrow> nat \<Rightarrow> nat \<Rightarrow> list_pool \<Rightarrow> list_pool \<times> get_result \<times> conn list" where
  "list_get_from now made i n p =
     (case list_scan i n p of
        (p1, Failed e) \<Rightarrow> (p1, Some (Inl e), [])
      | (p1, Waiting) \<Rightarrow> (p1, None, [])
      | (p1, Dialing) \<Rightarrow> (let (p2, r) = list_dial made p1 in (p2, r, []))
      | (p1, Popped ic _ _) \<Rightarrow>
          if i < n \<and> expired ic (IdleTimeout (lp_conf p1)) now
          then let (p2, r, cs) = list_get_from now made (Suc i) n (list_release p1)
               in (p2, r, item_c ic # cs)
          else (p1, Some (Inr (item_c ic)), []))"
  by pat_completeness auto
termination
  by (relation "measure (\<lambda>(now, made, i, n, p). n - i)") auto

declare list_get_from.simps [simp del]

definition list_Get ::
  "time \<Rightarrow> conn option \<Rightarrow> list_pool \<Rightarrow> list_pool \<times> get_result \<times> conn list" where
  "list_Get now made p =
     (if lp_closed p then (p, Some (Inl ErrPoolClosed), [])
      else list_get_from now made 0 (length (lp_idles p)) p)"

section \<open>What the operations do\<close>

lemmas list_pool_defs =
  list_signal_def list_release_def list_after_scan_def list_scan_def list_loop_def
  list_get_begin_def list_Put_def list_Close_def list_clean_turn_def

lemma list_release_fields [simp]:
  "lp_conf (list_release p) = lp_conf p"
  "lp_closed (list_release p) = lp_closed p"
  "lp_active (list_release p) = lp_active p - 1"
  "lp_idles (list_release p) = lp_idles p"
  "lp_cleaner (list_release p) = lp_cleaner p"
  by (simp_all add: list_release_def list_signal_def)

lemma list_signal_fields [simp]:
  "lp_conf (list_signal p) = lp_conf p"
  "lp_closed (list_signal p) = lp_closed p"
  "lp_active (list_signal p) = lp_active p"
  "lp_idles (list_signal p) = lp_idles p"
  "lp_cleaner (list_signal p) = lp_cleaner p"
  by (simp_all add: list_signal_def)

lemma list_signal_waiters [simp]:
  "lp_recvq (list_signal p) = lp_recvq p - 1"
  "lp_woken (list_signal p) = lp_woken p + min 1 (lp_recvq p)"
  by (simp_all add: list_signal_def)

lemma list_release_waiters [simp]:
  "lp_recvq (list_release p) = lp_recvq p - 1"
  "lp_woken (list_release p) = lp_woken p + min 1 (lp_recvq p)"
  by (simp_all add: list_release_def)

lemma list_release_idles:
  "list_release (p\<lparr>lp_idles := xs\<rparr>) = (list_release p)\<lparr>lp_idles := xs\<rparr>"
  by (simp add: list_release_def list_signal_def)

text \<open>The pool after \<open>k\<close> items have been released.\<close>

definition list_released :: "nat \<Rightarrow> list_pool \<Rightarrow> list_pool" where
  "list_released k p =
     p\<lparr>lp_active := lp_active p - int k, lp_recvq := lp_recvq p - k,
       lp_woken := lp_woken p + min k (lp_recvq p)\<rparr>"

lemma list_released_0 [simp]: "list_released 0 p = p"
  by (simp add: list_released_def)

lemma list_released_Suc: "list_released k (list_release p) = list_released (Suc k) p"
  by (auto simp: list_released_def list_release_def list_signal_def min_def)

lemma list_released_idles:
  "list_released k (p\<lparr>lp_idles := xs\<rparr>) = (list_released k p)\<lparr>lp_idles := xs\<rparr>"
  by (simp add: list_released_def)

lemma list_released_fields [simp]:
  "lp_conf (list_released k p) = lp_conf p"
  "lp_closed (list_released k p) = lp_closed p"
  "lp_active (list_released k p) = lp_active p - int k"
  "lp_idles (list_released k p) = lp_idles p"
  by (simp_all add: list_released_def)

text \<open>
  The reference for \<open>Get\<close> on an open pool: the expired items in front are dropped, each
  released, and the first one that is not is handed out; if none is left, the limit decides.
\<close>

definition list_get_ref ::
  "time \<Rightarrow> conn option \<Rightarrow> list_pool \<Rightarrow> list_pool \<times> get_result \<times> conn list" where
  "list_get_ref now made p =
     (let stale = (\<lambda>i. expired i (IdleTimeout (lp_conf p)) now);
          dead = takeWhile stale (lp_idles p);
          q = list_released (length dead) p
      in case dropWhile stale (lp_idles p) of
           ic # rest \<Rightarrow> (q\<lparr>lp_idles := rest\<rparr>, Some (Inr (item_c ic)), map item_c dead)
         | [] \<Rightarrow>
             (case list_after_scan (q\<lparr>lp_idles := []\<rparr>) of
                (p1, Failed e) \<Rightarrow> (p1, Some (Inl e), map item_c dead)
              | (p1, Dialing) \<Rightarrow> (let (p2, r) = list_dial made p1 in (p2, r, map item_c dead))
              | (p1, _) \<Rightarrow> (p1, None, map item_c dead)))"

lemma list_after_scan_not_popped: "list_after_scan p \<noteq> (q, Popped ic i n)"
  by (simp add: list_after_scan_def)

lemma list_get_ref_expired:
  assumes idles: "lp_idles p = ic # rest" and ex: "expired ic (IdleTimeout (lp_conf p)) now"
  shows "list_get_ref now made p =
    (let (p2, r, cs) = list_get_ref now made (list_release (p\<lparr>lp_idles := rest\<rparr>))
     in (p2, r, item_c ic # cs))"
proof (cases "dropWhile (\<lambda>i. expired i (IdleTimeout (lp_conf p)) now) rest")
  case Nil
  obtain p1 out where "list_after_scan
      (list_released (Suc (length (takeWhile (\<lambda>i. expired i (IdleTimeout (lp_conf p)) now) rest))) p
        \<lparr>lp_idles := []\<rparr>) = (p1, out)" by fastforce
  with Nil idles ex show ?thesis
    by (cases out) (simp_all add: list_get_ref_def Let_def list_released_Suc list_release_idles
        list_released_idles split: prod.split del: dropWhile_eq_Nil_conv)
next
  case (Cons jc js)
  with idles ex show ?thesis
    by (simp add: list_get_ref_def Let_def list_released_Suc list_release_idles
        list_released_idles)
qed

lemma list_get_from_ref:
  "n = i + length (lp_idles p) \<Longrightarrow> list_get_from now made i n p = list_get_ref now made p"
proof (induction "lp_idles p" arbitrary: i p)
  case Nil
  then have idles: "lp_idles p = []" and n: "n = i" by simp_all
  from idles have p: "p\<lparr>lp_idles := []\<rparr> = p" by simp
  have scan: "list_scan i i p = list_after_scan p" by (simp add: list_scan_def)
  show ?case
    unfolding n by (subst list_get_from.simps)
      (simp add: scan idles p list_get_ref_def list_after_scan_not_popped
        split: prod.split list_get_out.split)
next
  case (Cons ic rest)
  let ?p1 = "p\<lparr>lp_idles := rest\<rparr>"
  have idles: "lp_idles p = ic # rest" using Cons.hyps(2) by simp
  have scan: "list_scan i n p = (?p1, Popped ic i n)" and lt: "i < n"
    using Cons.prems idles by (simp_all add: list_scan_def)
  show ?case
  proof (cases "expired ic (IdleTimeout (lp_conf p)) now")
    case False
    then show ?thesis
      by (simp add: list_get_from.simps [of now made i n p] scan idles list_get_ref_def)
  next
    case True
    have "list_get_from now made (Suc i) n (list_release ?p1) = list_get_ref now made (list_release ?p1)"
      using Cons.hyps(1) [of "list_release ?p1" "Suc i"] Cons.prems idles by simp
    with True lt scan idles show ?thesis
      by (simp add: list_get_from.simps [of now made i n p] list_get_ref_expired)
  qed
qed

subsection \<open>Get and Put\<close>

text \<open>
  C14. On an open pool, \<open>Get\<close> (its nested loops, one critical section after another) computes the
  reference: it closes and releases exactly the expired items in front of the idle list,
  hands out the first one that is still good, and otherwise dials, fails or waits as the
  limit says, with the count lowered by the number of items it dropped.
\<close>

theorem list_get_matches_ref:
  assumes "\<not> lp_closed p"
  shows "list_Get now made p = list_get_ref now made p"
  using assms by (simp add: list_Get_def list_get_from_ref)

definition list_example :: "int \<Rightarrow> item list \<Rightarrow> list_pool" where
  "list_example n is =
     \<lparr>lp_conf = \<lparr>Active = 2, Idle = 2, IdleTimeout = 10, WaitTimeout = 0, Wait = False\<rparr>,
      lp_closed = False, lp_active = n, lp_idles = is, lp_cleaner = Some 0, lp_recvq = 0,
      lp_woken = 0\<rparr>"

theorem list_get_matches_ref_witness:
  "list_Get 30 (Some 9) (list_example 2 [\<lparr>createdAt = 5, item_c = 1\<rparr>, \<lparr>createdAt = 25, item_c = 2\<rparr>])
     = (list_example 1 [], Some (Inr 2), [1])"
  by (subst list_get_matches_ref)
    (simp_all add: list_example_def list_get_ref_def list_released_def expired_def)

lemma list_get_front:
  assumes "\<not> lp_closed p" and "lp_idles p = ic # rest"
    and "\<not> expired ic (IdleTimeout (lp_conf p)) now"
  shows "list_Get now made p = (p\<lparr>lp_idles := rest\<rparr>, Some (Inr (item_c ic)), [])"
  using assms by (simp add: list_Get_def list_get_from_ref list_get_ref_def)

lemma list_Put_keep:
  assumes "\<not> lp_closed p" and "int (length (lp_idles p)) < Idle (lp_conf p)"
  shows "list_Put now c False p =
    (list_signal (p\<lparr>lp_idles := \<lparr>createdAt = now, item_c = c\<rparr> # lp_idles p\<rparr>), None)"
  using assms by (simp add: list_Put_def)

lemma list_Put_evict:
  assumes "\<not> lp_closed p" and "\<not> int (length (lp_idles p)) < Idle (lp_conf p)"
  shows "list_Put now c False p =
    (let is = \<lparr>createdAt = now, item_c = c\<rparr> # lp_idles p
     in (list_release (p\<lparr>lp_idles := butlast is\<rparr>), Some (item_c (last is))))"
  using assms by (simp add: list_Put_def Let_def)

lemma list_Put_drop:
  assumes "lp_closed p \<or> forceClose"
  shows "list_Put now c forceClose p = (list_release p, Some c)"
  using assms by (auto simp: list_Put_def)

text \<open>
  The pool is a stack: an item put back and asked for again before it expires comes
  back from the next \<open>Get\<close>, with nothing dialed and nothing else taken. A full pool makes
  room by dropping its least recently used item.
\<close>

theorem list_put_get_lifo:
  assumes "\<not> lp_closed p" and "1 \<le> Idle (lp_conf p)"
    and "int (length (lp_idles p)) \<le> Idle (lp_conf p)"
    and "\<not> expired \<lparr>createdAt = now, item_c = c\<rparr> (IdleTimeout (lp_conf p)) now'"
  shows "\<exists>p2. list_Get now' made (fst (list_Put now c False p)) = (p2, Some (Inr c), []) \<and>
    (if int (length (lp_idles p)) < Idle (lp_conf p)
     then lp_idles p2 = lp_idles p \<and> lp_active p2 = lp_active p
     else lp_idles p2 = butlast (lp_idles p) \<and> lp_active p2 = lp_active p - 1)"
proof (cases "int (length (lp_idles p)) < Idle (lp_conf p)")
  case True
  with assms show ?thesis by (simp add: list_Put_keep list_get_front)
next
  case False
  with assms have "lp_idles p \<noteq> []" by auto
  with False assms show ?thesis
    by (simp add: list_Put_evict list_get_front)
qed

theorem list_put_get_lifo_witness:
  "\<exists>p2. list_Get 12 None (fst (list_Put 7 3 False (list_example 2 [\<lparr>createdAt = 1, item_c = 1\<rparr>])))
      = (p2, Some (Inr 3), [])"
  using list_put_get_lifo [of "list_example 2 [\<lparr>createdAt = 1, item_c = 1\<rparr>]" 7 3 12 None]
  by (auto simp: list_example_def expired_def)

text \<open>
  A closed pool lends nothing and keeps nothing: \<open>Get\<close> fails with
  \<open>ErrPoolClosed\<close> without touching the pool, and \<open>Put\<close> gives the connection back to be
  closed and lowers the count, whatever \<open>forceClose\<close> is.
\<close>

theorem list_closed_pool:
  assumes "lp_closed p"
  shows "list_Get now made p = (p, Some (Inl ErrPoolClosed), []) \<and>
    list_get_begin p = (p, Failed ErrPoolClosed) \<and>
    (let (q, gone) = list_Put now c forceClose p
     in gone = Some c \<and> lp_idles q = lp_idles p \<and> lp_active q = lp_active p - 1)"
  using assms by (simp add: list_Get_def list_get_begin_def list_Put_drop)

theorem list_closed_pool_witness:
  "list_Get 5 None (fst (list_Close (list_example 1 [\<lparr>createdAt = 1, item_c = 1\<rparr>])))
     = (fst (list_Close (list_example 1 [\<lparr>createdAt = 1, item_c = 1\<rparr>])), Some (Inl ErrPoolClosed), [])"
  using list_closed_pool [of "fst (list_Close (list_example 1 [\<lparr>createdAt = 1, item_c = 1\<rparr>]))"]
  by (simp add: list_Close_def)

subsection \<open>The cleaner's pass\<close>

text \<open>
  A pass of \<open>staleCleaner\<close> that nobody interrupts: the turns one after another. The result
  lists the connections in the order in which they are closed.
\<close>

function list_clean_pass :: "time \<Rightarrow> nat \<Rightarrow> nat \<Rightarrow> list_pool \<Rightarrow> list_pool \<times> conn list" where
  "list_clean_pass now i n p =
     (case list_clean_turn i n now p of
        (p1, None) \<Rightarrow> (p1, [])
      | (p1, Some ic) \<Rightarrow>
          if i < n
          then let (p2, cs) = list_clean_pass now (Suc i) n p1 in (p2, item_c ic # cs)
          else (p1, [item_c ic]))"
  by pat_completeness auto
termination
  by (relation "measure (\<lambda>(now, i, n, p). n - i)") auto

declare list_clean_pass.simps [simp del]

definition list_clean_all :: "time \<Rightarrow> list_pool \<Rightarrow> list_pool \<times> conn list" where
  "list_clean_all now p =
     (if list_clean_stop p then (p, []) else list_clean_pass now 0 (length (lp_idles p)) p)"

lemma list_clean_pass_suffix:
  assumes "lp_idles p = rev (dead @ live)" and "n = i + length (lp_idles p)"
    and "\<forall>ic \<in> set dead. expired ic (IdleTimeout (lp_conf p)) now"
    and "live = [] \<or> \<not> expired (hd live) (IdleTimeout (lp_conf p)) now"
  shows "list_clean_pass now i n p =
    ((list_released (length dead) p)\<lparr>lp_idles := rev live\<rparr>, map item_c dead)"
  using assms
proof (induction dead arbitrary: i p)
  case Nil
  then have "list_clean_turn i n now p = (p, None)"
    by (cases live) (auto simp: list_clean_turn_def)
  moreover have "p\<lparr>lp_idles := rev live\<rparr> = p" using Nil.prems(1) by simp
  ultimately show ?case by (simp add: list_clean_pass.simps [of now i n p])
next
  case (Cons ic dead)
  let ?q = "list_release (p\<lparr>lp_idles := rev (dead @ live)\<rparr>)"
  have "lp_idles p = rev (dead @ live) @ [ic]" using Cons.prems(1) by simp
  then have "lp_idles p \<noteq> []" "last (lp_idles p) = ic" "butlast (lp_idles p) = rev (dead @ live)"
    by (simp_all only: last_snoc butlast_snoc) simp
  then have turn: "list_clean_turn i n now p = (?q, Some ic)" and lt: "i < n"
    using Cons.prems(2,3) by (simp_all add: list_clean_turn_def)
  have "list_clean_pass now (Suc i) n ?q =
    ((list_released (length dead) ?q)\<lparr>lp_idles := rev live\<rparr>, map item_c dead)"
    using Cons.prems by (intro Cons.IH) auto
  then show ?case
    using lt by (simp add: list_clean_pass.simps [of now i n p] turn list_released_Suc
        list_released_idles)
qed

text \<open>
  When the idle list is ordered with the most recently used item in front, as \<open>Put\<close> builds
  it, a pass of the cleaner closes exactly the expired items, oldest first, keeps the others
  in their order and lowers the count by the number of items it closed.
\<close>

theorem list_clean_all_expired:
  assumes "sorted_wrt (\<lambda>a b. createdAt b \<le> createdAt a) (lp_idles p)"
    and "\<not> list_clean_stop p"
  shows "list_clean_all now p =
    (let stale = (\<lambda>ic. expired ic (IdleTimeout (lp_conf p)) now);
         dead = rev (filter stale (lp_idles p))
     in ((list_released (length dead) p)\<lparr>lp_idles := filter (\<lambda>ic. \<not> stale ic) (lp_idles p)\<rparr>,
         map item_c dead))"
proof -
  let ?stale = "\<lambda>ic. expired ic (IdleTimeout (lp_conf p)) now"
  let ?dead = "rev (filter ?stale (lp_idles p))"
  let ?live = "rev (filter (\<lambda>ic. \<not> ?stale ic) (lp_idles p))"
  have "filter (\<lambda>ic. \<not> ?stale ic) (lp_idles p) @ filter ?stale (lp_idles p) = lp_idles p"
    using assms(1) by (rule sorted_wrt_partition) (blast intro: expired_older)
  then have "lp_idles p = rev (?dead @ ?live)" by simp
  moreover have "?live = [] \<or> \<not> ?stale (hd ?live)"
    using hd_in_set [of ?live] by auto
  ultimately have "list_clean_pass now 0 (length (lp_idles p)) p
      = ((list_released (length ?dead) p)\<lparr>lp_idles := rev ?live\<rparr>, map item_c ?dead)"
    by (intro list_clean_pass_suffix) auto
  with assms(2) show ?thesis by (simp add: list_clean_all_def Let_def)
qed

theorem list_clean_all_expired_witness:
  "list_clean_all 30 (list_example 2 [\<lparr>createdAt = 25, item_c = 2\<rparr>, \<lparr>createdAt = 5, item_c = 1\<rparr>])
     = (list_example 1 [\<lparr>createdAt = 25, item_c = 2\<rparr>], [1])"
  by (subst list_clean_all_expired)
    (simp_all add: list_example_def list_clean_stop_def list_released_def expired_def)

end
