(* ===== verification/List_Pool_System.thy ===== *)
theory List_Pool_System
  imports List_Pool
begin

text \<open>
  The list pool as a concurrent system: any number of goroutines inside \<open>Get\<close>, \<open>Put\<close>,
  \<open>Close\<close> and \<open>Reload\<close>, the cleaner goroutine, and the clients that hold connections.
  A step is one critical section of List_Pool, or one action a goroutine makes between
  two of them. Goroutines have no names: the pending ones are a multiset of positions.
\<close>

section \<open>The system\<close>

text \<open>Where a goroutine stands while it does not hold the lock.\<close>

datatype list_pc =
    LPopped item nat nat   \<comment> \<open>Get took an idle item and has not checked its age\<close>
  | LReap nat nat          \<comment> \<open>Get closed an expired item and has not released it\<close>
  | LDial                  \<comment> \<open>Get is calling New\<close>
  | LDialErr               \<comment> \<open>New failed, the count is not corrected yet\<close>
  | LWait                  \<comment> \<open>Get dropped the lock and has not reached the receive\<close>
  | LClosePut conn         \<comment> \<open>Put is about to close a connection\<close>
  | LCloseAll "conn list"  \<comment> \<open>Close is closing the former idle items\<close>

text \<open>The cleaner goroutine: not started, in its \<open>select\<close>, closing an item, returned.\<close>

datatype list_cleaner = NoCleaner | CSelect | CClosing item nat nat | CExit

text \<open>
  \<open>l_lent\<close> are the connections clients hold, \<open>l_shut\<close> those that have been closed, one
  occurrence per call of \<open>Close\<close>. \<open>New\<close> returns the connections \<open>0, 1, 2, \<dots>\<close>:
  \<open>l_fresh\<close> is the next one.
\<close>

record list_sys =
  l_pool :: list_pool
  l_calls :: "list_pc multiset"
  l_cleaner :: list_cleaner
  l_lent :: "conn multiset"
  l_shut :: "conn multiset"
  l_fresh :: nat

datatype list_ev =
    LGet                           \<comment> \<open>a client calls Get\<close>
  | LTake item nat nat time        \<comment> \<open>the item is good and is returned\<close>
  | LExpire item nat nat time      \<comment> \<open>the item is too old and is closed\<close>
  | LRescan nat nat                \<comment> \<open>relock, release, go on with the inner loop\<close>
  | LDialOk | LDialFail | LDialUndo
  | LPark                          \<comment> \<open>the receive on cond starts\<close>
  | LCtxDone                       \<comment> \<open>the context of a parked Get is done\<close>
  | LResume                        \<comment> \<open>a Get that received a signal relocks\<close>
  | LPut conn bool time
  | LPutClose conn
  | LClose
  | LCloseOne conn "conn list"
  | LReload config
  | LTick time                     \<comment> \<open>the cleaner's ticker fires\<close>
  | LPoke time                     \<comment> \<open>the cleaner reads its channel\<close>
  | LCleanClose item nat nat time  \<comment> \<open>the cleaner closes an item and goes on\<close>

definition l_leave :: "list_pc \<Rightarrow> list_sys \<Rightarrow> list_sys" where
  "l_leave pc s = s\<lparr>l_calls := l_calls s - {#pc#}\<rparr>"

definition l_enter :: "list_pc \<Rightarrow> list_sys \<Rightarrow> list_sys" where
  "l_enter pc s = s\<lparr>l_calls := add_mset pc (l_calls s)\<rparr>"

text \<open>
  A connection is handed to a client; a connection is closed; a client gives a
  connection back.
\<close>

definition l_lend :: "conn \<Rightarrow> list_sys \<Rightarrow> list_sys" where
  "l_lend c s = s\<lparr>l_lent := add_mset c (l_lent s)\<rparr>"

definition l_shut_conn :: "conn \<Rightarrow> list_sys \<Rightarrow> list_sys" where
  "l_shut_conn c s = s\<lparr>l_shut := add_mset c (l_shut s)\<rparr>"

definition l_return :: "conn \<Rightarrow> list_sys \<Rightarrow> list_sys" where
  "l_return c s = s\<lparr>l_lent := l_lent s - {#c#}\<rparr>"

text \<open>\<open>Get\<close> unlocks: where its critical section says it goes on.\<close>

definition l_settle :: "list_pool \<times> list_get_out \<Rightarrow> list_sys \<Rightarrow> list_sys" where
  "l_settle po s =
     (let s1 = s\<lparr>l_pool := fst po\<rparr>
      in case snd po of
           Popped ic i n \<Rightarrow> l_enter (LPopped ic i n) s1
         | Dialing \<Rightarrow> l_enter LDial s1
         | Waiting \<Rightarrow> l_enter LWait s1
         | Failed e \<Rightarrow> s1)"

definition l_clean_from :: "nat \<Rightarrow> nat \<Rightarrow> time \<Rightarrow> list_sys \<Rightarrow> list_sys" where
  "l_clean_from i n now s =
     (let (p, gone) = list_clean_turn i n now (l_pool s)
      in s\<lparr>l_pool := p,
           l_cleaner := (case gone of None \<Rightarrow> CSelect | Some ic \<Rightarrow> CClosing ic i n)\<rparr>)"

definition l_clean_wake :: "time \<Rightarrow> list_sys \<Rightarrow> list_sys" where
  "l_clean_wake now s =
     (if list_clean_stop (l_pool s) then s\<lparr>l_cleaner := CExit\<rparr>
      else l_clean_from 0 (length (lp_idles (l_pool s))) now s)"

definition l_start_cleaner :: "bool \<Rightarrow> list_sys \<Rightarrow> list_sys" where
  "l_start_cleaner started s = (if started then s\<lparr>l_cleaner := CSelect\<rparr> else s)"

fun list_step :: "list_sys \<Rightarrow> list_ev \<Rightarrow> list_sys option" where
  "list_step s LGet = Some (l_settle (list_get_begin (l_pool s)) s)"
| "list_step s (LTake ic i n now) =
     (if LPopped ic i n \<in># l_calls s \<and> \<not> expired ic (IdleTimeout (lp_conf (l_pool s))) now
      then Some (l_lend (item_c ic) (l_leave (LPopped ic i n) s))
      else None)"
| "list_step s (LExpire ic i n now) =
     (if LPopped ic i n \<in># l_calls s \<and> expired ic (IdleTimeout (lp_conf (l_pool s))) now
      then Some (l_shut_conn (item_c ic) (l_enter (LReap i n) (l_leave (LPopped ic i n) s)))
      else None)"
| "list_step s (LRescan i n) =
     (if LReap i n \<in># l_calls s
      then Some (l_settle (list_scan (Suc i) n (list_release (l_pool s))) (l_leave (LReap i n) s))
      else None)"
| "list_step s LDialOk =
     (if LDial \<in># l_calls s
      then Some (l_lend (l_fresh s) ((l_leave LDial s)\<lparr>l_fresh := Suc (l_fresh s)\<rparr>))
      else None)"
| "list_step s LDialFail =
     (if LDial \<in># l_calls s then Some (l_enter LDialErr (l_leave LDial s)) else None)"
| "list_step s LDialUndo =
     (if LDialErr \<in># l_calls s
      then Some ((l_leave LDialErr s)\<lparr>l_pool := list_release (l_pool s)\<rparr>) else None)"
| "list_step s LPark =
     (if LWait \<in># l_calls s
      then Some ((l_leave LWait s)\<lparr>l_pool := (l_pool s)\<lparr>lp_recvq := Suc (lp_recvq (l_pool s))\<rparr>\<rparr>)
      else None)"
| "list_step s LCtxDone =
     (if 0 < lp_recvq (l_pool s)
      then Some (s\<lparr>l_pool := (l_pool s)\<lparr>lp_recvq := lp_recvq (l_pool s) - 1\<rparr>\<rparr>) else None)"
| "list_step s LResume =
     (if 0 < lp_woken (l_pool s)
      then Some (l_settle (list_loop ((l_pool s)\<lparr>lp_woken := lp_woken (l_pool s) - 1\<rparr>)) s)
      else None)"
| "list_step s (LPut c forceClose now) =
     (if c \<in># l_lent s
      then (let (p, gone) = list_Put now c forceClose (l_pool s);
                s1 = (l_return c s)\<lparr>l_pool := p\<rparr>
            in Some (case gone of None \<Rightarrow> s1 | Some x \<Rightarrow> l_enter (LClosePut x) s1))
      else None)"
| "list_step s (LPutClose c) =
     (if LClosePut c \<in># l_calls s
      then Some (l_shut_conn c (l_leave (LClosePut c) s)) else None)"
| "list_step s LClose =
     (let (p, gone) = list_Close (l_pool s)
      in Some (l_enter (LCloseAll gone) (s\<lparr>l_pool := p\<rparr>)))"
| "list_step s (LCloseOne c cs) =
     (if LCloseAll (c # cs) \<in># l_calls s
      then Some (l_shut_conn c (l_enter (LCloseAll cs) (l_leave (LCloseAll (c # cs)) s)))
      else None)"
| "list_step s (LReload c) =
     (let (p, started) = list_Reload c (l_pool s)
      in Some (l_start_cleaner started (s\<lparr>l_pool := p\<rparr>)))"
| "list_step s (LTick now) =
     (if l_cleaner s = CSelect then Some (l_clean_wake now s) else None)"
| "list_step s (LPoke now) =
     (case lp_cleaner (l_pool s) of
        Some (Suc k) \<Rightarrow>
          if l_cleaner s = CSelect
          then Some (l_clean_wake now (s\<lparr>l_pool := (l_pool s)\<lparr>lp_cleaner := Some k\<rparr>\<rparr>))
          else None
      | _ \<Rightarrow> None)"
| "list_step s (LCleanClose ic i n now) =
     (if l_cleaner s = CClosing ic i n
      then Some (l_clean_from (Suc i) n now (l_shut_conn (item_c ic) s))
      else None)"

text \<open>A new pool, before any call of its methods.\<close>

definition list_start :: "list_pool \<times> bool \<Rightarrow> list_sys" where
  "list_start ps = l_start_cleaner (snd ps)
     \<lparr>l_pool = fst ps, l_calls = {#}, l_cleaner = NoCleaner, l_lent = {#}, l_shut = {#},
      l_fresh = 0\<rparr>"

definition list_init :: "list_sys \<Rightarrow> bool" where
  "list_init s \<longleftrightarrow> (\<exists>oc ps. NewList oc = Done ps \<and> s = list_start ps)"

section \<open>Where every connection is\<close>

fun list_pc_conns :: "list_pc \<Rightarrow> conn multiset" where
  "list_pc_conns (LPopped ic i n) = {#item_c ic#}"
| "list_pc_conns (LClosePut c) = {#c#}"
| "list_pc_conns (LCloseAll cs) = mset cs"
| "list_pc_conns _ = {#}"

fun list_cleaner_conns :: "list_cleaner \<Rightarrow> conn multiset" where
  "list_cleaner_conns (CClosing ic i n) = {#item_c ic#}"
| "list_cleaner_conns _ = {#}"

text \<open>The goroutines the pool counts as holding, or about to hold, an open connection.\<close>

fun list_pc_counted :: "list_pc \<Rightarrow> bool" where
  "list_pc_counted (LPopped ic i n) = True"
| "list_pc_counted (LReap i n) = True"
| "list_pc_counted LDial = True"
| "list_pc_counted LDialErr = True"
| "list_pc_counted _ = False"

definition list_away :: "list_sys \<Rightarrow> conn multiset" where
  "list_away s = l_lent s + \<Sum>\<^sub># (image_mset list_pc_conns (l_calls s))
     + list_cleaner_conns (l_cleaner s) + l_shut s"

definition list_owners :: "list_sys \<Rightarrow> conn multiset" where
  "list_owners s = conns_of (lp_idles (l_pool s)) + list_away s"

text \<open>The open connections the pool has lent out or is about to: all but the idle ones.\<close>

definition list_held :: "list_sys \<Rightarrow> nat" where
  "list_held s = size (l_lent s) + size (filter_mset list_pc_counted (l_calls s))"

text \<open>
  The invariant: every connection \<open>New\<close> ever made has exactly one place,
  \<open>active\<close> is the number of idle connections and of held ones, and there is no cleaner
  before its channel is made.
\<close>

definition list_inv :: "list_sys \<Rightarrow> bool" where
  "list_inv s \<longleftrightarrow> list_owners s = made_conns (l_fresh s) \<and>
     lp_active (l_pool s) = int (length (lp_idles (l_pool s)) + list_held s) \<and>
     (lp_cleaner (l_pool s) = None \<longrightarrow> l_cleaner s = NoCleaner)"

subsection \<open>Bookkeeping of the critical sections\<close>

fun list_out_conns :: "list_get_out \<Rightarrow> conn multiset" where
  "list_out_conns (Popped ic i n) = {#item_c ic#}"
| "list_out_conns _ = {#}"

fun list_out_counted :: "list_get_out \<Rightarrow> nat" where
  "list_out_counted (Popped ic i n) = 1"
| "list_out_counted Dialing = 1"
| "list_out_counted _ = 0"

definition list_spare :: "list_pool \<Rightarrow> int" where
  "list_spare p = lp_active p - int (length (lp_idles p))"

lemma list_spare_upd [simp]:
  "list_spare (list_release p) = list_spare p - 1"
  "list_spare (list_signal p) = list_spare p"
  "list_spare (p\<lparr>lp_recvq := r\<rparr>) = list_spare p"
  "list_spare (p\<lparr>lp_woken := r\<rparr>) = list_spare p"
  "list_spare (p\<lparr>lp_cleaner := k\<rparr>) = list_spare p"
  by (simp_all add: list_spare_def)

lemma list_scan_cleaner [simp]:
  "lp_cleaner (fst (list_after_scan p)) = lp_cleaner p"
  "lp_cleaner (fst (list_scan i n p)) = lp_cleaner p"
  "lp_cleaner (fst (list_loop p)) = lp_cleaner p"
  "lp_cleaner (fst (list_get_begin p)) = lp_cleaner p"
  by (simp_all add: list_pool_defs split: list.split)

lemma list_Put_cleaner [simp]: "lp_cleaner (fst (list_Put now c forceClose p)) = lp_cleaner p"
  by (simp add: list_Put_def Let_def split: prod.split option.split)

lemma list_clean_turn_cleaner [simp]: "lp_cleaner (fst (list_clean_turn i n now p)) = lp_cleaner p"
  by (simp add: list_clean_turn_def Let_def)

lemma list_after_scan_book:
  "conns_of (lp_idles (fst (list_after_scan p))) + list_out_conns (snd (list_after_scan p))
     = conns_of (lp_idles p)"
  "list_spare (fst (list_after_scan p)) = list_spare p + int (list_out_counted (snd (list_after_scan p)))"
  by (simp_all add: list_after_scan_def list_spare_def)

lemma list_scan_book:
  "conns_of (lp_idles (fst (list_scan i n p))) + list_out_conns (snd (list_scan i n p))
     = conns_of (lp_idles p)"
  "list_spare (fst (list_scan i n p)) = list_spare p + int (list_out_counted (snd (list_scan i n p)))"
  by (simp_all add: list_scan_def list_after_scan_book list_spare_def [of "lp_idles_update _ _"]
      list_spare_def [of p] split: list.split)

lemma list_get_begin_book:
  "conns_of (lp_idles (fst (list_get_begin p))) + list_out_conns (snd (list_get_begin p))
     = conns_of (lp_idles p)"
  "list_spare (fst (list_get_begin p)) = list_spare p + int (list_out_counted (snd (list_get_begin p)))"
  by (simp_all add: list_get_begin_def list_loop_def list_scan_book)

lemma list_Put_book:
  assumes "list_Put now c forceClose p = (q, gone)"
  shows "conns_of (lp_idles q) + (case gone of None \<Rightarrow> {#} | Some x \<Rightarrow> {#x#})
      = add_mset c (conns_of (lp_idles p))"
    and "list_spare q = list_spare p - 1"
proof -
  consider "lp_closed p \<or> forceClose"
    | "\<not> lp_closed p" "\<not> forceClose" "int (length (lp_idles p)) < Idle (lp_conf p)"
    | "\<not> lp_closed p" "\<not> forceClose" "\<not> int (length (lp_idles p)) < Idle (lp_conf p)"
    by blast
  then have "conns_of (lp_idles q) + (case gone of None \<Rightarrow> {#} | Some x \<Rightarrow> {#x#})
      = add_mset c (conns_of (lp_idles p)) \<and> list_spare q = list_spare p - 1"
  proof cases
    case 1
    with assms have "q = list_release p" "gone = Some c" by (simp_all add: list_Put_drop)
    then show ?thesis by (simp add: list_spare_def)
  next
    case 2
    with assms show ?thesis by (auto simp: list_Put_keep list_spare_def)
  next
    case 3
    let ?is = "\<lparr>createdAt = now, item_c = c\<rparr> # lp_idles p"
    have "conns_of ?is = add_mset (item_c (last ?is)) (conns_of (butlast ?is))"
      by (rule conns_of_butlast) simp
    with 3 assms show ?thesis by (auto simp: list_Put_evict Let_def list_spare_def)
  qed
  then show "conns_of (lp_idles q) + (case gone of None \<Rightarrow> {#} | Some x \<Rightarrow> {#x#})
      = add_mset c (conns_of (lp_idles p))" and "list_spare q = list_spare p - 1"
    by simp_all
qed

lemma list_clean_turn_book:
  assumes "list_clean_turn i n now p = (q, gone)"
  shows "conns_of (lp_idles q) + (case gone of None \<Rightarrow> {#} | Some ic \<Rightarrow> {#item_c ic#})
      = conns_of (lp_idles p)"
    and "list_spare q = list_spare p"
  using assms conns_of_butlast [of "lp_idles p"]
  by (auto simp: list_clean_turn_def Let_def list_spare_def of_nat_diff Suc_le_eq split: if_splits)

subsection \<open>Owners and counts through the system's moves\<close>

lemma list_away_enter [simp]: "list_away (l_enter pc s) = list_away s + list_pc_conns pc"
  by (simp add: list_away_def l_enter_def ac_simps)

lemma list_away_leave:
  "pc \<in># l_calls s \<Longrightarrow> list_away s = list_away (l_leave pc s) + list_pc_conns pc"
  by (simp add: list_away_def l_leave_def sum_image_diff [of pc "l_calls s"] ac_simps)

lemma list_held_enter [simp]:
  "list_held (l_enter pc s) = list_held s + (if list_pc_counted pc then 1 else 0)"
  by (simp add: list_held_def l_enter_def)

lemma list_held_leave:
  "pc \<in># l_calls s \<Longrightarrow>
     list_held s = list_held (l_leave pc s) + (if list_pc_counted pc then 1 else 0)"
  by (simp add: list_held_def l_leave_def size_filter_diff [of pc "l_calls s"])

lemma l_leave_fields [simp]:
  "l_pool (l_leave pc s) = l_pool s" "l_lent (l_leave pc s) = l_lent s"
  "l_shut (l_leave pc s) = l_shut s" "l_fresh (l_leave pc s) = l_fresh s"
  "l_cleaner (l_leave pc s) = l_cleaner s"
  by (simp_all add: l_leave_def)

lemma l_enter_fields [simp]:
  "l_pool (l_enter pc s) = l_pool s" "l_lent (l_enter pc s) = l_lent s"
  "l_shut (l_enter pc s) = l_shut s" "l_fresh (l_enter pc s) = l_fresh s"
  "l_cleaner (l_enter pc s) = l_cleaner s"
  by (simp_all add: l_enter_def)

lemma l_lend_fields [simp]:
  "l_pool (l_lend c s) = l_pool s" "l_calls (l_lend c s) = l_calls s"
  "l_fresh (l_lend c s) = l_fresh s" "l_cleaner (l_lend c s) = l_cleaner s"
  by (simp_all add: l_lend_def)

lemma l_shut_conn_fields [simp]:
  "l_pool (l_shut_conn c s) = l_pool s" "l_calls (l_shut_conn c s) = l_calls s"
  "l_lent (l_shut_conn c s) = l_lent s"
  "l_fresh (l_shut_conn c s) = l_fresh s" "l_cleaner (l_shut_conn c s) = l_cleaner s"
  by (simp_all add: l_shut_conn_def)

text \<open>What the record updates of a step do to the two sums.\<close>

lemma list_sums_upd [simp]:
  "list_away (s\<lparr>l_pool := p\<rparr>) = list_away s"
  "list_away (s\<lparr>l_fresh := n\<rparr>) = list_away s"
  "list_away (l_lend c s) = add_mset c (list_away s)"
  "list_away (l_shut_conn c s) = add_mset c (list_away s)"
  "list_held (s\<lparr>l_pool := p\<rparr>) = list_held s"
  "list_held (s\<lparr>l_fresh := n\<rparr>) = list_held s"
  "list_held (l_lend c s) = Suc (list_held s)"
  "list_held (l_shut_conn c s) = list_held s"
  "list_held (s\<lparr>l_cleaner := k\<rparr>) = list_held s"
  by (simp_all add: list_away_def list_held_def l_lend_def l_shut_conn_def)

lemma list_sums_return:
  assumes "c \<in># l_lent s"
  shows "list_away s = add_mset c (list_away (l_return c s))"
    and "list_held s = Suc (list_held (l_return c s))"
  using assms by (auto simp: list_away_def list_held_def l_return_def dest: multi_member_split)

lemma l_return_fields [simp]:
  "l_pool (l_return c s) = l_pool s" "l_calls (l_return c s) = l_calls s"
  "l_fresh (l_return c s) = l_fresh s" "l_cleaner (l_return c s) = l_cleaner s"
  by (simp_all add: l_return_def)

lemma l_settle_book:
  "l_pool (l_settle po s) = fst po"
  "l_fresh (l_settle po s) = l_fresh s"
  "l_cleaner (l_settle po s) = l_cleaner s"
  "list_away (l_settle po s) = list_away s + list_out_conns (snd po)"
  "list_held (l_settle po s) = list_held s + list_out_counted (snd po)"
  by (cases "snd po", simp_all add: l_settle_def Let_def)+

text \<open>The invariant in the form in which the steps are checked against it.\<close>

lemma list_inv_iff:
  "list_inv s \<longleftrightarrow> conns_of (lp_idles (l_pool s)) + list_away s = made_conns (l_fresh s) \<and>
     list_spare (l_pool s) = int (list_held s) \<and>
     (lp_cleaner (l_pool s) = None \<longrightarrow> l_cleaner s = NoCleaner)"
  by (auto simp: list_inv_def list_owners_def list_spare_def)

text \<open>
  A critical section of \<open>Get\<close> entered from position \<open>pc\<close> keeps the invariant when
  the pool it starts from has lost what \<open>pc\<close> was counted for.
\<close>

lemma list_inv_settle:
  assumes "conns_of (lp_idles p) + list_away s = made_conns (l_fresh s)"
    and "list_spare p = int (list_held s)"
    and "lp_cleaner (fst po) = None \<longrightarrow> l_cleaner s = NoCleaner"
    and "conns_of (lp_idles (fst po)) + list_out_conns (snd po) = conns_of (lp_idles p)"
    and "list_spare (fst po) = list_spare p + int (list_out_counted (snd po))"
  shows "list_inv (l_settle po s)"
proof -
  have "conns_of (lp_idles (fst po)) + (list_away s + list_out_conns (snd po))
      = conns_of (lp_idles p) + list_away s"
    by (simp add: assms(4) [symmetric] ac_simps)
  with assms show ?thesis by (simp add: list_inv_iff l_settle_book)
qed

lemma list_inv_clean:
  assumes "list_inv s" and "list_cleaner_conns (l_cleaner s) = {#}"
    and "lp_cleaner (l_pool s) \<noteq> None"
  shows "list_inv (l_clean_from i n now s)"
proof -
  obtain p gone where t: "list_clean_turn i n now (l_pool s) = (p, gone)" by fastforce
  have "list_away (s\<lparr>l_pool := p, l_cleaner := k\<rparr>) = list_away s + list_cleaner_conns k" for k
    using assms(2) by (simp add: list_away_def ac_simps)
  moreover have "list_held (s\<lparr>l_pool := p, l_cleaner := k\<rparr>) = list_held s" for k
    by (simp add: list_held_def)
  moreover have "conns_of (lp_idles p)
      + (list_away s + list_cleaner_conns (case gone of None \<Rightarrow> CSelect | Some ic \<Rightarrow> CClosing ic i n))
      = made_conns (l_fresh s)"
    using assms(1) by (cases gone)
      (simp_all add: list_inv_iff list_clean_turn_book(1) [OF t, symmetric] ac_simps)
  moreover have "lp_cleaner p \<noteq> None"
    using assms(3) list_clean_turn_cleaner [of i n now "l_pool s"] t by simp
  ultimately show ?thesis
    using assms(1) list_clean_turn_book(2) [OF t] t
    by (auto simp: list_inv_iff l_clean_from_def)
qed

lemma list_inv_init: "list_init s \<Longrightarrow> list_inv s"
proof -
  assume "list_init s"
  then obtain oc ps where ps: "NewList oc = Done ps" and s: "s = list_start ps"
    by (auto simp: list_init_def)
  from ps have "lp_idles (fst ps) = []" and "lp_active (fst ps) = 0"
    and "lp_cleaner (fst ps) = None \<longrightarrow> \<not> snd ps"
    by (auto simp: NewList_def list_startCleanerLocked_def split: option.splits if_splits)
  then show ?thesis
    by (auto simp: s list_start_def l_start_cleaner_def list_inv_iff list_spare_def list_away_def
        list_held_def)
qed

lemma list_inv_wake:
  assumes "list_inv s" and "list_cleaner_conns (l_cleaner s) = {#}"
    and "lp_cleaner (l_pool s) \<noteq> None"
  shows "list_inv (l_clean_wake now s)"
proof (cases "list_clean_stop (l_pool s)")
  case True
  have "list_away (s\<lparr>l_cleaner := CExit\<rparr>) = list_away s"
    using assms(2) by (simp add: list_away_def)
  with True assms(1,3) show ?thesis by (simp add: l_clean_wake_def list_inv_iff)
next
  case False
  with assms show ?thesis by (simp add: l_clean_wake_def list_inv_clean)
qed

text \<open>Updates of the pool that neither the idle list nor the count sees.\<close>

lemma list_inv_pool_upd:
  assumes "list_inv s" and "lp_idles p = lp_idles (l_pool s)" and "lp_active p = lp_active (l_pool s)"
    and "lp_cleaner p = None \<longrightarrow> lp_cleaner (l_pool s) = None"
  shows "list_inv (s\<lparr>l_pool := p\<rparr>)"
  using assms by (simp add: list_inv_iff list_spare_def)

lemma list_inv_step:
  assumes inv: "list_inv s" and step: "list_step s e = Some t"
  shows "list_inv t"
proof (cases e)
  case LGet
  with step have "t = l_settle (list_get_begin (l_pool s)) s" by simp
  with inv show ?thesis
    by (simp only:) (rule list_inv_settle [where p = "l_pool s"],
      auto simp: list_inv_iff list_get_begin_book)
next
  case (LTake ic i n now)
  with step inv show ?thesis
    by (auto simp: list_inv_iff list_away_leave [of "LPopped ic i n" s]
        list_held_leave [of "LPopped ic i n" s] split: if_splits)
next
  case (LExpire ic i n now)
  with step inv show ?thesis
    by (auto simp: list_inv_iff list_away_leave [of "LPopped ic i n" s]
        list_held_leave [of "LPopped ic i n" s] split: if_splits)
next
  case (LRescan i n)
  with step have pc: "LReap i n \<in># l_calls s"
    and t: "t = l_settle (list_scan (Suc i) n (list_release (l_pool s))) (l_leave (LReap i n) s)"
    by (auto split: if_splits)
  from inv show ?thesis
    unfolding t
    by (intro list_inv_settle [where p = "list_release (l_pool s)"])
      (auto simp: list_inv_iff list_scan_book list_away_leave [OF pc] list_held_leave [OF pc])
next
  case LDialOk
  with step inv show ?thesis
    by (auto simp: list_inv_iff list_away_leave [of LDial s] list_held_leave [of LDial s]
        split: if_splits)
next
  case LDialFail
  with step inv show ?thesis
    by (auto simp: list_inv_iff list_away_leave [of LDial s] list_held_leave [of LDial s]
        split: if_splits)
next
  case LDialUndo
  with step inv show ?thesis
    by (auto simp: list_inv_iff list_away_leave [of LDialErr s]
        list_held_leave [of LDialErr s] split: if_splits)
next
  case LPark
  with step inv show ?thesis
    by (auto simp: list_inv_iff list_away_leave [of LWait s]
        list_held_leave [of LWait s] split: if_splits)
next
  case LCtxDone
  with step inv show ?thesis
    by (auto intro!: list_inv_pool_upd split: if_splits)
next
  case LResume
  let ?p = "(l_pool s)\<lparr>lp_woken := lp_woken (l_pool s) - 1\<rparr>"
  from LResume step have "t = l_settle (list_loop ?p) s" by (auto split: if_splits)
  with inv show ?thesis
    by (simp only:) (rule list_inv_settle [where p = ?p],
      auto simp: list_inv_iff list_loop_def list_scan_book)
next
  case (LPut c forceClose now)
  obtain p gone where put: "list_Put now c forceClose (l_pool s) = (p, gone)" by fastforce
  with LPut step have c: "c \<in># l_lent s"
    and t: "t = (case gone of None \<Rightarrow> (l_return c s)\<lparr>l_pool := p\<rparr>
      | Some x \<Rightarrow> l_enter (LClosePut x) ((l_return c s)\<lparr>l_pool := p\<rparr>))"
    by (auto simp: Let_def split: if_splits)
  have "lp_cleaner p = lp_cleaner (l_pool s)"
    using list_Put_cleaner [of now c forceClose "l_pool s"] put by simp
  moreover have "conns_of (lp_idles p) + (case gone of None \<Rightarrow> {#} | Some x \<Rightarrow> {#x#})
      + list_away (l_return c s) = made_conns (l_fresh s)"
    using inv by (simp add: list_Put_book(1) [OF put] list_inv_iff list_sums_return [OF c])
  ultimately show ?thesis
    using inv list_Put_book(2) [OF put] list_sums_return(2) [OF c]
    by (cases gone) (auto simp: t list_inv_iff)
next
  case (LPutClose c)
  with step inv show ?thesis
    by (auto simp: list_inv_iff list_away_leave [of "LClosePut c" s]
        list_held_leave [of "LClosePut c" s] split: if_splits)
next
  case LClose
  with step inv show ?thesis
    by (auto simp: list_inv_iff list_Close_def list_spare_def conns_of_def ac_simps)
next
  case (LCloseOne c cs)
  with step inv show ?thesis
    by (auto simp: list_inv_iff list_away_leave [of "LCloseAll (c # cs)" s]
        list_held_leave [of "LCloseAll (c # cs)" s] split: if_splits)
next
  case (LReload c)
  obtain p b where r: "list_Reload c (l_pool s) = (p, b)" by fastforce
  then have "lp_idles p = lp_idles (l_pool s)" and "lp_active p = lp_active (l_pool s)"
    and "b \<longrightarrow> lp_cleaner (l_pool s) = None" and "lp_cleaner p = None \<longrightarrow> lp_cleaner (l_pool s) = None"
    and "b \<longrightarrow> lp_cleaner p \<noteq> None"
    by (auto simp: list_Reload_def list_startCleanerLocked_def Let_def split: if_splits option.splits)
  with LReload step inv r show ?thesis
    by (auto simp: list_inv_iff list_spare_def l_start_cleaner_def list_away_def)
next
  case (LTick now)
  with step have k: "l_cleaner s = CSelect" and t: "t = l_clean_wake now s"
    by (auto split: if_splits)
  from inv k show ?thesis
    unfolding t by (intro list_inv_wake) (auto simp: list_inv_def)
next
  case (LPoke now)
  with step inv show ?thesis
    by (auto intro!: list_inv_wake list_inv_pool_upd split: option.splits nat.splits if_splits)
next
  case (LCleanClose ic i n now)
  let ?u = "(l_shut_conn (item_c ic) s)\<lparr>l_cleaner := CSelect\<rparr>"
  from LCleanClose step have k: "l_cleaner s = CClosing ic i n"
    and t: "t = l_clean_from (Suc i) n now ?u"
    by (auto simp: l_clean_from_def split: if_splits)
  from inv k have "list_inv ?u"
    by (auto simp: list_inv_iff list_away_def list_held_def l_shut_conn_def)
  with inv k show ?thesis
    unfolding t by (intro list_inv_clean) (auto simp: list_inv_iff)
qed

interpretation lpool: inv_system list_init list_step list_inv
  by unfold_locales (rule list_inv_init, assumption, rule list_inv_step)

section \<open>Properties of the running pool\<close>

subsection \<open>Connections\<close>

text \<open>
  C1. However the goroutines interleave, every connection that \<open>New\<close> ever made is in exactly
  one place: idle, lent to a client, in the hands of one goroutine, or closed. None is lost,
  lent twice, or closed twice.
\<close>

theorem list_conns_conserved:
  assumes "reach list_init list_step s"
  shows "list_owners s = made_conns (l_fresh s)"
  using lpool.reach_inv [OF assms] by (simp add: list_inv_def)

lemma list_lent_owned:
  assumes "list_owners s = made_conns n" and "c \<in># l_lent s"
  shows "count (l_lent s) c = 1 \<and> c \<notin># conns_of (lp_idles (l_pool s)) \<and> c \<notin># l_shut s"
proof -
  have "count (conns_of (lp_idles (l_pool s))) c + count (l_lent s) c + count (l_shut s) c \<le> 1"
    using arg_cong [OF assms(1), of "\<lambda>M. count M c"]
    by (simp add: list_owners_def list_away_def count_made_conns split: if_splits)
  moreover have "0 < count (l_lent s) c" using assms(2) by simp
  ultimately have "count (l_lent s) c = 1 \<and> count (conns_of (lp_idles (l_pool s))) c = 0 \<and>
    count (l_shut s) c = 0" by linarith
  then show ?thesis by (simp add: not_in_iff)
qed

text \<open>
  A connection a client holds is lent to that client alone: it is neither in the idle list
  nor closed.
\<close>

theorem list_lent_exclusive:
  assumes "reach list_init list_step s" and "c \<in># l_lent s"
  shows "count (l_lent s) c = 1 \<and> c \<notin># conns_of (lp_idles (l_pool s)) \<and> c \<notin># l_shut s"
  using lpool.reach_inv [OF assms(1)] assms(2) by (auto simp: list_inv_def dest: list_lent_owned)

text \<open>
  C6. The counter \<open>active\<close> is exact in every reachable state: the idle connections, the lent
  ones and those a \<open>Get\<close> is opening, checking or retiring.
\<close>

theorem list_active_exact:
  assumes "reach list_init list_step s"
  shows "lp_active (l_pool s) = int (length (lp_idles (l_pool s)) + size (l_lent s)
    + size (filter_mset list_pc_counted (l_calls s)))"
  using lpool.reach_inv [OF assms] by (simp add: list_inv_def list_held_def)

subsection \<open>The limits\<close>

text \<open>The pool with a configuration that is never reloaded.\<close>

fun list_step_fixed :: "list_sys \<Rightarrow> list_ev \<Rightarrow> list_sys option" where
  "list_step_fixed s (LReload c) = None"
| "list_step_fixed s e = list_step s e"

lemma list_step_fixed_Some: "list_step_fixed s e = Some t \<Longrightarrow> list_step s e = Some t"
  by (cases e) auto

definition list_limits :: "list_pool \<Rightarrow> bool" where
  "list_limits p \<longleftrightarrow> (0 < Active (lp_conf p) \<longrightarrow> lp_active p \<le> Active (lp_conf p)) \<and>
     int (length (lp_idles p)) \<le> max 0 (Idle (lp_conf p))"

definition list_limits_kept :: "list_pool \<Rightarrow> list_pool \<Rightarrow> bool" where
  "list_limits_kept p q \<longleftrightarrow> lp_conf q = lp_conf p \<and> (list_limits p \<longrightarrow> list_limits q)"

lemma list_limits_keptI:
  assumes "lp_conf q = lp_conf p" and "lp_active q \<le> lp_active p"
    and "length (lp_idles q) \<le> length (lp_idles p)"
  shows "list_limits_kept p q"
  using assms by (auto simp: list_limits_kept_def list_limits_def)

lemma list_limits_kept_trans:
  "list_limits_kept p q \<Longrightarrow> list_limits_kept q r \<Longrightarrow> list_limits_kept p r"
  by (simp add: list_limits_kept_def)

lemma list_limits_release: "list_limits_kept p (list_release p)"
  by (rule list_limits_keptI) simp_all

lemma list_limits_after_scan: "list_limits_kept p (fst (list_after_scan p))"
  by (auto simp: list_after_scan_def list_limits_kept_def list_limits_def)

lemma list_limits_scan: "list_limits_kept p (fst (list_scan i n p))"
  by (auto simp: list_scan_def list_limits_after_scan intro: list_limits_keptI split: list.split)

lemma list_limits_Put: "list_limits_kept p (fst (list_Put now c forceClose p))"
proof -
  consider "lp_closed p \<or> forceClose"
    | "\<not> lp_closed p" "\<not> forceClose" "int (length (lp_idles p)) < Idle (lp_conf p)"
    | "\<not> lp_closed p" "\<not> forceClose" "\<not> int (length (lp_idles p)) < Idle (lp_conf p)"
    by blast
  then show ?thesis
    by cases (auto simp: list_Put_drop list_Put_keep list_Put_evict Let_def list_limits_kept_def
        list_limits_def)
qed

lemma list_limits_clean_turn: "list_limits_kept p (fst (list_clean_turn i n now p))"
  by (auto simp: list_clean_turn_def Let_def intro!: list_limits_keptI)

lemma list_limits_clean:
  "l_pool (l_clean_from i n now s) = fst (list_clean_turn i n now (l_pool s))"
  "list_limits_kept (l_pool s) (l_pool (l_clean_wake now s))"
  by (simp_all add: l_clean_from_def l_clean_wake_def list_limits_clean_turn
      list_limits_kept_def [of "l_pool s" "l_pool s"] split: prod.split)
    (metis fst_conv list_limits_clean_turn)

lemma list_limits_step:
  "list_step_fixed s e = Some t \<Longrightarrow> list_limits_kept (l_pool s) (l_pool t)"
proof (cases e)
  case (LPut c forceClose now)
  assume step: "list_step_fixed s e = Some t"
  obtain p gone where put: "list_Put now c forceClose (l_pool s) = (p, gone)" by fastforce
  with LPut step have "l_pool t = p" by (auto simp: Let_def split: if_splits option.splits)
  with list_limits_Put [of "l_pool s" now c forceClose] put show ?thesis by simp
next
  case (LRescan i n)
  assume "list_step_fixed s e = Some t"
  with LRescan have "l_pool t = fst (list_scan (Suc i) n (list_release (l_pool s)))"
    by (auto simp: l_settle_book split: if_splits)
  then show ?thesis
    using list_limits_kept_trans [OF list_limits_release list_limits_scan] by simp
next
  case LResume
  assume "list_step_fixed s e = Some t"
  with LResume have "l_pool t = fst (list_loop ((l_pool s)\<lparr>lp_woken := lp_woken (l_pool s) - 1\<rparr>))"
    by (auto simp: l_settle_book split: if_splits)
  moreover have "list_limits_kept (l_pool s) ((l_pool s)\<lparr>lp_woken := lp_woken (l_pool s) - 1\<rparr>)"
    by (rule list_limits_keptI) simp_all
  ultimately show ?thesis
    using list_limits_kept_trans list_limits_scan by (metis list_loop_def)
next
  case (LPoke now)
  assume "list_step_fixed s e = Some t"
  with LPoke obtain k where "l_pool t = l_pool (l_clean_wake now (s\<lparr>l_pool := (l_pool s)\<lparr>lp_cleaner := Some k\<rparr>\<rparr>))"
    by (auto split: option.splits nat.splits if_splits)
  moreover have "list_limits_kept (l_pool s) ((l_pool s)\<lparr>lp_cleaner := Some k\<rparr>)"
    by (rule list_limits_keptI) simp_all
  ultimately show ?thesis
    using list_limits_clean(2) [of "s\<lparr>l_pool := (l_pool s)\<lparr>lp_cleaner := Some k\<rparr>\<rparr>" now]
      list_limits_kept_trans by simp
qed (auto simp: l_settle_book list_get_begin_def list_loop_def list_limits_scan list_limits_clean
    list_limits_clean_turn list_limits_release list_Close_def intro: list_limits_keptI
    split: if_splits)

definition list_limits_inv :: "list_sys \<Rightarrow> bool" where
  "list_limits_inv s \<longleftrightarrow> list_inv s \<and> list_limits (l_pool s)"

lemma list_limits_init: "list_init s \<Longrightarrow> list_limits (l_pool s)"
proof -
  assume "list_init s"
  then obtain oc ps where ps: "NewList oc = Done ps" and s: "s = list_start ps"
    by (auto simp: list_init_def)
  from ps have "lp_idles (fst ps) = []" and "lp_active (fst ps) = 0"
    by (auto simp: NewList_def list_startCleanerLocked_def split: option.splits if_splits)
  then show ?thesis
    by (simp add: s list_start_def l_start_cleaner_def list_limits_def)
qed

interpretation lfixed: inv_system list_init list_step_fixed list_limits_inv
proof unfold_locales
  show "list_limits_inv s" if "list_init s" for s
    using that by (simp add: list_limits_inv_def list_inv_init list_limits_init)
  show "list_limits_inv t" if "list_limits_inv s" and "list_step_fixed s e = Some t" for s e t
    using that list_limits_step [OF that(2)] list_inv_step [OF _ list_step_fixed_Some [OF that(2)]]
    by (simp add: list_limits_inv_def list_limits_kept_def)
qed

text \<open>
  C8. A pool with a limit keeps it: the connections that are idle, lent out or being opened are
  never more than \<open>Active\<close> together, under any interleaving, as long as the
  configuration is not reloaded.
\<close>

theorem list_active_limit:
  assumes "reach list_init list_step_fixed s" and "0 < Active (lp_conf (l_pool s))"
  shows "int (length (lp_idles (l_pool s)) + size (l_lent s)
    + size (filter_mset list_pc_counted (l_calls s))) \<le> Active (lp_conf (l_pool s))"
  using lfixed.reach_inv [OF assms(1)] assms(2)
  by (simp add: list_limits_inv_def list_limits_def list_inv_def list_held_def)

text \<open>The idle list never outgrows \<open>Idle\<close>; with \<open>Idle \<le> 0\<close> nothing is kept.\<close>

theorem list_idle_limit:
  assumes "reach list_init list_step_fixed s"
  shows "int (length (lp_idles (l_pool s))) \<le> max 0 (Idle (lp_conf (l_pool s)))"
  using lfixed.reach_inv [OF assms] by (simp add: list_limits_inv_def list_limits_def)

subsection \<open>Concrete runs\<close>

text \<open>A new pool with no idle timeout, and the state after one connection is lent.\<close>

definition list_sys0 :: "config \<Rightarrow> list_sys" where
  "list_sys0 c =
     \<lparr>l_pool = \<lparr>lp_conf = c, lp_closed = False, lp_active = 0, lp_idles = [],
        lp_cleaner = None, lp_recvq = 0, lp_woken = 0\<rparr>,
      l_calls = {#}, l_cleaner = NoCleaner, l_lent = {#}, l_shut = {#}, l_fresh = 0\<rparr>"

lemma list_sys0_init: "Idle c \<le> Active c \<Longrightarrow> IdleTimeout c \<le> 0 \<Longrightarrow> list_init (list_sys0 c)"
proof -
  assume "Idle c \<le> Active c" and "IdleTimeout c \<le> 0"
  then have "NewList (Some c) = Done (l_pool (list_sys0 c), False)"
    by (simp add: NewList_def list_startCleanerLocked_def list_sys0_def)
  moreover have "list_sys0 c = list_start (l_pool (list_sys0 c), False)"
    by (simp add: list_start_def l_start_cleaner_def list_sys0_def)
  ultimately show ?thesis unfolding list_init_def by blast
qed

definition wait_conf :: config where
  "wait_conf = \<lparr>Active = 1, Idle = 1, IdleTimeout = 0, WaitTimeout = 0, Wait = True\<rparr>"

lemmas list_eval =
  list_sys0_def wait_conf_def l_settle_def l_enter_def l_leave_def l_lend_def l_return_def
  l_shut_conn_def list_pool_defs Let_def

lemma list_demo_lent:
  "run list_step_fixed (list_sys0 wait_conf) [LGet, LDialOk] =
     Some ((list_sys0 wait_conf)\<lparr>l_pool := (l_pool (list_sys0 wait_conf))\<lparr>lp_active := 1\<rparr>,
       l_lent := {#0#}, l_fresh := 1\<rparr>)"
  by (simp add: list_eval)

lemma list_lost_wakeup_run:
  "run list_step (list_sys0 wait_conf) [LGet, LDialOk, LGet, LPut 0 False 0, LPark] =
     Some ((list_sys0 wait_conf)\<lparr>l_pool := (l_pool (list_sys0 wait_conf))
         \<lparr>lp_active := 1, lp_idles := [\<lparr>createdAt = 0, item_c = 0\<rparr>], lp_recvq := 1\<rparr>,
       l_fresh := 1\<rparr>)"
  by (simp add: list_eval)

lemma list_wait_init: "list_init (list_sys0 wait_conf)"
  by (rule list_sys0_init) (simp_all add: wait_conf_def)

lemmas list_wait_run = run_from_init [where init = list_init, OF list_wait_init]

lemma list_reach_fixed: "reach list_init list_step_fixed s \<Longrightarrow> reach list_init list_step s"
  by (erule reach_mono) (rule list_step_fixed_Some)

lemma list_demo_lent_reach:
  "reach list_init list_step_fixed ((list_sys0 wait_conf)
     \<lparr>l_pool := (l_pool (list_sys0 wait_conf))\<lparr>lp_active := 1\<rparr>, l_lent := {#0#}, l_fresh := 1\<rparr>)"
  by (rule list_wait_run [OF list_demo_lent])

theorem list_conns_conserved_witness:
  "list_owners ((list_sys0 wait_conf)
     \<lparr>l_pool := (l_pool (list_sys0 wait_conf))\<lparr>lp_active := 1\<rparr>, l_lent := {#0#}, l_fresh := 1\<rparr>)
   = {#0#}"
  using list_conns_conserved [OF list_reach_fixed [OF list_demo_lent_reach]] by simp

theorem list_lent_exclusive_witness:
  "\<exists>s. reach list_init list_step s \<and> count (l_lent s) 0 = 1 \<and> (0::conn) \<notin># l_shut s"
proof -
  let ?s = "(list_sys0 wait_conf)
     \<lparr>l_pool := (l_pool (list_sys0 wait_conf))\<lparr>lp_active := 1\<rparr>, l_lent := {#0#}, l_fresh := 1\<rparr>"
  have r: "reach list_init list_step ?s" by (rule list_reach_fixed [OF list_demo_lent_reach])
  have "(0::conn) \<in># l_lent ?s" by simp
  from list_lent_exclusive [OF r this] r show ?thesis by blast
qed

theorem list_active_exact_witness:
  "lp_active (l_pool ((list_sys0 wait_conf)
     \<lparr>l_pool := (l_pool (list_sys0 wait_conf))\<lparr>lp_active := 1\<rparr>, l_lent := {#0#}, l_fresh := 1\<rparr>)) = 1"
  using list_active_exact [OF list_reach_fixed [OF list_demo_lent_reach]]
  by (simp add: list_sys0_def)

theorem list_active_limit_witness:
  "\<exists>s. reach list_init list_step_fixed s \<and> size (l_lent s) = 1 \<and>
     int (length (lp_idles (l_pool s)) + size (l_lent s)
       + size (filter_mset list_pc_counted (l_calls s))) \<le> 1"
proof -
  let ?s = "(list_sys0 wait_conf)
     \<lparr>l_pool := (l_pool (list_sys0 wait_conf))\<lparr>lp_active := 1\<rparr>, l_lent := {#0#}, l_fresh := 1\<rparr>"
  have "Active (lp_conf (l_pool ?s)) = 1" by (simp add: list_sys0_def wait_conf_def)
  with list_active_limit [OF list_demo_lent_reach] list_demo_lent_reach
  show ?thesis by (intro exI [of _ ?s]) simp
qed

theorem list_idle_limit_witness:
  "length (lp_idles (l_pool ((list_sys0 wait_conf)
     \<lparr>l_pool := (l_pool (list_sys0 wait_conf))\<lparr>lp_active := 1\<rparr>, l_lent := {#0#}, l_fresh := 1\<rparr>))) \<le> 1"
  using list_idle_limit [OF list_demo_lent_reach] by (simp add: list_sys0_def wait_conf_def)

subsection \<open>Waiting\<close>

text \<open>
  C18. A wake-up can be lost. \<open>Get\<close> drops the lock before it waits on \<open>cond\<close>, and
  \<open>signal\<close> wakes nobody who is not waiting yet: there is a reachable state of an open pool
  with a good connection in the idle list, no goroutine on its way to it, and a \<open>Get\<close> that
  waits.
\<close>

theorem list_wakeup_lost:
  "\<exists>s. reach list_init list_step_fixed s \<and> \<not> lp_closed (l_pool s) \<and> lp_idles (l_pool s) \<noteq> [] \<and>
     l_calls s = {#} \<and> l_lent s = {#} \<and> lp_woken (l_pool s) = 0 \<and> lp_recvq (l_pool s) = 1"
proof -
  have "run list_step_fixed (list_sys0 wait_conf) [LGet, LDialOk, LGet, LPut 0 False 0, LPark] =
     Some ((list_sys0 wait_conf)\<lparr>l_pool := (l_pool (list_sys0 wait_conf))
         \<lparr>lp_active := 1, lp_idles := [\<lparr>createdAt = 0, item_c = 0\<rparr>], lp_recvq := 1\<rparr>,
       l_fresh := 1\<rparr>)"
    by (simp add: list_eval)
  from list_wait_run [OF this]
  show ?thesis by (intro exI conjI) (assumption, simp_all add: list_sys0_def)
qed

text \<open>
  A closed pool in which nothing is lent and no goroutine is on its way back to the lock.
  \<open>k\<close> goroutines wait.
\<close>

definition list_stranded :: "nat \<Rightarrow> list_sys \<Rightarrow> bool" where
  "list_stranded k s \<longleftrightarrow> lp_closed (l_pool s) \<and> lp_idles (l_pool s) = [] \<and> l_lent s = {#} \<and>
     lp_woken (l_pool s) = 0 \<and> lp_recvq (l_pool s) = k \<and>
     (\<forall>pc. pc \<in># l_calls s \<longrightarrow> (\<exists>cs. pc = LCloseAll cs)) \<and>
     (l_cleaner s = NoCleaner \<or> l_cleaner s = CSelect \<or> l_cleaner s = CExit)"

text \<open>The same system when no context of a waiting \<open>Get\<close> ever ends.\<close>

fun list_step_patient :: "list_sys \<Rightarrow> list_ev \<Rightarrow> list_sys option" where
  "list_step_patient s LCtxDone = None"
| "list_step_patient s e = list_step s e"

lemma list_stranded_pcs:
  assumes "list_stranded k s"
  shows "LPopped ic i n \<notin># l_calls s" "LReap i n \<notin># l_calls s" "LDial \<notin># l_calls s"
    "LDialErr \<notin># l_calls s" "LWait \<notin># l_calls s" "LClosePut c \<notin># l_calls s"
    "c \<notin># l_lent s" "lp_woken (l_pool s) = 0"
  using assms by (auto simp: list_stranded_def)

lemma list_stranded_get:
  "list_stranded k s \<Longrightarrow> l_settle (list_get_begin (l_pool s)) s = s"
  by (simp add: list_stranded_def list_get_begin_def l_settle_def)

lemma list_stranded_wake:
  "list_stranded k s \<Longrightarrow> list_stranded k (l_clean_wake now s)"
  by (simp add: list_stranded_def l_clean_wake_def list_clean_stop_def)

lemma list_stranded_cleaner: "list_stranded k s \<Longrightarrow> l_cleaner s \<noteq> CClosing ic i n"
  by (auto simp: list_stranded_def)

lemma list_stranded_pool:
  "list_stranded k s \<Longrightarrow> lp_closed p \<Longrightarrow> lp_idles p = [] \<Longrightarrow> lp_woken p = 0 \<Longrightarrow>
     lp_recvq p = k \<Longrightarrow> list_stranded k (s\<lparr>l_pool := p\<rparr>)"
  by (simp add: list_stranded_def)

lemma list_stranded_fields:
  "list_stranded k s \<Longrightarrow> lp_closed (l_pool s) \<and> lp_idles (l_pool s) = [] \<and>
     lp_woken (l_pool s) = 0 \<and> lp_recvq (l_pool s) = k"
  by (simp add: list_stranded_def)

lemma list_stranded_step:
  assumes s: "list_stranded k s" and step: "list_step_patient s e = Some t"
  shows "list_stranded k t"
proof (cases e)
  case (LCloseOne c cs)
  with s step show ?thesis
    by (auto simp: list_stranded_def l_enter_def l_leave_def split: if_splits dest!: in_diffD)
next
  case (LReload c)
  obtain p b where r: "list_Reload c (l_pool s) = (p, b)" by fastforce
  then have "lp_closed p = lp_closed (l_pool s)" "lp_idles p = lp_idles (l_pool s)"
    "lp_woken p = lp_woken (l_pool s)" "lp_recvq p = lp_recvq (l_pool s)"
    by (auto simp: list_Reload_def list_startCleanerLocked_def Let_def split: if_splits option.splits)
  with r LReload s step show ?thesis
    by (cases b) (auto simp: list_stranded_def l_start_cleaner_def)
next
  case (LTick now)
  with s step show ?thesis by (auto intro: list_stranded_wake split: if_splits)
next
  case (LPoke now)
  with s step show ?thesis
    by (auto intro!: list_stranded_wake list_stranded_pool dest: list_stranded_fields
        split: option.splits nat.splits if_splits)
next
  case LClose
  with s step show ?thesis
    by (auto simp: list_stranded_def list_Close_def l_enter_def)
qed (use s step in \<open>simp_all add: list_stranded_pcs list_stranded_get list_stranded_cleaner\<close>)

interpretation lstranded: inv_system "list_stranded k" list_step_patient "list_stranded k" for k
  by unfold_locales (assumption, rule list_stranded_step)

lemma list_stranded_run:
  "run list_step_fixed (list_sys0 wait_conf)
       [LGet, LDialOk, LGet, LPut 0 False 0, LPark, LClose, LCloseOne 0 []] =
     Some ((list_sys0 wait_conf)\<lparr>l_pool := (l_pool (list_sys0 wait_conf))
         \<lparr>lp_closed := True, lp_recvq := 1\<rparr>,
       l_calls := {#LCloseAll []#}, l_shut := {#0#}, l_fresh := 1\<rparr>)"
  by (simp add: list_eval)

text \<open>
  \<open>Close\<close> does not wake the goroutines that wait in \<open>Get\<close>: there is a reachable state from
  which a waiting \<open>Get\<close> stays parked whatever the clients, the cleaner and the clock do, unless
  its own context ends.
\<close>

theorem list_close_strands_waiter:
  "\<exists>s. reach list_init list_step_fixed s \<and> lp_closed (l_pool s) \<and>
     (\<forall>es t. run list_step_patient s es = Some t \<longrightarrow>
        lp_recvq (l_pool t) = 1 \<and> lp_woken (l_pool t) = 0)"
proof -
  let ?s = "(list_sys0 wait_conf)\<lparr>l_pool := (l_pool (list_sys0 wait_conf))
         \<lparr>lp_closed := True, lp_recvq := 1\<rparr>,
       l_calls := {#LCloseAll []#}, l_shut := {#0#}, l_fresh := 1\<rparr>"
  have "list_stranded 1 ?s" by (simp add: list_stranded_def list_sys0_def)
  then have "list_stranded 1 t" if "run list_step_patient ?s es = Some t" for es t
    using that by (rule lstranded.run_inv)
  then have "lp_recvq (l_pool t) = 1 \<and> lp_woken (l_pool t) = 0"
    if "run list_step_patient ?s es = Some t" for es t
    using that list_stranded_fields by blast
  moreover have "lp_closed (l_pool ?s)" by simp
  ultimately show ?thesis using list_wait_run [OF list_stranded_run] by blast
qed

theorem list_close_strands_waiter_witness:
  "\<exists>s t. reach list_init list_step_fixed s \<and> run list_step_patient s [LGet, LClose] = Some t \<and>
     lp_recvq (l_pool t) = 1"
proof -
  obtain s where s: "reach list_init list_step_fixed s" "lp_closed (l_pool s)"
    "\<And>es t. run list_step_patient s es = Some t \<Longrightarrow> lp_recvq (l_pool t) = 1"
    using list_close_strands_waiter by blast
  moreover obtain t where "run list_step_patient s [LGet, LClose] = Some t"
    by (simp add: list_Close_def)
  ultimately show ?thesis by blast
qed

subsection \<open>The cleaner\<close>

definition list_cleaner_gone :: "list_sys \<Rightarrow> bool" where
  "list_cleaner_gone s \<longleftrightarrow> list_inv s \<and> l_cleaner s = CExit"

lemma list_cleaner_gone_step:
  assumes s: "list_cleaner_gone s" and step: "list_step s e = Some t"
  shows "list_cleaner_gone t"
proof -
  have inv: "list_inv s" and k: "l_cleaner s = CExit"
    using s by (simp_all add: list_cleaner_gone_def)
  have "l_cleaner t = CExit"
  proof (cases e)
    case (LReload c)
    have "lp_cleaner (l_pool s) \<noteq> None" using inv k by (auto simp: list_inv_def)
    then have "\<not> snd (list_Reload c (l_pool s))"
      by (auto simp: list_Reload_def list_startCleanerLocked_def Let_def split: if_splits)
    with LReload step k show ?thesis
      by (auto simp: l_start_cleaner_def split: prod.splits)
  next
    case (LPut c forceClose now)
    with step k show ?thesis by (auto simp: Let_def split: if_splits prod.splits option.splits)
  next
    case (LPoke now)
    with step k show ?thesis by (auto split: option.splits nat.splits)
  qed (use step k in \<open>auto simp: l_settle_book list_Close_def split: if_splits\<close>)
  with list_inv_step [OF inv step] show ?thesis by (simp add: list_cleaner_gone_def)
qed

interpretation lgone: inv_system list_cleaner_gone list_step list_cleaner_gone
  by unfold_locales (assumption, rule list_cleaner_gone_step)

text \<open>
  Once the cleaner has returned, because the pool was closed or because it woke while the
  idle timeout was not positive, no later \<open>Reload\<close> starts another one: the channel that guards
  the start is still there.
\<close>

theorem list_cleaner_never_restarts:
  assumes "reach list_init list_step s" and "l_cleaner s = CExit" and "run list_step s es = Some t"
  shows "l_cleaner t = CExit"
proof -
  have "list_cleaner_gone s"
    using assms(2) lpool.reach_inv [OF assms(1)] by (simp add: list_cleaner_gone_def)
  from lgone.run_inv [OF this assms(3)] show ?thesis by (simp add: list_cleaner_gone_def)
qed

definition list_timed :: "int \<Rightarrow> config" where
  "list_timed d = \<lparr>Active = 1, Idle = 1, IdleTimeout = d, WaitTimeout = 0, Wait = False\<rparr>"

theorem list_cleaner_never_restarts_witness:
  "\<exists>s t. reach list_init list_step s \<and> l_cleaner s = CExit \<and>
     run list_step s [LReload (list_timed 5)] = Some t \<and> IdleTimeout (lp_conf (l_pool t)) = 5 \<and>
     l_cleaner t = CExit"
proof -
  let ?ps = "(\<lparr>lp_conf = list_timed 5, lp_closed = False, lp_active = 0, lp_idles = [],
    lp_cleaner = Some 0, lp_recvq = 0, lp_woken = 0\<rparr>, True)"
  have "NewList (Some (list_timed 5)) = Done ?ps"
    by (simp add: NewList_def list_startCleanerLocked_def list_timed_def)
  then have init: "list_init (list_start ?ps)" unfolding list_init_def by blast
  obtain s where run: "run list_step (list_start ?ps) [LReload (list_timed 0), LTick 0] = Some s"
    and k: "l_cleaner s = CExit" and c: "lp_cleaner (l_pool s) = Some 0"
    and d: "IdleTimeout (lp_conf (l_pool s)) = 0"
    by (simp add: list_start_def l_start_cleaner_def list_timed_def list_Reload_def
        list_startCleanerLocked_def l_clean_wake_def list_clean_stop_def)
  have r: "reach list_init list_step s" by (rule run_from_init [where init = list_init, OF init run])
  obtain t where t: "run list_step s [LReload (list_timed 5)] = Some t"
    and "IdleTimeout (lp_conf (l_pool t)) = 5"
    by (simp add: list_Reload_def list_startCleanerLocked_def Let_def c d l_start_cleaner_def
        list_timed_def)
  with list_cleaner_never_restarts [OF r k t] r k show ?thesis by blast
qed

end
