(* ===== verification/Slice_Pool.thy ===== *)
theory Slice_Pool
  imports Pool_Base
begin

text \<open>
  The slice pool (src/onepool/slice.go) as a sequence of critical sections, as List_Pool does
  for the list pool: a definition is the code between a \<open>Lock\<close> and the next \<open>Unlock\<close>. The
  mutex itself is a field, because \<open>Reload\<close> locks it twice.
\<close>

section \<open>State\<close>

text \<open>
  A request channel is a number, given out in the order in which \<open>make\<close> is called;
  \<open>sp_requests\<close> is the map \<open>itemRequests\<close> from keys to channels, an association list without
  repeated keys. \<open>sp_opener\<close> is the number of signals buffered in \<open>openerCh\<close>; \<open>sp_cleaner\<close> is
  \<open>cleanerCh\<close> (\<open>None\<close> before it is made), with \<open>sp_cleaner_closed\<close> once \<open>Close\<close> has closed it.
\<close>

type_synonym req_key = "64 word"
type_synonym chan = nat

record slice_pool =
  sp_conf :: config
  sp_mu :: bool
  sp_free :: "item list"
  sp_requests :: "(req_key \<times> chan) list"
  sp_next :: req_key
  sp_made :: nat
  sp_active :: int
  sp_opener :: nat
  sp_closed :: bool
  sp_cleaner :: "nat option"
  sp_cleaner_closed :: bool

definition opener_cap :: nat where
  "opener_cap = 1000000"

section \<open>Operations\<close>

definition slice_startCleanerLocked :: "int \<Rightarrow> slice_pool \<Rightarrow> (slice_pool \<times> bool) outcome" where
  "slice_startCleanerLocked d p =
     (if d \<le> 0 then Done (p, False)
      else case sp_cleaner p of
        Some n \<Rightarrow>
          if d < IdleTimeout (sp_conf p)
          then if sp_cleaner_closed p then Panic ''send on closed channel''
               else Done (p\<lparr>sp_cleaner := Some (trysend 1 n)\<rparr>, False)
          else Done (p, False)
      | None \<Rightarrow> Done (p\<lparr>sp_cleaner := Some 0\<rparr>, True))"

definition NewSlice :: "config option \<Rightarrow> (slice_pool \<times> bool) outcome" where
  "NewSlice oc =
     (case oc of
        None \<Rightarrow> Panic ''config nil or Idle Must <= Active''
      | Some c \<Rightarrow>
          if Active c < Idle c then Panic ''config nil or Idle Must <= Active''
          else slice_startCleanerLocked (IdleTimeout c)
             \<lparr>sp_conf = c, sp_mu = False, sp_free = [], sp_requests = [], sp_next = 0, sp_made = 0,
              sp_active = 0, sp_opener = 0, sp_closed = False, sp_cleaner = None,
              sp_cleaner_closed = False\<rparr>)"

text \<open>The key wraps at \<open>2^64\<close>, as the unsigned counter of the code does.\<close>

definition nextRequestKeyLocked :: "slice_pool \<Rightarrow> slice_pool \<times> req_key" where
  "nextRequestKeyLocked p = (p\<lparr>sp_next := sp_next p + 1\<rparr>, sp_next p)"

definition defaultIdleItems :: int where
  "defaultIdleItems = 2"

definition maxIdleItemsLocked :: "slice_pool \<Rightarrow> int" where
  "maxIdleItemsLocked p =
     (let n = Idle (sp_conf p)
      in if n = 0 then defaultIdleItems else if n < 0 then 0 else n)"

text \<open>
  The loop of \<open>maybeOpenNewItems\<close>, \<open>k\<close> more rounds to go. The send on \<open>openerCh\<close> blocks, with
  the mutex held, when the buffer is full.
\<close>

fun slice_open_loop :: "nat \<Rightarrow> slice_pool \<Rightarrow> slice_pool outcome" where
  "slice_open_loop 0 p = Done p"
| "slice_open_loop (Suc k) p =
     (let p1 = p\<lparr>sp_active := sp_active p + 1\<rparr>
      in if sp_closed p1 then Done p1
         else if sp_opener p1 < opener_cap
         then slice_open_loop k (p1\<lparr>sp_opener := Suc (sp_opener p1)\<rparr>)
         else Blocked)"

definition maybeOpenNewItems :: "slice_pool \<Rightarrow> slice_pool outcome" where
  "maybeOpenNewItems p =
     (let numRequests = int (length (sp_requests p));
          numCanOpen = Active (sp_conf p) - sp_active p
      in slice_open_loop
           (nat (if 0 < Active (sp_conf p) \<and> numCanOpen < numRequests then numCanOpen
                 else numRequests)) p)"

definition slice_release :: "slice_pool \<Rightarrow> slice_pool outcome" where
  "slice_release p = maybeOpenNewItems (p\<lparr>sp_active := sp_active p - 1\<rparr>)"

text \<open>
  \<open>putItemLocked\<close>: the item is handed to the request with key \<open>k\<close> (any key the map iteration
  comes to first), stored, or not taken.
\<close>

datatype put_out = Refused | Handed chan item | Stored

definition slice_delete_request :: "req_key \<Rightarrow> slice_pool \<Rightarrow> slice_pool" where
  "slice_delete_request k p =
     p\<lparr>sp_requests := filter (\<lambda>r. fst r \<noteq> k) (sp_requests p)\<rparr>"

definition putItemLocked ::
  "time \<Rightarrow> conn \<Rightarrow> req_key \<Rightarrow> slice_pool \<Rightarrow> slice_pool \<times> put_out" where
  "putItemLocked now c k p =
     (if sp_closed p then (p, Refused)
      else if 0 < Active (sp_conf p) \<and> Active (sp_conf p) < sp_active p then (p, Refused)
      else
        let i = \<lparr>createdAt = now, item_c = c\<rparr>
        in case map_of (sp_requests p) k of
             Some ch \<Rightarrow> (slice_delete_request k p, Handed ch i)
           | None \<Rightarrow>
               if int (length (sp_free p)) < maxIdleItemsLocked p
               then (p\<lparr>sp_free := sp_free p @ [i]\<rparr>, Stored)
               else (p, Refused))"

text \<open>
  The key is a legal choice when it is in the map, or the map is empty and there is no
  choice to make.
\<close>

definition put_key_ok :: "req_key \<Rightarrow> slice_pool \<Rightarrow> bool" where
  "put_key_ok k p \<longleftrightarrow> sp_requests p = [] \<or> k \<in> fst ` set (sp_requests p)"

text \<open>\<open>Put\<close>: the connection is closed by \<open>Put\<close> itself exactly when the outcome is \<open>Refused\<close>.\<close>

definition slice_Put ::
  "time \<Rightarrow> conn \<Rightarrow> bool \<Rightarrow> req_key \<Rightarrow> slice_pool \<Rightarrow> (slice_pool \<times> put_out) outcome" where
  "slice_Put now c forceClose k p =
     (if forceClose then obind (slice_release p) (\<lambda>p1. Done (p1, Refused))
      else case putItemLocked now c k p of
        (p1, Refused) \<Rightarrow> Done (p1\<lparr>sp_active := sp_active p1 - 1\<rparr>, Refused)
      | (p1, out) \<Rightarrow> Done (p1, out))"

text \<open>\<open>openNewItem\<close> after \<open>New\<close> has returned \<open>made\<close>.\<close>

definition openNewItem ::
  "time \<Rightarrow> conn option \<Rightarrow> req_key \<Rightarrow> slice_pool \<Rightarrow> (slice_pool \<times> put_out) outcome" where
  "openNewItem now made k p =
     (case made of
        None \<Rightarrow> obind (slice_release p) (\<lambda>p1. Done (p1, Refused))
      | Some c \<Rightarrow>
          (case putItemLocked now c k p of
             (p1, Refused) \<Rightarrow> Done (p1\<lparr>sp_active := sp_active p1 - 1\<rparr>, Refused)
           | (p1, out) \<Rightarrow> Done (p1, out)))"

text \<open>How a critical section of \<open>Get\<close> ends.\<close>

datatype slice_get_out =
    SPop item                \<comment> \<open>took a free item\<close>
  | SDialing                 \<comment> \<open>counted a new item, goes on to call New\<close>
  | SRequested req_key chan  \<comment> \<open>registered a request, goes on to wait for it\<close>
  | SFailed pool_error

definition slice_no_free :: "slice_pool \<Rightarrow> slice_pool \<times> slice_get_out" where
  "slice_no_free p =
     (if 0 < Active (sp_conf p) \<and> Active (sp_conf p) \<le> sp_active p
      then if WaitTimeout (sp_conf p) = 0 \<and> \<not> Wait (sp_conf p)
           then (p, SFailed ErrPoolExhausted)
           else
             let req = sp_made p;
                 (p1, reqKey) = nextRequestKeyLocked (p\<lparr>sp_made := Suc req\<rparr>);
                 p2 = slice_delete_request reqKey p1
             in (p2\<lparr>sp_requests := (reqKey, req) # sp_requests p2\<rparr>, SRequested reqKey req)
      else (p\<lparr>sp_active := sp_active p + 1\<rparr>, SDialing))"

definition slice_scan :: "slice_pool \<Rightarrow> slice_pool \<times> slice_get_out" where
  "slice_scan p =
     (case sp_free p of
        i # rest \<Rightarrow> (p\<lparr>sp_free := rest\<rparr>, SPop i)
      | [] \<Rightarrow> slice_no_free p)"

definition slice_get_begin :: "slice_pool \<Rightarrow> slice_pool \<times> slice_get_out" where
  "slice_get_begin p = (if sp_closed p then (p, SFailed ErrPoolClosed) else slice_scan p)"

text \<open>
  After a request was answered with an expired item: the item is released and a new one is
  counted, whatever the limit says.
\<close>

definition slice_redial :: "slice_pool \<Rightarrow> slice_pool outcome" where
  "slice_redial p =
     obind (slice_release p) (\<lambda>p1. Done (p1\<lparr>sp_active := sp_active p1 + 1\<rparr>))"

text \<open>
  \<open>Close\<close>: the connections it closes, and the channels it closes (the map keeps them).
\<close>

definition slice_Close :: "slice_pool \<Rightarrow> slice_pool \<times> conn list \<times> chan list" where
  "slice_Close p =
     (if sp_closed p then (p, [], [])
      else (p\<lparr>sp_free := [], sp_closed := True, sp_cleaner_closed := (sp_cleaner p \<noteq> None)\<rparr>,
            map item_c (sp_free p), map snd (sp_requests p)))"

subsection \<open>The cleaner\<close>

text \<open>
  The loop of \<open>staleCleaner\<close> over \<open>freeItem\<close> at index \<open>i\<close>: a stale item is replaced by the last
  one and the slice is cut, so that the same index is looked at again.
\<close>

function slice_clean_loop ::
  "time \<Rightarrow> nat \<Rightarrow> item list \<Rightarrow> item list \<Rightarrow> item list \<times> item list" where
  "slice_clean_loop expiredSince i free closing =
     (if i < length free then
        let c = free ! i in
        if createdAt c < expiredSince
        then slice_clean_loop expiredSince i (butlast (free[i := last free])) (closing @ [c])
        else slice_clean_loop expiredSince (Suc i) free closing
      else (free, closing))"
  by pat_completeness auto
termination
  by (relation "measure (\<lambda>(e, i, free, closing). length free - i)") auto

declare slice_clean_loop.simps [simp del]

definition slice_clean_stop :: "slice_pool \<Rightarrow> bool" where
  "slice_clean_stop p = (sp_closed p \<or> IdleTimeout (sp_conf p) \<le> 0)"

definition slice_clean :: "time \<Rightarrow> slice_pool \<Rightarrow> slice_pool \<times> conn list" where
  "slice_clean now p =
     (let (free, closing) = slice_clean_loop (now - IdleTimeout (sp_conf p)) 0 (sp_free p) []
      in (p\<lparr>sp_free := free, sp_active := sp_active p - int (length closing)\<rparr>,
          map item_c closing))"

subsection \<open>Reconfiguration\<close>

definition slice_lock :: "slice_pool \<Rightarrow> slice_pool outcome" where
  "slice_lock p = (if sp_mu p then Blocked else Done (p\<lparr>sp_mu := True\<rparr>))"

definition slice_unlock :: "slice_pool \<Rightarrow> slice_pool" where
  "slice_unlock p = p\<lparr>sp_mu := False\<rparr>"

definition set_idle_conf :: "int \<Rightarrow> slice_pool \<Rightarrow> slice_pool" where
  "set_idle_conf n p = p\<lparr>sp_conf := (sp_conf p)\<lparr>Idle := n\<rparr>\<rparr>"

text \<open>\<open>setIdle\<close> between its lock and its unlock, and as a whole.\<close>

definition slice_setIdle_cs :: "int \<Rightarrow> slice_pool \<Rightarrow> slice_pool \<times> conn list" where
  "slice_setIdle_cs n p =
     (let p1 = (if 0 < n then set_idle_conf n p else set_idle_conf (-1) p);
          p2 = (if 0 < Active (sp_conf p1) \<and> Active (sp_conf p1) < maxIdleItemsLocked p1
                then set_idle_conf (Active (sp_conf p1)) p1 else p1);
          maxIdle = nat (maxIdleItemsLocked p2)
      in if maxIdle < length (sp_free p2)
         then (p2\<lparr>sp_free := take maxIdle (sp_free p2)\<rparr>, map item_c (drop maxIdle (sp_free p2)))
         else (p2, []))"

definition slice_setIdle :: "int \<Rightarrow> slice_pool \<Rightarrow> (slice_pool \<times> conn list) outcome" where
  "slice_setIdle n p =
     obind (slice_lock p) (\<lambda>p1.
       let (p2, closing) = slice_setIdle_cs n p1 in Done (slice_unlock p2, closing))"

definition slice_setActive :: "int \<Rightarrow> slice_pool \<Rightarrow> (slice_pool \<times> conn list) outcome" where
  "slice_setActive n p =
     obind (slice_lock p) (\<lambda>p1.
       let p2 = p1\<lparr>sp_conf := (sp_conf p1)\<lparr>Active := (if n < 0 then 0 else n)\<rparr>\<rparr>;
           syncIdle = (0 < Active (sp_conf p2) \<and> Active (sp_conf p2) < maxIdleItemsLocked p2);
           p3 = slice_unlock p2
       in if syncIdle then slice_setIdle n p3 else Done (p3, []))"

definition slice_Reload :: "config \<Rightarrow> slice_pool \<Rightarrow> (slice_pool \<times> bool) outcome" where
  "slice_Reload c p =
     obind (slice_lock p) (\<lambda>p1.
     obind (slice_startCleanerLocked (IdleTimeout c) p1) (\<lambda>(p2, started).
     obind (slice_setActive (Active c) p2) (\<lambda>(p3, closed1).
     obind (slice_setIdle (Idle c) p3) (\<lambda>(p4, closed2).
       Done (slice_unlock (p4\<lparr>sp_conf := c\<rparr>), started)))))"

section \<open>What the operations do\<close>

text \<open>How many signals \<open>maybeOpenNewItems\<close> sends.\<close>

definition slice_grant :: "slice_pool \<Rightarrow> nat" where
  "slice_grant p =
     nat (if 0 < Active (sp_conf p) \<and> Active (sp_conf p) - sp_active p < int (length (sp_requests p))
          then Active (sp_conf p) - sp_active p else int (length (sp_requests p)))"

lemma maybeOpenNewItems_grant: "maybeOpenNewItems p = slice_open_loop (slice_grant p) p"
  by (simp add: maybeOpenNewItems_def slice_grant_def Let_def)

lemma slice_open_loop_open:
  "\<not> sp_closed p \<Longrightarrow> slice_open_loop k p =
     (if k = 0 \<or> sp_opener p + k \<le> opener_cap
      then Done (p\<lparr>sp_active := sp_active p + int k, sp_opener := sp_opener p + k\<rparr>) else Blocked)"
  by (induction k arbitrary: p) (auto simp: Let_def)

lemma slice_open_loop_closed:
  "sp_closed p \<Longrightarrow> slice_open_loop k p =
     Done (p\<lparr>sp_active := sp_active p + (if k = 0 then 0 else 1)\<rparr>)"
  by (cases k) (simp_all add: Let_def)

lemma slice_open_loop_Done:
  assumes "slice_open_loop k p = Done q"
  shows "q = p\<lparr>sp_active := sp_active p + int (if sp_closed p then min k 1 else k),
    sp_opener := sp_opener p + (if sp_closed p then 0 else k)\<rparr>"
  using assms by (cases "sp_closed p")
    (auto simp: slice_open_loop_open slice_open_loop_closed min_def split: if_splits)

text \<open>Everything a release can change, and by how much.\<close>

lemma slice_release_Done:
  assumes "slice_release p = Done q"
  defines "k \<equiv> slice_grant (p\<lparr>sp_active := sp_active p - 1\<rparr>)"
  shows "q = p\<lparr>sp_active := sp_active p - 1 + int (if sp_closed p then min k 1 else k),
    sp_opener := sp_opener p + (if sp_closed p then 0 else k)\<rparr>"
  using assms slice_open_loop_Done [of k "p\<lparr>sp_active := sp_active p - 1\<rparr>" q]
  by (simp add: slice_release_def maybeOpenNewItems_grant)

lemma slice_release_no_requests:
  "sp_requests p = [] \<Longrightarrow> slice_release p = Done (p\<lparr>sp_active := sp_active p - 1\<rparr>)"
  by (simp add: slice_release_def maybeOpenNewItems_def)

lemma slice_release_fields:
  assumes "slice_release p = Done q"
  shows "sp_conf q = sp_conf p" "sp_free q = sp_free p" "sp_requests q = sp_requests p"
    "sp_closed q = sp_closed p" "sp_next q = sp_next p" "sp_made q = sp_made p"
    "sp_cleaner q = sp_cleaner p" "sp_mu q = sp_mu p"
  by (simp_all add: slice_release_Done [OF assms])

subsection \<open>The cleaner\<close>

lemma mset_swap_out:
  assumes "i < length xs"
  shows "mset xs = add_mset (xs ! i) (mset (butlast (xs[i := last xs])))"
proof (cases "Suc i = length xs")
  case True
  then have "xs[i := last xs] = xs" and "xs ! i = last xs"
    by (metis last_conv_nth length_0_conv nat.simps(3) diff_Suc_1 list_update_id)
      (metis True assms diff_Suc_1 last_conv_nth length_greater_0_conv gr_implies_not0 list.size(3))
  with assms show ?thesis by (metis butlast_last length_greater_0_conv gr_implies_not0 not_gr_zero)
next
  case False
  then have ne: "xs \<noteq> []" and lt: "i < length (butlast xs)" using assms by auto
  have xs: "xs = butlast xs @ [last xs]" using ne by simp
  have "butlast (xs[i := last xs]) = (butlast xs)[i := last xs]"
    using lt by (metis butlast_snoc list_update_append1 xs)
  moreover have "xs ! i = butlast xs ! i" using lt by (simp add: nth_butlast)
  moreover have "mset (butlast xs) = add_mset (butlast xs ! i) (mset (butlast xs) - {#butlast xs ! i#})"
    using lt by simp
  ultimately show ?thesis
    using butlast_last [OF ne] lt by (simp add: mset_update add_mset_commute)
qed

lemma nth_swap_out:
  assumes "j < i" and "i < length xs"
  shows "butlast (xs[i := last xs]) ! j = xs ! j"
  using assms by (simp add: nth_butlast)

lemma slice_clean_loop_split:
  assumes "slice_clean_loop e i xs closing = (ys, cs)"
    and "\<forall>j<i. j < length xs \<longrightarrow> \<not> createdAt (xs ! j) < e"
  shows "mset ys = filter_mset (\<lambda>c. \<not> createdAt c < e) (mset xs) \<and>
    mset cs = mset closing + filter_mset (\<lambda>c. createdAt c < e) (mset xs)"
  using assms
proof (induction e i xs closing rule: slice_clean_loop.induct)
  case (1 e i xs closing)
  note eq = "1.prems"(1) [unfolded slice_clean_loop.simps [of e i xs closing]]
  show ?case
  proof (cases "i < length xs")
    case False
    then have "\<forall>c \<in> set xs. \<not> createdAt c < e"
      using "1.prems"(2) by (metis in_set_conv_nth not_le_imp_less order_less_le_trans)
    with False eq show ?thesis by (simp add: mset_filter [symmetric] del: mset_filter)
  next
    case True
    show ?thesis
    proof (cases "createdAt (xs ! i) < e")
      case stale: True
      let ?zs = "butlast (xs[i := last xs])"
      have "slice_clean_loop e i ?zs (closing @ [xs ! i]) = (ys, cs)"
        using eq True stale by simp
      moreover have "\<forall>j<i. j < length ?zs \<longrightarrow> \<not> createdAt (?zs ! j) < e"
        using "1.prems"(2) True by (simp add: nth_swap_out del: butlast_list_update)
      ultimately have "mset ys = filter_mset (\<lambda>c. \<not> createdAt c < e) (mset ?zs) \<and>
          mset cs = mset (closing @ [xs ! i]) + filter_mset (\<lambda>c. createdAt c < e) (mset ?zs)"
        using "1.IH"(1) [OF True refl stale] by blast
      then show ?thesis using stale by (simp add: mset_swap_out [OF True])
    next
      case fresh: False
      have "slice_clean_loop e (Suc i) xs closing = (ys, cs)" using eq True fresh by simp
      moreover have "\<forall>j<Suc i. j < length xs \<longrightarrow> \<not> createdAt (xs ! j) < e"
        using "1.prems"(2) fresh by (simp add: less_Suc_eq)
      ultimately show ?thesis using "1.IH"(2) [OF True refl fresh] by blast
    qed
  qed
qed

text \<open>
  The cleaner's swap-with-the-last loop is a filter: it closes exactly the free items made
  before the deadline, keeps exactly the others (in some order) and lowers the count by the
  number it closed, so that free items and count stay in step.
\<close>

theorem slice_clean_filters:
  assumes "slice_clean now p = (q, closed)"
  defines "stale \<equiv> \<lambda>i. createdAt i < now - IdleTimeout (sp_conf p)"
  shows "mset (sp_free q) = filter_mset (\<lambda>i. \<not> stale i) (mset (sp_free p)) \<and>
    mset closed = image_mset item_c (filter_mset stale (mset (sp_free p))) \<and>
    sp_active q - int (length (sp_free q)) = sp_active p - int (length (sp_free p))"
proof -
  obtain ys cs where loop:
    "slice_clean_loop (now - IdleTimeout (sp_conf p)) 0 (sp_free p) [] = (ys, cs)" by fastforce
  then have q: "sp_free q = ys" "sp_active q = sp_active p - int (length cs)" "closed = map item_c cs"
    using assms(1) by (auto simp: slice_clean_def)
  have split: "mset ys = filter_mset (\<lambda>i. \<not> stale i) (mset (sp_free p))"
    "mset cs = filter_mset stale (mset (sp_free p))"
    using slice_clean_loop_split [OF loop] by (simp_all add: stale_def)
  have "mset (sp_free p) = mset cs + mset ys"
    by (simp only: split multiset_partition [of "mset (sp_free p)" stale, symmetric])
  then have "length (sp_free p) = length cs + length ys"
    by (metis size_mset size_union)
  with split q show ?thesis by simp
qed

definition slice_example :: "int \<Rightarrow> item list \<Rightarrow> slice_pool" where
  "slice_example n is =
     \<lparr>sp_conf = \<lparr>Active = 4, Idle = 4, IdleTimeout = 10, WaitTimeout = 0, Wait = False\<rparr>,
      sp_mu = False, sp_free = is, sp_requests = [], sp_next = 0, sp_made = 0, sp_active = n,
      sp_opener = 0, sp_closed = False, sp_cleaner = Some 0, sp_cleaner_closed = False\<rparr>"

theorem slice_clean_filters_witness:
  "\<exists>q. slice_clean 30 (slice_example 3 [\<lparr>createdAt = 5, item_c = 1\<rparr>, \<lparr>createdAt = 9, item_c = 2\<rparr>,
      \<lparr>createdAt = 25, item_c = 3\<rparr>]) = (q, [1, 2]) \<and> mset (sp_free q) = {#\<lparr>createdAt = 25, item_c = 3\<rparr>#}"
proof -
  let ?p = "slice_example 3 [\<lparr>createdAt = 5, item_c = 1\<rparr>, \<lparr>createdAt = 9, item_c = 2\<rparr>,
      \<lparr>createdAt = 25, item_c = 3\<rparr>]"
  obtain q cs where q: "slice_clean 30 ?p = (q, cs)" by fastforce
  then have "cs = [1, 2]"
    by (simp add: slice_clean_def slice_example_def slice_clean_loop.simps)
  with q slice_clean_filters [OF q] show ?thesis by (simp add: slice_example_def)
qed

subsection \<open>Reconfiguration\<close>

text \<open>
  \<open>setIdle\<close> cuts the free list down to the new maximum, keeping the oldest items, and closes
  the rest; but it leaves \<open>active\<close> alone, so that every connection it closes stays counted.
\<close>

theorem slice_setIdle_effect:
  assumes "slice_setIdle_cs n p = (q, closed)"
  shows "int (length (sp_free q)) \<le> max 0 (maxIdleItemsLocked q) \<and>
    (0 < Active (sp_conf p) \<longrightarrow> maxIdleItemsLocked q \<le> Active (sp_conf p)) \<and>
    sp_free p = sp_free q @ drop (length (sp_free q)) (sp_free p) \<and>
    closed = map item_c (drop (length (sp_free q)) (sp_free p)) \<and>
    sp_active q = sp_active p"
proof -
  define p1 where "p1 = (if 0 < n then set_idle_conf n p else set_idle_conf (-1) p)"
  define p2 where "p2 = (if 0 < Active (sp_conf p1) \<and> Active (sp_conf p1) < maxIdleItemsLocked p1
    then set_idle_conf (Active (sp_conf p1)) p1 else p1)"
  have same: "sp_free p2 = sp_free p" "sp_active p2 = sp_active p"
    "Active (sp_conf p2) = Active (sp_conf p)"
    by (simp_all add: p2_def p1_def set_idle_conf_def)
  have bound: "0 < Active (sp_conf p) \<longrightarrow> maxIdleItemsLocked p2 \<le> Active (sp_conf p)"
    by (auto simp: p2_def p1_def set_idle_conf_def maxIdleItemsLocked_def Let_def)
  have "(q, closed) = (let maxIdle = nat (maxIdleItemsLocked p2)
      in if maxIdle < length (sp_free p2)
         then (p2\<lparr>sp_free := take maxIdle (sp_free p2)\<rparr>, map item_c (drop maxIdle (sp_free p2)))
         else (p2, []))"
    using assms unfolding slice_setIdle_cs_def p1_def p2_def Let_def by simp
  moreover have "maxIdleItemsLocked (p2\<lparr>sp_free := xs\<rparr>) = maxIdleItemsLocked p2" for xs
    by (simp add: maxIdleItemsLocked_def)
  ultimately show ?thesis
    using same bound by (auto simp: Let_def min_def split: if_splits)
qed

theorem slice_setIdle_effect_witness:
  "\<exists>q. slice_setIdle_cs 1 (slice_example 2 [\<lparr>createdAt = 5, item_c = 1\<rparr>, \<lparr>createdAt = 9, item_c = 2\<rparr>])
      = (q, [2]) \<and> sp_active q = 2 \<and> length (sp_free q) \<le> 1"
proof -
  let ?p = "slice_example 2 [\<lparr>createdAt = 5, item_c = 1\<rparr>, \<lparr>createdAt = 9, item_c = 2\<rparr>]"
  obtain q cs where q: "slice_setIdle_cs 1 ?p = (q, cs)" by fastforce
  then have "cs = [2]" and "maxIdleItemsLocked q = 1"
    by (auto simp: slice_setIdle_cs_def slice_example_def set_idle_conf_def maxIdleItemsLocked_def
        Let_def)
  with q slice_setIdle_effect [OF q] show ?thesis by (simp add: slice_example_def)
qed

text \<open>
  C16. \<open>Reload\<close> never returns: it calls \<open>setActive\<close> while it holds the mutex that
  \<open>setActive\<close> locks, and a Go mutex is not reentrant. (After \<open>Close\<close> it may panic before
  that, in the send to the closed cleaner channel.)
\<close>

theorem slice_Reload_deadlocks:
  "slice_Reload c p = Blocked \<or> slice_Reload c p = Panic ''send on closed channel''"
proof (cases "sp_mu p")
  case True
  then show ?thesis by (simp add: slice_Reload_def slice_lock_def)
next
  case False
  let ?p1 = "p\<lparr>sp_mu := True\<rparr>"
  have "sp_mu p2" if "slice_startCleanerLocked d ?p1 = Done (p2, b)" for d p2 b
    using that by (auto simp: slice_startCleanerLocked_def split: if_splits option.splits)
  then have "slice_setActive n p2 = Blocked" if "slice_startCleanerLocked d ?p1 = Done (p2, b)"
    for d n p2 b
    using that by (simp add: slice_setActive_def slice_lock_def)
  moreover have "slice_startCleanerLocked d ?p1 \<noteq> Blocked" for d
    by (simp add: slice_startCleanerLocked_def split: option.split)
  moreover have "m = ''send on closed channel''" if "slice_startCleanerLocked d ?p1 = Panic m" for d m
    using that by (simp add: slice_startCleanerLocked_def split: if_splits option.splits)
  ultimately show ?thesis
    using False
    by (cases "slice_startCleanerLocked (IdleTimeout c) ?p1")
      (auto simp: slice_Reload_def slice_lock_def)
qed

section \<open>Uninterrupted runs of Get and Put\<close>

text \<open>
  \<open>Get\<close> from the head of its loop, lock held, with the idle timeout \<open>d\<close> it read when it
  started; no other goroutine moves, the clock stands at \<open>now\<close>, \<open>made\<close> is what \<open>New\<close> returns.
\<close>

function slice_get_from ::
  "time \<Rightarrow> conn option \<Rightarrow> int \<Rightarrow> slice_pool \<Rightarrow> (slice_pool \<times> get_result \<times> conn list) outcome" where
  "slice_get_from now made d p =
     (case slice_scan p of
        (p1, SFailed e) \<Rightarrow> Done (p1, Some (Inl e), [])
      | (p1, SRequested k ch) \<Rightarrow> Done (p1, None, [])
      | (p1, SDialing) \<Rightarrow>
          (case made of
             Some c \<Rightarrow> Done (p1, Some (Inr c), [])
           | None \<Rightarrow> obind (slice_release p1) (\<lambda>p2. Done (p2, Some (Inl ErrNew), [])))
      | (p1, SPop i) \<Rightarrow>
          if expired i d now then
            (case slice_release p1 of
               Done p2 \<Rightarrow> obind (slice_get_from now made d p2)
                            (\<lambda>(p3, r, cs). Done (p3, r, item_c i # cs))
             | Panic m \<Rightarrow> Panic m
             | Blocked \<Rightarrow> Blocked)
          else Done (p1, Some (Inr (item_c i)), []))"
  by pat_completeness auto
termination
proof (relation "measure (\<lambda>(now, made, d, p). length (sp_free p))", simp, goal_cases)
  case (1 now made d p)
  then show ?case
    by (auto simp: slice_scan_def slice_no_free_def Let_def nextRequestKeyLocked_def
        slice_delete_request_def split: list.splits if_splits dest!: slice_release_fields(2))
qed

declare slice_get_from.simps [simp del]

definition slice_Get ::
  "time \<Rightarrow> conn option \<Rightarrow> slice_pool \<Rightarrow> (slice_pool \<times> get_result \<times> conn list) outcome" where
  "slice_Get now made p =
     (if sp_closed p then Done (p, Some (Inl ErrPoolClosed), [])
      else slice_get_from now made (IdleTimeout (sp_conf p)) p)"

text \<open>The reference: expired items in front are dropped, the first good one is handed out.\<close>

definition slice_get_ref ::
  "time \<Rightarrow> conn option \<Rightarrow> int \<Rightarrow> slice_pool \<Rightarrow> slice_pool \<times> get_result \<times> conn list" where
  "slice_get_ref now made d p =
     (let dead = takeWhile (\<lambda>i. expired i d now) (sp_free p);
          q = p\<lparr>sp_active := sp_active p - int (length dead)\<rparr>
      in case dropWhile (\<lambda>i. expired i d now) (sp_free p) of
           i # rest \<Rightarrow> (q\<lparr>sp_free := rest\<rparr>, Some (Inr (item_c i)), map item_c dead)
         | [] \<Rightarrow>
             (case slice_no_free (q\<lparr>sp_free := []\<rparr>) of
                (p1, SFailed e) \<Rightarrow> (p1, Some (Inl e), map item_c dead)
              | (p1, SDialing) \<Rightarrow>
                  (case made of
                     Some c \<Rightarrow> (p1, Some (Inr c), map item_c dead)
                   | None \<Rightarrow> (p1\<lparr>sp_active := sp_active p1 - 1\<rparr>, Some (Inl ErrNew), map item_c dead))
              | (p1, _) \<Rightarrow> (p1, None, map item_c dead)))"

lemma slice_no_free_cases:
  assumes "slice_no_free p = (q, out)"
  shows "\<And>i. out \<noteq> SPop i" and "out = SDialing \<Longrightarrow> sp_requests q = sp_requests p"
  using assms by (auto simp: slice_no_free_def Let_def split: if_splits prod.splits)

lemma slice_get_ref_expired:
  assumes free: "sp_free p = i # rest" and ex: "expired i d now"
  shows "slice_get_ref now made d p =
    (let (p2, r, cs) = slice_get_ref now made d (p\<lparr>sp_free := rest, sp_active := sp_active p - 1\<rparr>)
     in (p2, r, item_c i # cs))"
proof (cases "dropWhile (\<lambda>i. expired i d now) rest")
  case Nil
  obtain p1 out where "slice_no_free (p\<lparr>sp_active := sp_active p
      - 1 - int (length (takeWhile (\<lambda>i. expired i d now) rest)), sp_free := []\<rparr>) = (p1, out)"
    by fastforce
  with Nil free ex slice_no_free_cases(1) [OF this] show ?thesis
    by (cases out) (simp_all add: slice_get_ref_def Let_def algebra_simps split: option.split
        del: dropWhile_eq_Nil_conv)
next
  case (Cons j js)
  with free ex show ?thesis by (simp add: slice_get_ref_def Let_def algebra_simps)
qed

lemma slice_get_from_ref:
  "sp_requests p = [] \<Longrightarrow> slice_get_from now made d p = Done (slice_get_ref now made d p)"
proof (induction "sp_free p" arbitrary: p)
  case Nil
  then have free: "sp_free p = []" by simp
  then have p: "p\<lparr>sp_free := []\<rparr> = p" by simp
  have scan: "slice_scan p = slice_no_free p" using free by (simp add: slice_scan_def)
  obtain p1 out where nf: "slice_no_free p = (p1, out)" by fastforce
  have "\<forall>i. out \<noteq> SPop i" using slice_no_free_cases(1) [OF nf] by simp
  with Nil.prems slice_no_free_cases(2) [OF nf] show ?case
    by (cases out) (simp_all add: slice_get_from.simps [of now made d p] scan nf free p
        slice_get_ref_def slice_release_no_requests split: option.split)
next
  case (Cons i rest)
  then have free: "sp_free p = i # rest" by simp
  then have scan: "slice_scan p = (p\<lparr>sp_free := rest\<rparr>, SPop i)" by (simp add: slice_scan_def)
  show ?case
  proof (cases "expired i d now")
    case False
    then show ?thesis
      by (simp add: slice_get_from.simps [of now made d p] scan free slice_get_ref_def)
  next
    case True
    let ?q = "p\<lparr>sp_free := rest, sp_active := sp_active p - 1\<rparr>"
    have "slice_get_from now made d ?q = Done (slice_get_ref now made d ?q)"
      using Cons.hyps(1) [of ?q] Cons.prems by simp
    with True show ?thesis
      by (simp add: slice_get_from.simps [of now made d p] scan slice_release_no_requests Cons.prems
          slice_get_ref_expired [OF free] split: prod.split)
  qed
qed

text \<open>
  C15. On an open pool in which no request is pending, \<open>Get\<close> returns without blocking and
  computes the reference: it closes and uncounts exactly the expired items in front, hands out
  the first good one, and otherwise dials, fails or registers a request as the limit says.
\<close>

theorem slice_get_matches_ref:
  assumes "\<not> sp_closed p" and "sp_requests p = []"
  shows "slice_Get now made p = Done (slice_get_ref now made (IdleTimeout (sp_conf p)) p)"
  using assms by (simp add: slice_Get_def slice_get_from_ref)

theorem slice_get_matches_ref_witness:
  "slice_Get 30 (Some 9) (slice_example 2 [\<lparr>createdAt = 5, item_c = 1\<rparr>, \<lparr>createdAt = 25, item_c = 2\<rparr>])
     = Done (slice_example 1 [], Some (Inr 2), [1])"
  by (subst slice_get_matches_ref) (simp_all add: slice_example_def slice_get_ref_def expired_def)

text \<open>
  The pool is a queue: with room for one more item and nobody waiting, \<open>Put\<close> followed by
  \<open>Get\<close> hands out the item that has been free longest, the one just put when there was no
  other, and leaves the count as it was.
\<close>

theorem slice_put_get_fifo:
  assumes "\<not> sp_closed p" and "sp_requests p = []"
    and "Active (sp_conf p) \<le> 0 \<or> sp_active p \<le> Active (sp_conf p)"
    and "int (length (sp_free p)) < maxIdleItemsLocked p"
    and "\<forall>i \<in> set (sp_free p @ [\<lparr>createdAt = now, item_c = c\<rparr>]).
      \<not> expired i (IdleTimeout (sp_conf p)) now'"
  shows "\<exists>p1 p2. slice_Put now c False k p = Done (p1, Stored) \<and>
    slice_Get now' made p1 =
      Done (p2, Some (Inr (item_c (hd (sp_free p @ [\<lparr>createdAt = now, item_c = c\<rparr>])))), []) \<and>
    sp_free p2 = tl (sp_free p @ [\<lparr>createdAt = now, item_c = c\<rparr>]) \<and> sp_active p2 = sp_active p"
proof -
  let ?is = "sp_free p @ [\<lparr>createdAt = now, item_c = c\<rparr>]"
  let ?p1 = "p\<lparr>sp_free := ?is\<rparr>"
  have put: "slice_Put now c False k p = Done (?p1, Stored)"
    using assms(1-4) by (auto simp: slice_Put_def putItemLocked_def Let_def)
  obtain i rest where items: "?is = i # rest" by (cases ?is) auto
  with assms(5) have "\<not> expired i (IdleTimeout (sp_conf p)) now'" by (metis list.set_intros(1))
  then have "slice_Get now' made ?p1 = Done (?p1\<lparr>sp_free := rest\<rparr>, Some (Inr (item_c i)), [])"
    using assms(1,2) items by (simp add: slice_Get_def slice_get_from_ref slice_get_ref_def)
  with put items show ?thesis by auto
qed

theorem slice_put_get_fifo_witness:
  "\<exists>p1 p2. slice_Put 7 3 False 0 (slice_example 2 [\<lparr>createdAt = 6, item_c = 1\<rparr>]) = Done (p1, Stored) \<and>
    slice_Get 12 None p1 = Done (p2, Some (Inr 1), []) \<and>
    sp_free p2 = [\<lparr>createdAt = 7, item_c = 3\<rparr>] \<and> sp_active p2 = 2"
  using slice_put_get_fifo [of "slice_example 2 [\<lparr>createdAt = 6, item_c = 1\<rparr>]" 7 3 12 0 None]
  by (simp add: slice_example_def maxIdleItemsLocked_def expired_def)

end
