(* ===== verification/Slice_Pool_System.thy ===== *)
theory Slice_Pool_System
  imports Slice_Pool
begin

text \<open>
  The slice pool as a concurrent system: any number of goroutines inside \<open>Get\<close>, \<open>Put\<close> and
  \<open>Close\<close>, the opener and the cleaner, and the clients that hold connections. A step is one
  critical section of Slice_Pool, or one action between two of them; a critical section that
  would block with the mutex held is not enabled. \<open>Reload\<close> is left out: it never returns.
\<close>

section \<open>The system\<close>

text \<open>
  Where a goroutine stands while it does not hold the lock; \<open>d\<close> is the idle timeout that
  \<open>Get\<close> read when it started.
\<close>

datatype slice_pc =
    SPopped item int          \<comment> \<open>took a free item and has not checked its age\<close>
  | SReap int                 \<comment> \<open>closed an expired free item, has not released it\<close>
  | SWait req_key chan int    \<comment> \<open>in the select on the context and the request channel\<close>
  | SLeaving req_key          \<comment> \<open>saw the context done, has not deleted the request\<close>
  | SReapReq                  \<comment> \<open>closed an expired item it was sent, has not released it\<close>
  | SDial                     \<comment> \<open>is calling New\<close>
  | SDialErr                  \<comment> \<open>New failed, the count is not corrected yet\<close>
  | SStop                     \<comment> \<open>Close has unlocked and not yet called stop\<close>

datatype slice_opener = OIdle | OOpening | OExit

datatype slice_cleaner = SNoCleaner | SCSelect | SCClosing "conn list" | SCExit

text \<open>
  \<open>s_inbox\<close> are the items buffered in request channels, \<open>s_hung\<close> the channels that \<open>Close\<close> has
  closed; \<open>s_lent\<close>, \<open>s_shut\<close> and \<open>s_fresh\<close> are as for the list pool.
\<close>

record slice_sys =
  s_pool :: slice_pool
  s_calls :: "slice_pc multiset"
  s_opener :: slice_opener
  s_stopped :: bool
  s_cleaner :: slice_cleaner
  s_inbox :: "(chan \<times> item) multiset"
  s_hung :: "chan list"
  s_lent :: "conn multiset"
  s_shut :: "conn multiset"
  s_fresh :: nat

datatype slice_ev =
    SGet
  | STake item int time              \<comment> \<open>the free item is good and is returned\<close>
  | SExpire item int time            \<comment> \<open>the free item is too old and is closed\<close>
  | SRescan int                      \<comment> \<open>relock, release, look at the free list again\<close>
  | SRecvTake req_key chan int item time     \<comment> \<open>a waiter receives a good item\<close>
  | SRecvExpired req_key chan int item time  \<comment> \<open>a waiter receives an item too old\<close>
  | SRecvClosed req_key chan int     \<comment> \<open>a waiter finds its channel closed\<close>
  | SRedial                          \<comment> \<open>release the expired item, count a new one\<close>
  | SCtxDone req_key chan int
  | SLeave req_key
  | SDialOk | SDialFail | SDialUndo
  | SPut conn bool req_key time
  | SClose | SStopCall
  | SOpenerTake | SOpenerOk req_key time | SOpenerFail | SOpenerStop
  | SClean time                      \<comment> \<open>the cleaner's timer fires\<close>
  | SPoke time                       \<comment> \<open>the cleaner reads its channel\<close>
  | SCleanClose conn "conn list"

definition s_leave :: "slice_pc \<Rightarrow> slice_sys \<Rightarrow> slice_sys" where
  "s_leave pc s = s\<lparr>s_calls := s_calls s - {#pc#}\<rparr>"

definition s_enter :: "slice_pc \<Rightarrow> slice_sys \<Rightarrow> slice_sys" where
  "s_enter pc s = s\<lparr>s_calls := add_mset pc (s_calls s)\<rparr>"

definition s_lend :: "conn \<Rightarrow> slice_sys \<Rightarrow> slice_sys" where
  "s_lend c s = s\<lparr>s_lent := add_mset c (s_lent s)\<rparr>"

definition s_shut_conn :: "conn \<Rightarrow> slice_sys \<Rightarrow> slice_sys" where
  "s_shut_conn c s = s\<lparr>s_shut := add_mset c (s_shut s)\<rparr>"

definition s_return :: "conn \<Rightarrow> slice_sys \<Rightarrow> slice_sys" where
  "s_return c s = s\<lparr>s_lent := s_lent s - {#c#}\<rparr>"

definition s_receive :: "chan \<Rightarrow> item \<Rightarrow> slice_sys \<Rightarrow> slice_sys" where
  "s_receive ch i s = s\<lparr>s_inbox := s_inbox s - {#(ch, i)#}\<rparr>"

text \<open>\<open>Get\<close> unlocks: where its critical section says it goes on.\<close>

definition s_settle :: "int \<Rightarrow> slice_pool \<times> slice_get_out \<Rightarrow> slice_sys \<Rightarrow> slice_sys" where
  "s_settle d po s =
     (let s1 = s\<lparr>s_pool := fst po\<rparr>
      in case snd po of
           SPop i \<Rightarrow> s_enter (SPopped i d) s1
         | SDialing \<Rightarrow> s_enter SDial s1
         | SRequested k ch \<Rightarrow> s_enter (SWait k ch d) s1
         | SFailed e \<Rightarrow> s1)"

text \<open>A release, made by a goroutine that holds the lock; blocking disables the step.\<close>

definition s_released ::
  "slice_pool outcome \<Rightarrow> (slice_pool \<Rightarrow> slice_sys) \<Rightarrow> slice_sys option" where
  "s_released m f = (case m of Done p \<Rightarrow> Some (f p) | _ \<Rightarrow> None)"

text \<open>
  What becomes of a connection given to \<open>putItemLocked\<close>: it is closed under the lock, sent
  to a request channel, whose buffer of one must be empty, or stored.
\<close>

definition s_place ::
  "conn \<Rightarrow> (slice_pool \<times> put_out) outcome \<Rightarrow> slice_sys \<Rightarrow> slice_sys option" where
  "s_place c m s =
     (case m of
        Done (p, Refused) \<Rightarrow> Some (s_shut_conn c (s\<lparr>s_pool := p\<rparr>))
      | Done (p, Handed ch i) \<Rightarrow>
          if ch \<in># image_mset fst (s_inbox s) then None
          else Some (s\<lparr>s_pool := p, s_inbox := add_mset (ch, i) (s_inbox s)\<rparr>)
      | Done (p, Stored) \<Rightarrow> Some (s\<lparr>s_pool := p\<rparr>)
      | _ \<Rightarrow> None)"

definition s_clean_wake :: "time \<Rightarrow> slice_sys \<Rightarrow> slice_sys" where
  "s_clean_wake now s =
     (if slice_clean_stop (s_pool s) then s\<lparr>s_cleaner := SCExit\<rparr>
      else let (p, closing) = slice_clean now (s_pool s)
           in s\<lparr>s_pool := p,
               s_cleaner := (if closing = [] then SCSelect else SCClosing closing)\<rparr>)"

fun slice_step :: "slice_sys \<Rightarrow> slice_ev \<Rightarrow> slice_sys option" where
  "slice_step s SGet =
     Some (s_settle (IdleTimeout (sp_conf (s_pool s))) (slice_get_begin (s_pool s)) s)"
| "slice_step s (STake i d now) =
     (if SPopped i d \<in># s_calls s \<and> \<not> expired i d now
      then Some (s_lend (item_c i) (s_leave (SPopped i d) s)) else None)"
| "slice_step s (SExpire i d now) =
     (if SPopped i d \<in># s_calls s \<and> expired i d now
      then Some (s_shut_conn (item_c i) (s_enter (SReap d) (s_leave (SPopped i d) s))) else None)"
| "slice_step s (SRescan d) =
     (if SReap d \<in># s_calls s
      then s_released (slice_release (s_pool s))
             (\<lambda>p. s_settle d (slice_scan p) (s_leave (SReap d) s))
      else None)"
| "slice_step s (SRecvTake k ch d i now) =
     (if SWait k ch d \<in># s_calls s \<and> (ch, i) \<in># s_inbox s \<and> \<not> expired i d now
      then Some (s_lend (item_c i) (s_receive ch i (s_leave (SWait k ch d) s))) else None)"
| "slice_step s (SRecvExpired k ch d i now) =
     (if SWait k ch d \<in># s_calls s \<and> (ch, i) \<in># s_inbox s \<and> expired i d now
      then Some (s_shut_conn (item_c i)
             (s_enter SReapReq (s_receive ch i (s_leave (SWait k ch d) s)))) else None)"
| "slice_step s (SRecvClosed k ch d) =
     (if SWait k ch d \<in># s_calls s \<and> ch \<in> set (s_hung s) \<and> ch \<notin># image_mset fst (s_inbox s)
      then Some (s_leave (SWait k ch d) s) else None)"
| "slice_step s SRedial =
     (if SReapReq \<in># s_calls s
      then s_released (slice_redial (s_pool s))
             (\<lambda>p. s_enter SDial ((s_leave SReapReq s)\<lparr>s_pool := p\<rparr>))
      else None)"
| "slice_step s (SCtxDone k ch d) =
     (if SWait k ch d \<in># s_calls s
      then Some (s_enter (SLeaving k) (s_leave (SWait k ch d) s)) else None)"
| "slice_step s (SLeave k) =
     (if SLeaving k \<in># s_calls s
      then Some ((s_leave (SLeaving k) s)\<lparr>s_pool := slice_delete_request k (s_pool s)\<rparr>)
      else None)"
| "slice_step s SDialOk =
     (if SDial \<in># s_calls s
      then Some (s_lend (s_fresh s) ((s_leave SDial s)\<lparr>s_fresh := Suc (s_fresh s)\<rparr>))
      else None)"
| "slice_step s SDialFail =
     (if SDial \<in># s_calls s then Some (s_enter SDialErr (s_leave SDial s)) else None)"
| "slice_step s SDialUndo =
     (if SDialErr \<in># s_calls s
      then s_released (slice_release (s_pool s)) (\<lambda>p. (s_leave SDialErr s)\<lparr>s_pool := p\<rparr>)
      else None)"
| "slice_step s (SPut c forceClose k now) =
     (if c \<in># s_lent s \<and> put_key_ok k (s_pool s)
      then s_place c (slice_Put now c forceClose k (s_pool s)) (s_return c s) else None)"
| "slice_step s SClose =
     (if sp_closed (s_pool s) then Some s
      else let (p, conns, chans) = slice_Close (s_pool s)
           in Some (s_enter SStop (s\<lparr>s_pool := p, s_shut := mset conns + s_shut s,
                s_hung := chans\<rparr>)))"
| "slice_step s SStopCall =
     (if SStop \<in># s_calls s then Some ((s_leave SStop s)\<lparr>s_stopped := True\<rparr>) else None)"
| "slice_step s SOpenerTake =
     (case sp_opener (s_pool s) of
        0 \<Rightarrow> None
      | Suc n \<Rightarrow>
          if s_opener s = OIdle
          then Some (s\<lparr>s_pool := (s_pool s)\<lparr>sp_opener := n\<rparr>, s_opener := OOpening\<rparr>)
          else None)"
| "slice_step s (SOpenerOk k now) =
     (if s_opener s = OOpening \<and> put_key_ok k (s_pool s)
      then s_place (s_fresh s) (openNewItem now (Some (s_fresh s)) k (s_pool s))
             (s\<lparr>s_opener := OIdle, s_fresh := Suc (s_fresh s)\<rparr>)
      else None)"
| "slice_step s SOpenerFail =
     (if s_opener s = OOpening
      then s_released (obind (openNewItem 0 None 0 (s_pool s)) (\<lambda>(p, out). Done p))
             (\<lambda>p. s\<lparr>s_pool := p, s_opener := OIdle\<rparr>)
      else None)"
| "slice_step s SOpenerStop =
     (if s_opener s = OIdle \<and> s_stopped s then Some (s\<lparr>s_opener := OExit\<rparr>) else None)"
| "slice_step s (SClean now) =
     (if s_cleaner s = SCSelect then Some (s_clean_wake now s) else None)"
| "slice_step s (SPoke now) =
     (if s_cleaner s = SCSelect
      then case sp_cleaner (s_pool s) of
             Some (Suc n) \<Rightarrow>
               Some (s_clean_wake now (s\<lparr>s_pool := (s_pool s)\<lparr>sp_cleaner := Some n\<rparr>\<rparr>))
           | _ \<Rightarrow> if sp_cleaner_closed (s_pool s) then Some (s_clean_wake now s) else None
      else None)"
| "slice_step s (SCleanClose c cs) =
     (if s_cleaner s = SCClosing (c # cs)
      then Some (s_shut_conn c (s\<lparr>s_cleaner := (if cs = [] then SCSelect else SCClosing cs)\<rparr>))
      else None)"

text \<open>A new pool, before any call of its methods.\<close>

definition slice_start :: "slice_pool \<times> bool \<Rightarrow> slice_sys" where
  "slice_start ps =
     \<lparr>s_pool = fst ps, s_calls = {#}, s_opener = OIdle, s_stopped = False,
      s_cleaner = (if snd ps then SCSelect else SNoCleaner), s_inbox = {#}, s_hung = [],
      s_lent = {#}, s_shut = {#}, s_fresh = 0\<rparr>"

definition slice_init :: "slice_sys \<Rightarrow> bool" where
  "slice_init s \<longleftrightarrow> (\<exists>oc ps. NewSlice oc = Done ps \<and> s = slice_start ps)"

section \<open>The contract of the critical sections\<close>

text \<open>
  \<open>slice_ok p h o\<close>: what holds of the pool when \<open>h\<close> connections are counted outside its free
  list (lent, buffered in a request channel, or being looked at, released or dialled by a call)
  and \<open>o\<close> are being opened by the opener goroutine. Requests wait only when no item is free and
  the limit is used up; the count is exact on an open pool; without the opener's the connections
  respect the limit, and the count exceeds it by one at most.
\<close>

definition slice_ok :: "slice_pool \<Rightarrow> nat \<Rightarrow> nat \<Rightarrow> bool" where
  "slice_ok p h o' \<longleftrightarrow>
     (sp_requests p \<noteq> [] \<longrightarrow> sp_free p = [] \<and> 0 < Active (sp_conf p)) \<and>
     (sp_closed p \<longrightarrow> sp_free p = [] \<and> int (h + sp_opener p + o') \<le> sp_active p) \<and>
     (\<not> sp_closed p \<longrightarrow> sp_active p = int (length (sp_free p) + h + sp_opener p + o')) \<and>
     (\<not> sp_closed p \<and> sp_requests p \<noteq> [] \<longrightarrow> Active (sp_conf p) \<le> sp_active p) \<and>
     (0 < Active (sp_conf p) \<longrightarrow> int (length (sp_free p) + h) \<le> Active (sp_conf p)) \<and>
     (0 < Active (sp_conf p) \<and> \<not> sp_closed p \<longrightarrow>
        sp_active p \<le> Active (sp_conf p) + 1)"

lemma slice_ok_cleaner [simp]: "slice_ok (p\<lparr>sp_cleaner := k\<rparr>) h o' = slice_ok p h o'"
  by (simp add: slice_ok_def)

lemma slice_release_effect:
  assumes "slice_ok p h o'" and "slice_release p = Done q"
  obtains (closed) e :: int where "sp_closed p" "q = p\<lparr>sp_active := sp_active p - 1 + e\<rparr>" "0 \<le> e"
  | (dropped) "\<not> sp_closed p" "sp_requests p = [] \<or> Active (sp_conf p) < sp_active p"
      "q = p\<lparr>sp_active := sp_active p - 1\<rparr>"
  | (granted) "\<not> sp_closed p" "sp_requests p \<noteq> []" "0 < Active (sp_conf p)" "sp_free p = []"
      "sp_active p = Active (sp_conf p)" "q = p\<lparr>sp_opener := Suc (sp_opener p)\<rparr>"
proof (cases "sp_closed p")
  case True
  then show thesis using closed slice_release_Done [OF assms(2)] by auto
next
  case open': False
  show thesis
  proof (cases "sp_requests p = []")
    case True
    with open' dropped show thesis using slice_release_Done [OF assms(2)] by (auto simp: slice_grant_def)
  next
    case False
    then have req: "0 < Active (sp_conf p)" "sp_free p = []" "Active (sp_conf p) \<le> sp_active p"
      "1 \<le> int (length (sp_requests p))"
      using assms(1) open' by (clarsimp simp: slice_ok_def Suc_le_eq)+
    then have "slice_grant (p\<lparr>sp_active := sp_active p - 1\<rparr>)
        = (if sp_active p = Active (sp_conf p) then 1 else 0)"
      by (simp add: slice_grant_def)
    then have q: "q = p\<lparr>sp_active := sp_active p - 1 + (if sp_active p = Active (sp_conf p) then 1 else 0),
        sp_opener := sp_opener p + (if sp_active p = Active (sp_conf p) then 1 else 0)\<rparr>"
      using slice_release_Done [OF assms(2)] open' by simp
    show thesis
    proof (cases "sp_active p = Active (sp_conf p)")
      case True
      with q have "q = p\<lparr>sp_opener := Suc (sp_opener p)\<rparr>" by simp
      with True open' False req show thesis by (intro granted) simp_all
    next
      case less: False
      with q have "q = p\<lparr>sp_active := sp_active p - 1\<rparr>" by simp
      with less open' req(3) show thesis by (intro dropped) simp_all
    qed
  qed
qed

lemma slice_ok_release:
  assumes "slice_ok p h o'" and "slice_release p = Done q" and "Suc (h' + o'') = h + o'"
    and "h' \<le> h"
  shows "slice_ok q h' o''"
  using assms(1,2)
proof (cases rule: slice_release_effect)
  case (closed e)
  with assms(1,3,4) show ?thesis by (cases "0 < Active (sp_conf p)"; clarsimp simp: slice_ok_def)
next
  case dropped
  with assms(1,3,4) show ?thesis by (cases "0 < Active (sp_conf p)"; clarsimp simp: slice_ok_def)
next
  case granted
  with assms(1,3,4) show ?thesis by (cases "0 < Active (sp_conf p)"; clarsimp simp: slice_ok_def)
qed

lemma slice_ok_redial:
  assumes "slice_ok p (Suc h) o'" and "slice_redial p = Done q"
  shows "slice_ok q (Suc h) o'"
proof -
  obtain p1 where p1: "slice_release p = Done p1" and q: "q = p1\<lparr>sp_active := sp_active p1 + 1\<rparr>"
    using assms(2) by (auto simp: slice_redial_def obind_Done_iff)
  from assms(1) p1 show ?thesis
  proof (cases rule: slice_release_effect)
    case (closed e)
    with assms(1) q show ?thesis by (cases "0 < Active (sp_conf p)"; clarsimp simp: slice_ok_def)
  next
    case dropped
    with assms(1) q show ?thesis by (cases "0 < Active (sp_conf p)"; clarsimp simp: slice_ok_def)
  next
    case granted
    with assms(1) q show ?thesis by (cases "0 < Active (sp_conf p)"; clarsimp simp: slice_ok_def)
  qed
qed

fun slice_out_conns :: "slice_get_out \<Rightarrow> conn multiset" where
  "slice_out_conns (SPop i) = {#item_c i#}"
| "slice_out_conns _ = {#}"

fun slice_out_counted :: "slice_get_out \<Rightarrow> nat" where
  "slice_out_counted (SPop i) = 1"
| "slice_out_counted SDialing = 1"
| "slice_out_counted _ = 0"

lemma slice_scan_cases:
  assumes "slice_scan p = (q, out)"
  obtains (pop) i rest where "sp_free p = i # rest" "out = SPop i" "q = p\<lparr>sp_free := rest\<rparr>"
  | (failed) "sp_free p = []" "out = SFailed ErrPoolExhausted" "q = p"
  | (request) "sp_free p = []" "0 < Active (sp_conf p)" "Active (sp_conf p) \<le> sp_active p"
      "out = SRequested (sp_next p) (sp_made p)"
      "q = p\<lparr>sp_made := Suc (sp_made p), sp_next := sp_next p + 1, sp_requests := (sp_next p, sp_made p)
         # filter (\<lambda>r. fst r \<noteq> sp_next p) (sp_requests p)\<rparr>"
  | (dial) "sp_free p = []" "Active (sp_conf p) \<le> 0 \<or> sp_active p < Active (sp_conf p)"
      "out = SDialing" "q = p\<lparr>sp_active := sp_active p + 1\<rparr>"
proof (cases "sp_free p")
  case (Cons i rest)
  then show thesis using assms pop by (auto simp: slice_scan_def)
next
  case Nil
  then have scan: "slice_no_free p = (q, out)" using assms by (simp add: slice_scan_def)
  show thesis
  proof (cases "0 < Active (sp_conf p) \<and> Active (sp_conf p) \<le> sp_active p")
    case True
    show thesis
    proof (cases "WaitTimeout (sp_conf p) = 0 \<and> \<not> Wait (sp_conf p)")
      case fail: True
      with True scan Nil show thesis by (intro failed) (simp_all add: slice_no_free_def)
    next
      case wait: False
      with True scan Nil show thesis
        by (intro request) (simp_all only: slice_no_free_def Let_def nextRequestKeyLocked_def
          slice_delete_request_def if_True if_False split_beta Pair_inject, simp_all)
    qed
  next
    case False
    with scan Nil show thesis by (intro dial) (simp_all add: slice_no_free_def not_less not_le)
  qed
qed

lemma slice_ok_scan:
  assumes "slice_ok p h o'" and "slice_scan p = (q, out)"
  shows "slice_ok q (h + slice_out_counted out) o'"
  using assms(2)
proof (cases rule: slice_scan_cases)
  case (pop i rest)
  with assms(1) show ?thesis by (cases "0 < Active (sp_conf p)"; clarsimp simp: slice_ok_def)
next
  case failed
  with assms(1) show ?thesis by simp
next
  case request
  with assms(1) show ?thesis by (cases "0 < Active (sp_conf p)"; clarsimp simp: slice_ok_def)
next
  case dial
  with assms(1) show ?thesis
    by (cases "0 < Active (sp_conf p)"; cases "sp_closed p"; clarsimp simp: slice_ok_def)
qed

lemma slice_scan_conns:
  assumes "slice_scan p = (q, out)"
  shows "conns_of (sp_free q) + slice_out_conns out = conns_of (sp_free p)"
  using assms by (cases rule: slice_scan_cases) simp_all

lemma slice_ok_delete: "slice_ok p h o' \<Longrightarrow> slice_ok (slice_delete_request k p) h o'"
  by (auto simp: slice_ok_def slice_delete_request_def)

lemma putItemLocked_cases:
  assumes "putItemLocked now c k p = (q, out)" and "put_key_ok k p"
  obtains (refused) "out = Refused" "q = p" "sp_closed p"
  | (over) "out = Refused" "q = p" "\<not> sp_closed p" "0 < Active (sp_conf p)" "Active (sp_conf p) < sp_active p"
  | (full) "out = Refused" "q = p" "\<not> sp_closed p" "sp_requests p = []"
  | (handed) ch where "out = Handed ch \<lparr>createdAt = now, item_c = c\<rparr>" "(k, ch) \<in> set (sp_requests p)"
      "q = slice_delete_request k p" "\<not> sp_closed p"
      "\<not> (0 < Active (sp_conf p) \<and> Active (sp_conf p) < sp_active p)"
  | (stored) "out = Stored" "q = p\<lparr>sp_free := sp_free p @ [\<lparr>createdAt = now, item_c = c\<rparr>]\<rparr>"
      "\<not> sp_closed p" "sp_requests p = []"
      "\<not> (0 < Active (sp_conf p) \<and> Active (sp_conf p) < sp_active p)"
proof -
  have none: "map_of (sp_requests p) k = None \<Longrightarrow> sp_requests p = []"
    using assms(2) by (auto simp: put_key_ok_def map_of_eq_None_iff)
  show thesis
    using assms(1) none refused over full handed stored
    by (auto simp: putItemLocked_def Let_def split: if_splits option.splits dest: map_of_SomeD)
qed

text \<open>How a placed connection changes the two counts.\<close>

fun put_inbox :: "put_out \<Rightarrow> (chan \<times> item) multiset" where
  "put_inbox (Handed ch i) = {#(ch, i)#}"
| "put_inbox _ = {#}"

fun put_shut :: "conn \<Rightarrow> put_out \<Rightarrow> conn multiset" where
  "put_shut c Refused = {#c#}"
| "put_shut c _ = {#}"

definition put_book :: "conn \<Rightarrow> slice_pool \<Rightarrow> slice_pool \<Rightarrow> put_out \<Rightarrow> bool" where
  "put_book c p q out \<longleftrightarrow>
     conns_of (sp_free q) + image_mset (\<lambda>x. item_c (snd x)) (put_inbox out) + put_shut c out
       = add_mset c (conns_of (sp_free p)) \<and>
     sp_made q = sp_made p \<and> sp_cleaner q = sp_cleaner p \<and> sp_conf q = sp_conf p \<and>
     (case out of
        Handed ch i \<Rightarrow> \<exists>k. (k, ch) \<in> set (sp_requests p) \<and>
          sp_requests q = filter (\<lambda>r. fst r \<noteq> k) (sp_requests p)
      | _ \<Rightarrow> sp_requests q = sp_requests p)"

lemma slice_ok_place:
  assumes ok: "slice_ok p h o'" and key: "put_key_ok k p" and sum: "h + o' = Suc (h' + o'')" "h' \<le> h"
    and put: "(case putItemLocked now c k p of
        (p1, Refused) \<Rightarrow> Done (p1\<lparr>sp_active := sp_active p1 - 1\<rparr>, Refused)
      | (p1, out) \<Rightarrow> Done (p1, out)) = Done (q, out)"
  shows "slice_ok q (h' + size (put_inbox out)) o'' \<and> put_book c p q out"
proof -
  obtain p1 out1 where p1: "putItemLocked now c k p = (p1, out1)" by fastforce
  from p1 key show ?thesis
  proof (cases rule: putItemLocked_cases)
    case refused
    with put p1 ok sum show ?thesis
      by (cases "0 < Active (sp_conf p)"; clarsimp simp: slice_ok_def put_book_def)
  next
    case over
    with put p1 ok sum show ?thesis by (clarsimp simp: slice_ok_def put_book_def)
  next
    case full
    with put p1 ok sum show ?thesis
      by (cases "0 < Active (sp_conf p)"; clarsimp simp: slice_ok_def put_book_def)
  next
    case (handed ch)
    with put p1 have q: "q = slice_delete_request k p"
        "out = Handed ch \<lparr>createdAt = now, item_c = c\<rparr>" by auto
    have "sp_requests p \<noteq> []" using handed(2) by auto
    then have "sp_free p = []" "0 < Active (sp_conf p)" "sp_active p \<le> Active (sp_conf p)"
      using ok handed(5) by (auto simp: slice_ok_def)
    then have "slice_ok p (Suc h') o''"
      using ok sum handed(4) by (clarsimp simp: slice_ok_def)
    then have "slice_ok q (Suc h') o''" by (simp add: q slice_ok_delete)
    moreover have "put_book c p q out"
      using handed(2) by (auto simp: q put_book_def slice_delete_request_def)
    ultimately show ?thesis by (simp add: q)
  next
    case stored
    with put p1 ok sum show ?thesis
      by (cases "0 < Active (sp_conf p)"; clarsimp simp: slice_ok_def put_book_def)
  qed
qed

lemma slice_ok_Put:
  assumes "slice_ok p (Suc h) o'" and "put_key_ok k p"
    and "slice_Put now c forceClose k p = Done (q, out)"
  shows "slice_ok q (h + size (put_inbox out)) o' \<and> put_book c p q out"
proof (cases forceClose)
  case True
  with assms(3) have q: "slice_release p = Done q" "out = Refused"
    by (auto simp: slice_Put_def obind_Done_iff)
  then show ?thesis
    using slice_ok_release [OF assms(1) q(1), of h o'] slice_release_fields [OF q(1)]
    by (simp add: put_book_def)
next
  case False
  with assms show ?thesis
    by (intro slice_ok_place [where h = "Suc h" and o' = o']) (auto simp: slice_Put_def)
qed

lemma slice_ok_openNewItem:
  assumes "slice_ok p h (Suc o')" and "put_key_ok k p"
    and "openNewItem now (Some c) k p = Done (q, out)"
  shows "slice_ok q (h + size (put_inbox out)) o' \<and> put_book c p q out"
  using assms
  by (intro slice_ok_place [where h = h and o' = "Suc o'"]) (auto simp: openNewItem_def)

subsection \<open>Request channels\<close>

text \<open>
  The channels of pending requests are distinct, were made before, and have an empty buffer:
  \<open>B\<close> are the channels with an item in theirs.
\<close>

definition slice_chans_ok :: "slice_pool \<Rightarrow> chan multiset \<Rightarrow> bool" where
  "slice_chans_ok p B \<longleftrightarrow> distinct (map snd (sp_requests p)) \<and>
     (\<forall>r \<in> set (sp_requests p). snd r < sp_made p \<and> snd r \<notin># B) \<and> (\<forall>ch \<in># B. ch < sp_made p)"

lemma slice_chans_ok_same:
  "slice_chans_ok p B \<Longrightarrow> sp_requests q = sp_requests p \<Longrightarrow> sp_made q = sp_made p \<Longrightarrow> slice_chans_ok q B"
  by (simp add: slice_chans_ok_def)

lemma slice_chans_ok_delete: "slice_chans_ok p B \<Longrightarrow> slice_chans_ok (slice_delete_request k p) B"
  by (auto simp: slice_chans_ok_def slice_delete_request_def distinct_map_filter)

lemma slice_chans_ok_minus: "slice_chans_ok p B \<Longrightarrow> slice_chans_ok p (B - {#ch#})"
  by (auto simp: slice_chans_ok_def dest: in_diffD)

lemma slice_chans_ok_scan:
  assumes "slice_chans_ok p B" and "slice_scan p = (q, out)"
  shows "slice_chans_ok q B"
  using assms(2)
proof (cases rule: slice_scan_cases)
  case request
  with assms(1) show ?thesis
    by (fastforce simp: slice_chans_ok_def distinct_map_filter)
qed (use assms(1) in \<open>auto simp: slice_chans_ok_def\<close>)

lemma slice_chans_ok_place:
  assumes "slice_chans_ok p B" and "put_book c p q out"
  shows "slice_chans_ok q (image_mset fst (put_inbox out) + B)"
    and "\<And>ch i. out = Handed ch i \<Longrightarrow> ch \<notin># B"
proof -
  show notin: "ch \<notin># B" if "out = Handed ch i" for ch i
    using assms that by (auto simp: slice_chans_ok_def put_book_def)
  show "slice_chans_ok q (image_mset fst (put_inbox out) + B)"
  proof (cases out)
    case (Handed ch i)
    then obtain k where k: "(k, ch) \<in> set (sp_requests p)"
        "sp_requests q = filter (\<lambda>r. fst r \<noteq> k) (sp_requests p)" "sp_made q = sp_made p"
      using assms(2) by (auto simp: put_book_def)
    have "snd r \<noteq> ch" if "r \<in> set (sp_requests q)" for r
    proof
      assume "snd r = ch"
      moreover have "r \<in> set (sp_requests p)" "fst r \<noteq> k" using that k(2) by auto
      ultimately show False
        using assms(1) k(1) by (metis slice_chans_ok_def distinct_map fst_conv inj_onD snd_conv)
    qed
    with assms(1) k Handed show ?thesis
      by (auto simp: slice_chans_ok_def distinct_map_filter)
  qed (use assms in \<open>auto simp: slice_chans_ok_def put_book_def\<close>)
qed

section \<open>Where every connection is\<close>

fun slice_pc_conns :: "slice_pc \<Rightarrow> conn multiset" where
  "slice_pc_conns (SPopped i d) = {#item_c i#}"
| "slice_pc_conns _ = {#}"

fun slice_pc_counted :: "slice_pc \<Rightarrow> bool" where
  "slice_pc_counted (SPopped i d) = True"
| "slice_pc_counted (SReap d) = True"
| "slice_pc_counted SReapReq = True"
| "slice_pc_counted SDial = True"
| "slice_pc_counted SDialErr = True"
| "slice_pc_counted _ = False"

fun slice_cleaner_conns :: "slice_cleaner \<Rightarrow> conn multiset" where
  "slice_cleaner_conns (SCClosing cs) = mset cs"
| "slice_cleaner_conns _ = {#}"

definition inbox_conns :: "(chan \<times> item) multiset \<Rightarrow> conn multiset" where
  "inbox_conns B = image_mset (\<lambda>x. item_c (snd x)) B"

definition slice_away :: "slice_sys \<Rightarrow> conn multiset" where
  "slice_away s = s_lent s + inbox_conns (s_inbox s) + \<Sum>\<^sub># (image_mset slice_pc_conns (s_calls s))
     + slice_cleaner_conns (s_cleaner s) + s_shut s"

definition slice_owners :: "slice_sys \<Rightarrow> conn multiset" where
  "slice_owners s = conns_of (sp_free (s_pool s)) + slice_away s"

definition slice_held :: "slice_sys \<Rightarrow> nat" where
  "slice_held s = size (s_lent s) + size (s_inbox s) + size (filter_mset slice_pc_counted (s_calls s))"

definition slice_opening :: "slice_sys \<Rightarrow> nat" where
  "slice_opening s = (if s_opener s = OOpening then 1 else 0)"

definition slice_inv :: "slice_sys \<Rightarrow> bool" where
  "slice_inv s \<longleftrightarrow> slice_owners s = made_conns (s_fresh s) \<and>
     slice_ok (s_pool s) (slice_held s) (slice_opening s) \<and>
     slice_chans_ok (s_pool s) (image_mset fst (s_inbox s))"

subsection \<open>Owners and counts through the system's moves\<close>

lemma s_fields [simp]:
  "s_pool (s_leave pc s) = s_pool s" "s_pool (s_enter pc s) = s_pool s"
  "s_pool (s_lend c s) = s_pool s" "s_pool (s_shut_conn c s) = s_pool s"
  "s_pool (s_return c s) = s_pool s" "s_pool (s_receive ch i s) = s_pool s"
  "s_fresh (s_leave pc s) = s_fresh s" "s_fresh (s_enter pc s) = s_fresh s"
  "s_fresh (s_lend c s) = s_fresh s" "s_fresh (s_shut_conn c s) = s_fresh s"
  "s_fresh (s_return c s) = s_fresh s" "s_fresh (s_receive ch i s) = s_fresh s"
  "s_inbox (s_leave pc s) = s_inbox s" "s_inbox (s_enter pc s) = s_inbox s"
  "s_inbox (s_lend c s) = s_inbox s" "s_inbox (s_shut_conn c s) = s_inbox s"
  "s_inbox (s_return c s) = s_inbox s"
  "s_opener (s_leave pc s) = s_opener s" "s_opener (s_enter pc s) = s_opener s"
  "s_opener (s_lend c s) = s_opener s" "s_opener (s_shut_conn c s) = s_opener s"
  "s_opener (s_return c s) = s_opener s" "s_opener (s_receive ch i s) = s_opener s"
  by (simp_all add: s_leave_def s_enter_def s_lend_def s_shut_conn_def s_return_def s_receive_def)

lemma slice_away_moves [simp]:
  "slice_away (s_enter pc s) = slice_away s + slice_pc_conns pc"
  "slice_away (s_lend c s) = add_mset c (slice_away s)"
  "slice_away (s_shut_conn c s) = add_mset c (slice_away s)"
  "slice_away (s\<lparr>s_pool := p\<rparr>) = slice_away s"
  "slice_away (s\<lparr>s_fresh := n\<rparr>) = slice_away s"
  "slice_away (s\<lparr>s_opener := op\<rparr>) = slice_away s"
  "slice_away (s\<lparr>s_stopped := b\<rparr>) = slice_away s"
  "slice_away (s\<lparr>s_hung := chs\<rparr>) = slice_away s"
  by (simp_all add: slice_away_def s_enter_def s_lend_def s_shut_conn_def)

lemma slice_held_moves [simp]:
  "slice_held (s_enter pc s) = slice_held s + (if slice_pc_counted pc then 1 else 0)"
  "slice_held (s_lend c s) = Suc (slice_held s)"
  "slice_held (s_shut_conn c s) = slice_held s"
  "slice_held (s\<lparr>s_pool := p\<rparr>) = slice_held s"
  "slice_held (s\<lparr>s_fresh := n\<rparr>) = slice_held s"
  "slice_held (s\<lparr>s_opener := op\<rparr>) = slice_held s"
  "slice_held (s\<lparr>s_stopped := b\<rparr>) = slice_held s"
  "slice_held (s\<lparr>s_hung := chs\<rparr>) = slice_held s"
  "slice_held (s\<lparr>s_cleaner := k\<rparr>) = slice_held s"
  "slice_held (s\<lparr>s_shut := m\<rparr>) = slice_held s"
  by (simp_all add: slice_held_def s_enter_def s_lend_def s_shut_conn_def)

lemma slice_opening_moves [simp]:
  "slice_opening (s_leave pc s) = slice_opening s" "slice_opening (s_enter pc s) = slice_opening s"
  "slice_opening (s_lend c s) = slice_opening s" "slice_opening (s_shut_conn c s) = slice_opening s"
  "slice_opening (s_return c s) = slice_opening s" "slice_opening (s_receive ch i s) = slice_opening s"
  "slice_opening (s\<lparr>s_pool := p\<rparr>) = slice_opening s"
  "slice_opening (s\<lparr>s_fresh := n\<rparr>) = slice_opening s"
  "slice_opening (s\<lparr>s_stopped := b\<rparr>) = slice_opening s"
  "slice_opening (s\<lparr>s_hung := chs\<rparr>) = slice_opening s"
  "slice_opening (s\<lparr>s_cleaner := k\<rparr>) = slice_opening s"
  "slice_opening (s\<lparr>s_inbox := B\<rparr>) = slice_opening s"
  "slice_opening (s\<lparr>s_shut := m\<rparr>) = slice_opening s"
  by (simp_all add: slice_opening_def)

lemma slice_leave_sums:
  assumes "pc \<in># s_calls s"
  shows "slice_away s = slice_away (s_leave pc s) + slice_pc_conns pc"
    and "slice_held s = slice_held (s_leave pc s) + (if slice_pc_counted pc then 1 else 0)"
  using assms by (simp_all add: slice_away_def slice_held_def s_leave_def
      sum_image_diff [of pc "s_calls s"] size_filter_diff [of pc "s_calls s"] ac_simps)

lemma slice_return_sums:
  assumes "c \<in># s_lent s"
  shows "slice_away s = add_mset c (slice_away (s_return c s))"
    and "slice_held s = Suc (slice_held (s_return c s))"
  using assms by (auto simp: slice_away_def slice_held_def s_return_def dest: multi_member_split)

lemma slice_receive_sums:
  assumes "(ch, i) \<in># s_inbox s"
  shows "slice_away s = add_mset (item_c i) (slice_away (s_receive ch i s))"
    and "slice_held s = Suc (slice_held (s_receive ch i s))"
    and "image_mset fst (s_inbox (s_receive ch i s)) = image_mset fst (s_inbox s) - {#ch#}"
proof -
  obtain B where "s_inbox s = add_mset (ch, i) B" using assms by (blast dest: multi_member_split)
  then show "slice_away s = add_mset (item_c i) (slice_away (s_receive ch i s))"
    and "slice_held s = Suc (slice_held (s_receive ch i s))"
    and "image_mset fst (s_inbox (s_receive ch i s)) = image_mset fst (s_inbox s) - {#ch#}"
    by (simp_all add: slice_away_def slice_held_def s_receive_def inbox_conns_def)
qed

lemma slice_inbox_sums [simp]:
  "slice_away (s\<lparr>s_inbox := B + s_inbox s\<rparr>) = inbox_conns B + slice_away s"
  "slice_held (s\<lparr>s_inbox := B + s_inbox s\<rparr>) = slice_held s + size B"
  by (simp_all add: slice_away_def slice_held_def inbox_conns_def ac_simps)

lemma slice_sums_pool_inbox [simp]:
  "slice_away (s\<lparr>s_pool := p, s_inbox := add_mset x (s_inbox s)\<rparr>)
     = add_mset (item_c (snd x)) (slice_away s)"
  "slice_held (s\<lparr>s_pool := p, s_inbox := add_mset x (s_inbox s)\<rparr>) = Suc (slice_held s)"
  by (simp_all add: slice_away_def slice_held_def inbox_conns_def)

lemma s_settle_book:
  "s_pool (s_settle d po s) = fst po"
  "s_fresh (s_settle d po s) = s_fresh s"
  "s_inbox (s_settle d po s) = s_inbox s"
  "slice_opening (s_settle d po s) = slice_opening s"
  "slice_away (s_settle d po s) = slice_away s + slice_out_conns (snd po)"
  "slice_held (s_settle d po s) = slice_held s + slice_out_counted (snd po)"
  by (cases "snd po", simp_all add: s_settle_def Let_def)+

subsection \<open>The invariant is inductive\<close>

lemma slice_inv_settle:
  assumes "conns_of (sp_free p) + slice_away s = made_conns (s_fresh s)"
    and "slice_ok p (slice_held s) (slice_opening s)"
    and "slice_chans_ok p (image_mset fst (s_inbox s))"
  shows "slice_inv (s_settle d (slice_scan p) s)"
proof -
  obtain q out where scan: "slice_scan p = (q, out)" by fastforce
  have "conns_of (sp_free q) + (slice_away s + slice_out_conns out)
      = (conns_of (sp_free q) + slice_out_conns out) + slice_away s" by (simp add: ac_simps)
  also have "\<dots> = made_conns (s_fresh s)" by (simp add: slice_scan_conns [OF scan] assms(1))
  finally show ?thesis
    using slice_ok_scan [OF assms(2) scan] slice_chans_ok_scan [OF assms(3) scan]
    by (simp add: slice_inv_def slice_owners_def s_settle_book scan)
qed

lemma slice_inv_place:
  assumes "s_place c (Done (q, out)) s = Some t" and book: "put_book c p q out"
    and "slice_ok q (slice_held s + size (put_inbox out)) (slice_opening s)"
    and conns: "add_mset c (conns_of (sp_free p)) + slice_away s = made_conns (s_fresh s)"
    and chans: "slice_chans_ok p (image_mset fst (s_inbox s))"
  shows "slice_inv t"
proof -
  have "conns_of (sp_free q) + inbox_conns (put_inbox out) + put_shut c out
      = add_mset c (conns_of (sp_free p))"
    using book by (simp add: put_book_def inbox_conns_def)
  then have "conns_of (sp_free q) + (inbox_conns (put_inbox out) + (put_shut c out + slice_away s))
      = add_mset c (conns_of (sp_free p)) + slice_away s"
    by (metis add.assoc)
  note sum = this
  have t: "t = (case out of Refused \<Rightarrow> s_shut_conn c (s\<lparr>s_pool := q\<rparr>)
      | _ \<Rightarrow> s\<lparr>s_pool := q, s_inbox := put_inbox out + s_inbox s\<rparr>)"
    using assms(1) by (cases out) (auto simp: s_place_def split: if_splits)
  have "slice_owners t
      = conns_of (sp_free q) + (inbox_conns (put_inbox out) + (put_shut c out + slice_away s))"
    by (cases out) (simp_all add: t slice_owners_def inbox_conns_def ac_simps)
  also have "\<dots> = made_conns (s_fresh s)" by (simp only: sum conns)
  also have "s_fresh s = s_fresh t" by (cases out) (simp_all add: t)
  finally show ?thesis
    using assms(3) slice_chans_ok_place(1) [OF chans book]
    by (cases out) (simp_all add: slice_inv_def t)
qed

lemma s_placeE:
  assumes "s_place c m s = Some t"
  obtains q out where "m = Done (q, out)"
  using assms by (auto simp: s_place_def split: outcome.splits)

lemma s_releasedE:
  assumes "s_released m f = Some t"
  obtains q where "m = Done q" "t = f q"
  using assms by (auto simp: s_released_def split: outcome.splits)

lemma slice_chans_ok_release:
  "slice_chans_ok p B \<Longrightarrow> slice_release p = Done q \<Longrightarrow> slice_chans_ok q B"
  by (simp add: slice_chans_ok_same [of p B q] slice_release_fields)

lemma slice_redial_fields:
  assumes "slice_redial p = Done q"
  shows "sp_free q = sp_free p" "sp_requests q = sp_requests p" "sp_made q = sp_made p"
  using assms by (auto simp: slice_redial_def obind_Done_iff slice_release_fields)

text \<open>The steps that only move one goroutine.\<close>

lemma slice_inv_upd:
  assumes "conns_of (sp_free (s_pool s)) + slice_away s = made_conns (s_fresh s)"
    and "slice_ok (s_pool s) (slice_held s) (slice_opening s)"
    and "slice_chans_ok (s_pool s) (image_mset fst (s_inbox s))"
  shows "slice_inv s"
  using assms by (simp add: slice_inv_def slice_owners_def)

lemma slice_clean_book:
  assumes "slice_clean now p = (q, cs)"
  shows "conns_of (sp_free q) + mset cs = conns_of (sp_free p)"
    and "sp_active q - int (length (sp_free q)) = sp_active p - int (length (sp_free p))"
    and "q = p\<lparr>sp_free := sp_free q, sp_active := sp_active q\<rparr>"
    and "length (sp_free q) \<le> length (sp_free p)"
proof -
  obtain ys zs where loop:
    "slice_clean_loop (now - IdleTimeout (sp_conf p)) 0 (sp_free p) [] = (ys, zs)" by fastforce
  let ?stale = "\<lambda>i. createdAt i < now - IdleTimeout (sp_conf p)"
  have q: "sp_free q = ys" "sp_active q = sp_active p - int (length zs)" "cs = map item_c zs"
    "q = p\<lparr>sp_free := sp_free q, sp_active := sp_active q\<rparr>"
    using assms loop by (auto simp: slice_clean_def)
  have split: "mset ys = filter_mset (\<lambda>i. \<not> ?stale i) (mset (sp_free p))"
    "mset zs = filter_mset ?stale (mset (sp_free p))"
    using slice_clean_loop_split [OF loop] by simp_all
  have all: "mset (sp_free p) = mset zs + mset ys"
    by (simp only: split multiset_partition [of "mset (sp_free p)" ?stale, symmetric])
  then have "length (sp_free p) = length zs + length ys" by (metis size_mset size_union)
  with q show "sp_active q - int (length (sp_free q)) = sp_active p - int (length (sp_free p))"
    and "length (sp_free q) \<le> length (sp_free p)" by simp_all
  have "image_mset item_c (mset (sp_free p)) = image_mset item_c (mset zs) + image_mset item_c (mset ys)"
    by (simp only: all image_mset_union)
  then show "conns_of (sp_free q) + mset cs = conns_of (sp_free p)"
    by (simp add: conns_of_def q(1,3) add.commute)
  show "q = p\<lparr>sp_free := sp_free q, sp_active := sp_active q\<rparr>" by (rule q(4))
qed

lemma slice_inv_clean:
  assumes "slice_inv s" and "s_cleaner s = SCSelect"
  shows "slice_inv (s_clean_wake now s)"
proof (cases "slice_clean_stop (s_pool s)")
  case True
  with assms show ?thesis
    by (simp add: s_clean_wake_def slice_inv_def slice_owners_def slice_away_def slice_opening_def)
next
  case False
  let ?p = "s_pool s"
  obtain q cs where clean: "slice_clean now ?p = (q, cs)" by fastforce
  note book = slice_clean_book [OF clean]
  have open': "\<not> sp_closed ?p" using False by (simp add: slice_clean_stop_def)
  let ?c = "if cs = [] then SCSelect else SCClosing cs"
  have t: "s_clean_wake now s = s\<lparr>s_pool := q, s_cleaner := ?c\<rparr>"
    using False clean by (simp add: s_clean_wake_def)
  have "slice_cleaner_conns ?c = mset cs" by simp
  then have "slice_away (s\<lparr>s_pool := q, s_cleaner := ?c\<rparr>) = slice_away s + mset cs"
    using assms(2) by (simp add: slice_away_def ac_simps)
  then have "slice_owners (s_clean_wake now s) = (conns_of (sp_free q) + mset cs) + slice_away s"
    by (simp add: t slice_owners_def ac_simps)
  also have "\<dots> = slice_owners s" by (simp only: book(1) slice_owners_def)
  finally have own: "slice_owners (s_clean_wake now s) = slice_owners s" .
  have ok: "slice_ok ?p (slice_held s) (slice_opening s)" using assms(1) by (simp add: slice_inv_def)
  have fields: "sp_requests q = sp_requests ?p" "sp_conf q = sp_conf ?p" "sp_closed q = sp_closed ?p"
    "sp_opener q = sp_opener ?p" "sp_made q = sp_made ?p"
    by (subst book(3), simp)+
  have "sp_free ?p = [] \<Longrightarrow> sp_free q = [] \<and> sp_active q = sp_active ?p"
    using book(2,4) by simp
  with ok book(2,4) open' have "slice_ok q (slice_held s) (slice_opening s)"
    by (cases "0 < Active (sp_conf ?p)"; clarsimp simp: slice_ok_def fields)
  with own fields assms(1) show ?thesis
    by (simp add: t slice_inv_def slice_chans_ok_def)
qed

lemma slice_inv_Close:
  assumes "slice_inv s" and "\<not> sp_closed (s_pool s)" and "slice_Close (s_pool s) = (p, conns, chs)"
  shows "slice_inv (s_enter SStop (s\<lparr>s_pool := p, s_shut := mset conns + s_shut s, s_hung := chs\<rparr>))"
proof -
  have p: "p = (s_pool s)\<lparr>sp_free := [], sp_closed := True,
      sp_cleaner_closed := (sp_cleaner (s_pool s) \<noteq> None)\<rparr>" "conns = map item_c (sp_free (s_pool s))"
    using assms(2,3) by (auto simp: slice_Close_def)
  have "slice_away (s\<lparr>s_pool := p, s_shut := mset conns + s_shut s, s_hung := chs\<rparr>)
      = mset conns + slice_away s"
    by (simp add: slice_away_def ac_simps)
  moreover have "slice_ok p (slice_held s) (slice_opening s)"
    using assms(1,2) by (clarsimp simp: slice_inv_def slice_ok_def p(1))
  ultimately show ?thesis
    using assms(1)
    by (auto simp: slice_inv_def slice_owners_def p conns_of_def slice_chans_ok_def)
qed

lemma NewSlice_Done:
  assumes "NewSlice oc = Done (p, started)"
  obtains c where "oc = Some c" "Idle c \<le> Active c"
    "p = \<lparr>sp_conf = c, sp_mu = False, sp_free = [], sp_requests = [], sp_next = 0, sp_made = 0,
      sp_active = 0, sp_opener = 0, sp_closed = False,
      sp_cleaner = (if IdleTimeout c \<le> 0 then None else Some 0), sp_cleaner_closed = False\<rparr>"
    "started = (0 < IdleTimeout c)"
proof (cases oc)
  case None
  with assms show thesis by (simp add: NewSlice_def)
next
  case (Some c)
  with assms have "\<not> Active c < Idle c" by (auto simp: NewSlice_def)
  with assms Some that show thesis
    by (cases "IdleTimeout c \<le> 0") (simp_all add: NewSlice_def slice_startCleanerLocked_def)
qed

lemma slice_inv_init: "slice_init s \<Longrightarrow> slice_inv s"
  unfolding slice_init_def
proof (elim exE conjE)
  fix oc ps assume new: "NewSlice oc = Done ps" and s: "s = slice_start ps"
  obtain p st where ps: "ps = (p, st)" by fastforce
  from new [unfolded ps] obtain c where "p = \<lparr>sp_conf = c, sp_mu = False, sp_free = [],
      sp_requests = [], sp_next = 0, sp_made = 0, sp_active = 0, sp_opener = 0, sp_closed = False,
      sp_cleaner = (if IdleTimeout c \<le> 0 then None else Some 0), sp_cleaner_closed = False\<rparr>"
    by (rule NewSlice_Done)
  then show "slice_inv s"
    by (simp add: s ps slice_start_def slice_inv_def slice_owners_def slice_away_def slice_held_def
      slice_opening_def inbox_conns_def slice_ok_def slice_chans_ok_def)
qed

lemma slice_inv_step:
  assumes inv: "slice_inv s" and step: "slice_step s e = Some t"
  shows "slice_inv t"
proof -
  let ?p = "s_pool s"
  have conns: "conns_of (sp_free ?p) + slice_away s = made_conns (s_fresh s)"
    and ok: "slice_ok ?p (slice_held s) (slice_opening s)"
    and chans: "slice_chans_ok ?p (image_mset fst (s_inbox s))"
    using inv by (simp_all add: slice_inv_def slice_owners_def)
  show ?thesis
  proof (cases e)
    case SGet
    then have t: "t = s_settle (IdleTimeout (sp_conf ?p)) (slice_get_begin ?p) s" using step by simp
    show ?thesis
    proof (cases "sp_closed ?p")
      case True
      with inv show ?thesis
        by (simp add: t slice_get_begin_def slice_inv_def slice_owners_def s_settle_book)
    next
      case False
      then show ?thesis by (simp add: t slice_get_begin_def slice_inv_settle conns ok chans)
    qed
  next
    case (STake i d now)
    with step have t: "SPopped i d \<in># s_calls s"
        "t = s_lend (item_c i) (s_leave (SPopped i d) s)" by (auto split: if_splits)
    show ?thesis using conns ok chans slice_leave_sums [OF t(1)]
      by (intro slice_inv_upd) (simp_all add: t(2))
  next
    case (SExpire i d now)
    with step have t: "SPopped i d \<in># s_calls s"
        "t = s_shut_conn (item_c i) (s_enter (SReap d) (s_leave (SPopped i d) s))"
      by (auto split: if_splits)
    show ?thesis using conns ok chans slice_leave_sums [OF t(1)]
      by (intro slice_inv_upd) (simp_all add: t(2))
  next
    case (SRescan d)
    with step obtain q where t: "SReap d \<in># s_calls s" "slice_release ?p = Done q"
        "t = s_settle d (slice_scan q) (s_leave (SReap d) s)"
      by (auto split: if_splits elim: s_releasedE)
    note sums = slice_leave_sums [OF t(1)]
    have "slice_ok q (slice_held (s_leave (SReap d) s)) (slice_opening s)"
      using sums(2) by (intro slice_ok_release [OF ok t(2)]) simp_all
    then show ?thesis
      using conns sums slice_chans_ok_release [OF chans t(2)] slice_release_fields [OF t(2)]
      by (simp add: t(3) slice_inv_settle)
  next
    case (SRecvTake k ch d i now)
    with step have t: "SWait k ch d \<in># s_calls s" "(ch, i) \<in># s_inbox (s_leave (SWait k ch d) s)"
        "t = s_lend (item_c i) (s_receive ch i (s_leave (SWait k ch d) s))"
      by (auto split: if_splits)
    show ?thesis
      using conns ok chans slice_leave_sums [OF t(1)] slice_receive_sums [OF t(2)]
      by (intro slice_inv_upd) (simp_all add: t(3) slice_chans_ok_minus)
  next
    case (SRecvExpired k ch d i now)
    with step have t: "SWait k ch d \<in># s_calls s" "(ch, i) \<in># s_inbox (s_leave (SWait k ch d) s)"
        "t = s_shut_conn (item_c i) (s_enter SReapReq (s_receive ch i (s_leave (SWait k ch d) s)))"
      by (auto split: if_splits)
    show ?thesis
      using conns ok chans slice_leave_sums [OF t(1)] slice_receive_sums [OF t(2)]
      by (intro slice_inv_upd) (simp_all add: t(3) slice_chans_ok_minus)
  next
    case (SRecvClosed k ch d)
    with step have t: "SWait k ch d \<in># s_calls s" "t = s_leave (SWait k ch d) s"
      by (auto split: if_splits)
    show ?thesis using conns ok chans slice_leave_sums [OF t(1)]
      by (intro slice_inv_upd) (simp_all add: t(2))
  next
    case SRedial
    with step obtain q where t: "SReapReq \<in># s_calls s" "slice_redial ?p = Done q"
        "t = s_enter SDial ((s_leave SReapReq s)\<lparr>s_pool := q\<rparr>)"
      by (auto split: if_splits elim: s_releasedE)
    note sums = slice_leave_sums [OF t(1)] and fields = slice_redial_fields [OF t(2)]
    have "slice_ok q (Suc (slice_held (s_leave SReapReq s))) (slice_opening s)"
      using ok sums by (intro slice_ok_redial [OF _ t(2)]) simp
    then show ?thesis
      using conns sums fields chans slice_chans_ok_same [OF chans fields(2,3)]
      by (intro slice_inv_upd) (simp_all add: t(3))
  next
    case (SCtxDone k ch d)
    with step have t: "SWait k ch d \<in># s_calls s" "t = s_enter (SLeaving k) (s_leave (SWait k ch d) s)"
      by (auto split: if_splits)
    show ?thesis using conns ok chans slice_leave_sums [OF t(1)]
      by (intro slice_inv_upd) (simp_all add: t(2))
  next
    case (SLeave k)
    with step have t: "SLeaving k \<in># s_calls s"
        "t = (s_leave (SLeaving k) s)\<lparr>s_pool := slice_delete_request k ?p\<rparr>"
      by (auto split: if_splits)
    have "sp_free (slice_delete_request k ?p) = sp_free ?p" by (simp add: slice_delete_request_def)
    then show ?thesis
      using conns slice_ok_delete [OF ok] slice_chans_ok_delete [OF chans] slice_leave_sums [OF t(1)]
      by (intro slice_inv_upd) (simp_all add: t(2))
  next
    case SDialOk
    with step have t: "SDial \<in># s_calls s"
        "t = s_lend (s_fresh s) ((s_leave SDial s)\<lparr>s_fresh := Suc (s_fresh s)\<rparr>)"
      by (auto split: if_splits)
    show ?thesis using conns ok chans slice_leave_sums [OF t(1)]
      by (intro slice_inv_upd) (simp_all add: t(2))
  next
    case SDialFail
    with step have t: "SDial \<in># s_calls s" "t = s_enter SDialErr (s_leave SDial s)"
      by (auto split: if_splits)
    show ?thesis using conns ok chans slice_leave_sums [OF t(1)]
      by (intro slice_inv_upd) (simp_all add: t(2))
  next
    case SDialUndo
    with step obtain q where t: "SDialErr \<in># s_calls s" "slice_release ?p = Done q"
        "t = (s_leave SDialErr s)\<lparr>s_pool := q\<rparr>"
      by (auto split: if_splits elim: s_releasedE)
    note sums = slice_leave_sums [OF t(1)]
    have "slice_ok q (slice_held (s_leave SDialErr s)) (slice_opening s)"
      using sums(2) by (intro slice_ok_release [OF ok t(2)]) simp_all
    then show ?thesis
      using conns sums slice_chans_ok_release [OF chans t(2)] slice_release_fields [OF t(2)]
      by (intro slice_inv_upd) (simp_all add: t(3))
  next
    case (SPut c forceClose k now)
    with step have t: "c \<in># s_lent s" "put_key_ok k ?p"
        "s_place c (slice_Put now c forceClose k ?p) (s_return c s) = Some t"
      by (auto split: if_splits)
    obtain q out where put: "slice_Put now c forceClose k ?p = Done (q, out)"
      using t(3) by (rule s_placeE)
    note sums = slice_return_sums [OF t(1)]
    have "slice_ok ?p (Suc (slice_held (s_return c s))) (slice_opening s)" using ok sums by simp
    note res = slice_ok_Put [OF this t(2) put]
    show ?thesis
      using conns sums chans
      by (intro slice_inv_place [OF t(3) [unfolded put] res [THEN conjunct2]])
        (simp_all add: res [THEN conjunct1])
  next
    case SClose
    show ?thesis
    proof (cases "sp_closed ?p")
      case True
      with SClose step inv show ?thesis by simp
    next
      case False
      obtain p cs chs where "slice_Close ?p = (p, cs, chs)" using prod_cases3 by blast
      with SClose step inv False show ?thesis by (auto simp: slice_inv_Close)
    qed
  next
    case SStopCall
    with step have t: "SStop \<in># s_calls s" "t = (s_leave SStop s)\<lparr>s_stopped := True\<rparr>"
      by (auto split: if_splits)
    show ?thesis using conns ok chans slice_leave_sums [OF t(1)]
      by (intro slice_inv_upd) (simp_all add: t(2))
  next
    case SOpenerTake
    with step obtain n where n: "sp_opener ?p = Suc n" "s_opener s = OIdle"
        "t = s\<lparr>s_pool := ?p\<lparr>sp_opener := n\<rparr>, s_opener := OOpening\<rparr>"
      by (auto split: nat.splits if_splits)
    have "slice_ok (?p\<lparr>sp_opener := n\<rparr>) (slice_held s) 1"
      using ok n by (clarsimp simp: slice_ok_def slice_opening_def)
    moreover have "slice_opening t = 1" by (simp add: n slice_opening_def)
    ultimately show ?thesis using conns chans
      by (intro slice_inv_upd) (simp_all add: n(3) slice_chans_ok_def)
  next
    case (SOpenerOk k now)
    let ?s1 = "s\<lparr>s_opener := OIdle, s_fresh := Suc (s_fresh s)\<rparr>"
    from SOpenerOk step have t: "s_opener s = OOpening" "put_key_ok k ?p"
        "s_place (s_fresh s) (openNewItem now (Some (s_fresh s)) k ?p) ?s1 = Some t"
      by (auto split: if_splits)
    obtain q out where put: "openNewItem now (Some (s_fresh s)) k ?p = Done (q, out)"
      using t(3) by (rule s_placeE)
    have "slice_ok ?p (slice_held s) (Suc 0)" using ok t(1) by (simp add: slice_opening_def)
    note res = slice_ok_openNewItem [OF this t(2) put]
    have "slice_opening ?s1 = 0" by (simp add: slice_opening_def)
    then show ?thesis
      using conns chans
      by (intro slice_inv_place [OF t(3) [unfolded put] res [THEN conjunct2]])
        (simp_all add: res [THEN conjunct1])
  next
    case SOpenerFail
    with step obtain q where t: "s_opener s = OOpening" "slice_release ?p = Done q"
        "t = s\<lparr>s_pool := q, s_opener := OIdle\<rparr>"
      by (auto simp: openNewItem_def obind_Done_iff split: if_splits elim!: s_releasedE)
    have "slice_ok q (slice_held s) 0"
      using t(1) by (intro slice_ok_release [OF ok t(2)]) (simp_all add: slice_opening_def)
    moreover have "slice_opening t = 0" by (simp add: t slice_opening_def)
    ultimately show ?thesis
      using conns slice_chans_ok_release [OF chans t(2)] slice_release_fields [OF t(2)]
      by (intro slice_inv_upd) (simp_all add: t(3))
  next
    case SOpenerStop
    with step inv show ?thesis
      by (auto simp: slice_inv_def slice_owners_def slice_opening_def split: if_splits)
  next
    case (SClean now)
    with step inv show ?thesis by (auto intro: slice_inv_clean split: if_splits)
  next
    case (SPoke now)
    have poke: "slice_inv (s\<lparr>s_pool := ?p\<lparr>sp_cleaner := k\<rparr>\<rparr>)" for k
      using conns ok chans
      by (intro slice_inv_upd) (simp_all add: slice_chans_ok_def)
    show ?thesis
      using SPoke step inv poke by (auto intro!: slice_inv_clean split: if_splits option.splits nat.splits)
  next
    case (SCleanClose c cs)
    with step have t: "s_cleaner s = SCClosing (c # cs)"
        "t = s_shut_conn c (s\<lparr>s_cleaner := (if cs = [] then SCSelect else SCClosing cs)\<rparr>)"
      by (auto split: if_splits)
    have "slice_away t = slice_away s"
      by (simp add: t s_shut_conn_def slice_away_def)
    then show ?thesis using conns ok chans
      by (intro slice_inv_upd) (simp_all add: t(2))
  qed
qed

interpretation spool: inv_system slice_init slice_step slice_inv
  by unfold_locales (auto intro: slice_inv_init slice_inv_step)

section \<open>Properties of the running pool\<close>

lemma slice_reach_ok:
  "reach slice_init slice_step s \<Longrightarrow> slice_ok (s_pool s) (slice_held s) (slice_opening s)"
  by (drule spool.reach_inv) (simp add: slice_inv_def)

text \<open>
  C3. However the goroutines interleave, every connection that \<open>New\<close> ever made is in exactly one
  place: free, lent to a client, buffered in one request channel, in the hands of one goroutine,
  or closed. None is handed to two waiters, lent twice, or closed twice.
\<close>

theorem slice_conns_conserved:
  assumes "reach slice_init slice_step s"
  shows "slice_owners s = made_conns (s_fresh s)"
  using spool.reach_inv [OF assms] by (simp add: slice_inv_def)

text \<open>
  C7. On an open pool the counter \<open>active\<close> is exact: the free connections, the lent ones, those
  in request channels, those a \<open>Get\<close> is opening, checking or retiring, and those the opener was
  told to open or is opening.
\<close>

theorem slice_active_exact:
  assumes "reach slice_init slice_step s" and "\<not> sp_closed (s_pool s)"
  shows "sp_active (s_pool s) = int (length (sp_free (s_pool s)) + size (s_lent s) + size (s_inbox s)
    + size (filter_mset slice_pc_counted (s_calls s)) + sp_opener (s_pool s) + slice_opening s)"
  using slice_reach_ok [OF assms(1)] assms(2) by (simp add: slice_ok_def slice_held_def)

text \<open>
  C9. A pool with a limit keeps it for the connections it holds or lends: those free, lent, in
  request channels and in the hands of \<open>Get\<close> are never more than \<open>Active\<close>, open or closed. The
  connection of the opener goroutine comes on top of these.
\<close>

theorem slice_active_limit:
  assumes "reach slice_init slice_step s" and "0 < Active (sp_conf (s_pool s))"
  shows "int (length (sp_free (s_pool s)) + size (s_lent s) + size (s_inbox s)
      + size (filter_mset slice_pc_counted (s_calls s))) \<le> Active (sp_conf (s_pool s)) \<and>
    (\<not> sp_closed (s_pool s) \<longrightarrow> sp_active (s_pool s) \<le> Active (sp_conf (s_pool s)) + 1)"
  using slice_reach_ok [OF assms(1)] assms(2) by (clarsimp simp: slice_ok_def slice_held_def)

text \<open>
  C10. No request is forgotten: while a request is pending on an open pool, no connection is free
  and the limit is used up by connections that are out, in transit, or being opened, so that
  there is always something whose return, release or opening serves the request.
\<close>

theorem slice_requests_attended:
  assumes "reach slice_init slice_step s" and "\<not> sp_closed (s_pool s)"
    and "sp_requests (s_pool s) \<noteq> []"
  shows "sp_free (s_pool s) = [] \<and> 0 < Active (sp_conf (s_pool s)) \<and>
    Active (sp_conf (s_pool s)) \<le> int (slice_held s + sp_opener (s_pool s) + slice_opening s)"
  using slice_reach_ok [OF assms(1)] assms(2,3) by (auto simp: slice_ok_def)

lemma slice_ok_release_total:
  assumes ok: "slice_ok p h o'" and "0 < h + o'" and "Active (sp_conf p) \<le> int opener_cap"
  shows "\<exists>q. slice_release p = Done q"
proof (cases "sp_closed p \<or> sp_requests p = []")
  case True
  then show ?thesis
    by (auto simp: slice_release_def maybeOpenNewItems_grant slice_grant_def slice_open_loop_closed)
next
  case False
  then have p: "\<not> sp_closed p" "0 < Active (sp_conf p)" "sp_free p = []"
    "Active (sp_conf p) \<le> sp_active p" "1 \<le> int (length (sp_requests p))"
    "sp_active p = int (h + sp_opener p + o')"
    using ok by (clarsimp simp: slice_ok_def Suc_le_eq)+
  then have "slice_grant (p\<lparr>sp_active := sp_active p - 1\<rparr>)
      = (if sp_active p = Active (sp_conf p) then 1 else 0)"
    by (simp add: slice_grant_def)
  moreover have "sp_opener p < opener_cap" if "sp_active p = Active (sp_conf p)"
    using that p(6) assms(2,3) by linarith
  ultimately show ?thesis
    using p(1) by (cases "sp_active p = Active (sp_conf p)")
      (simp_all add: slice_release_def maybeOpenNewItems_grant Let_def)
qed

text \<open>
  With a limit within the capacity of the opener channel, no release in a reachable state
  blocks: \<open>maybeOpenNewItems\<close> never fills the channel while it holds the mutex.
\<close>

theorem slice_release_never_blocks:
  assumes "reach slice_init slice_step s" and "Active (sp_conf (s_pool s)) \<le> int opener_cap"
    and "0 < slice_held s + slice_opening s"
  shows "\<exists>q. slice_release (s_pool s) = Done q"
  by (rule slice_ok_release_total [OF slice_reach_ok [OF assms(1)] assms(3,2)])


subsection \<open>Concrete runs\<close>

text \<open>A new pool of one connection whose callers wait, with idle timeout \<open>d\<close>.\<close>

definition one_conf :: "int \<Rightarrow> config" where
  "one_conf d = \<lparr>Active = 1, Idle = 1, IdleTimeout = d, WaitTimeout = 0, Wait = True\<rparr>"

definition slice_sys0 :: "int \<Rightarrow> slice_sys" where
  "slice_sys0 d =
     \<lparr>s_pool = \<lparr>sp_conf = one_conf d, sp_mu = False, sp_free = [], sp_requests = [], sp_next = 0,
        sp_made = 0, sp_active = 0, sp_opener = 0, sp_closed = False,
        sp_cleaner = (if d \<le> 0 then None else Some 0), sp_cleaner_closed = False\<rparr>,
      s_calls = {#}, s_opener = OIdle, s_stopped = False,
      s_cleaner = (if d \<le> 0 then SNoCleaner else SCSelect), s_inbox = {#}, s_hung = [],
      s_lent = {#}, s_shut = {#}, s_fresh = 0\<rparr>"

lemma slice_sys0_init: "slice_init (slice_sys0 d)"
proof -
  have "NewSlice (Some (one_conf d)) = Done (s_pool (slice_sys0 d), 0 < d)"
    by (cases "d \<le> 0")
      (simp_all add: NewSlice_def slice_startCleanerLocked_def slice_sys0_def one_conf_def)
  moreover have "slice_sys0 d = slice_start (s_pool (slice_sys0 d), 0 < d)"
    by (simp add: slice_start_def slice_sys0_def)
  ultimately show ?thesis unfolding slice_init_def by blast
qed

lemmas slice_sys0_run = run_from_init [where init = slice_init, OF slice_sys0_init]

lemmas slice_eval =
  slice_sys0_def one_conf_def s_settle_def s_enter_def s_leave_def s_lend_def s_return_def
  s_shut_conn_def s_receive_def s_released_def s_place_def slice_get_begin_def slice_scan_def
  slice_no_free_def nextRequestKeyLocked_def slice_delete_request_def slice_redial_def
  slice_Put_def putItemLocked_def put_key_ok_def slice_release_def maybeOpenNewItems_def
  opener_cap_def expired_def Let_def

text \<open>One connection lent and one request pending.\<close>

lemma slice_demo_run:
  "run slice_step (slice_sys0 0) [SGet, SDialOk, SGet] =
     Some ((slice_sys0 0)\<lparr>s_pool := (s_pool (slice_sys0 0))\<lparr>sp_requests := [(0, 0)], sp_next := 1,
         sp_made := 1, sp_active := 1\<rparr>,
       s_calls := {#SWait 0 0 0#}, s_lent := {#0#}, s_fresh := 1\<rparr>)"
  by (simp add: slice_eval)

definition slice_demo :: slice_sys where
  "slice_demo = (slice_sys0 0)\<lparr>s_pool := (s_pool (slice_sys0 0))\<lparr>sp_requests := [(0, 0)],
       sp_next := 1, sp_made := 1, sp_active := 1\<rparr>,
     s_calls := {#SWait 0 0 0#}, s_lent := {#0#}, s_fresh := 1\<rparr>"

lemma slice_demo_reach: "reach slice_init slice_step slice_demo"
  unfolding slice_demo_def by (rule slice_sys0_run [OF slice_demo_run])

lemmas slice_demo_eval = slice_demo_def slice_sys0_def one_conf_def

theorem slice_conns_conserved_witness: "slice_owners slice_demo = {#0#}"
  using slice_conns_conserved [OF slice_demo_reach] by (simp add: slice_demo_def)

theorem slice_active_exact_witness:
  "sp_active (s_pool slice_demo) = int (size (s_lent slice_demo)) \<and> size (s_lent slice_demo) = 1"
proof -
  have "\<not> sp_closed (s_pool slice_demo)" by (simp add: slice_demo_eval)
  from slice_active_exact [OF slice_demo_reach this] show ?thesis
    by (simp add: slice_demo_eval slice_opening_def)
qed

theorem slice_active_limit_witness:
  "size (s_lent slice_demo) = 1 \<and>
   int (length (sp_free (s_pool slice_demo)) + size (s_lent slice_demo)) \<le> 1"
proof -
  have "0 < Active (sp_conf (s_pool slice_demo))" by (simp add: slice_demo_eval)
  from slice_active_limit [OF slice_demo_reach this] show ?thesis by (simp add: slice_demo_eval)
qed

theorem slice_requests_attended_witness:
  "sp_requests (s_pool slice_demo) = [(0, 0)] \<and> 1 \<le> slice_held slice_demo"
proof -
  have "\<not> sp_closed (s_pool slice_demo)" "sp_requests (s_pool slice_demo) \<noteq> []"
    by (simp_all add: slice_demo_eval)
  from slice_requests_attended [OF slice_demo_reach this] show ?thesis
    by (simp add: slice_demo_eval slice_opening_def)
qed

theorem slice_release_never_blocks_witness: "\<exists>q. slice_release (s_pool slice_demo) = Done q"
  by (rule slice_release_never_blocks [OF slice_demo_reach])
    (simp_all add: slice_demo_eval opener_cap_def slice_held_def)


subsection \<open>Where the limit gives way\<close>

text \<open>
  The limit can be exceeded by one. When a waiter receives an item that has expired, \<open>release\<close>
  gives the freed place to the opener for another waiter and the receiver still counts and opens
  a connection of its own: with \<open>Active = 1\<close> there is a reachable state of an open pool in which
  one connection is lent while the opener opens another.
\<close>

theorem slice_limit_overshoot:
  "\<exists>s. reach slice_init slice_step s \<and> \<not> sp_closed (s_pool s) \<and> Active (sp_conf (s_pool s)) = 1 \<and>
     size (s_lent s) = 1 \<and> s_opener s = OOpening \<and> sp_active (s_pool s) = 2"
proof -
  have "\<exists>s. run slice_step (slice_sys0 1) [SGet, SDialOk, SGet, SGet, SPut 0 False 0 0,
      SRecvExpired 0 0 1 \<lparr>createdAt = 0, item_c = 0\<rparr> 5, SRedial, SDialOk, SOpenerTake] = Some s \<and>
    \<not> sp_closed (s_pool s) \<and> Active (sp_conf (s_pool s)) = 1 \<and> size (s_lent s) = 1 \<and>
    s_opener s = OOpening \<and> sp_active (s_pool s) = 2"
    by (simp add: slice_eval numeral_2_eq_2)
  then show ?thesis using slice_sys0_run by blast
qed

text \<open>The positions in which a goroutine neither holds a connection nor is about to open one.\<close>

fun slice_pc_waits :: "slice_pc \<Rightarrow> bool" where
  "slice_pc_waits (SWait k ch d) = (ch \<noteq> 0)"
| "slice_pc_waits (SLeaving k) = True"
| "slice_pc_waits SStop = True"
| "slice_pc_waits _ = False"

text \<open>
  The only place of the pool is taken by an item in channel \<open>0\<close>, of which no goroutine receives.
\<close>

definition slice_leaked :: "slice_sys \<Rightarrow> bool" where
  "slice_leaked s \<longleftrightarrow> Active (sp_conf (s_pool s)) = 1 \<and> sp_active (s_pool s) = 1 \<and>
     sp_free (s_pool s) = [] \<and> sp_opener (s_pool s) = 0 \<and> 0 < sp_made (s_pool s) \<and>
     s_opener s \<noteq> OOpening \<and> s_lent s = {#} \<and> image_mset fst (s_inbox s) = {#0#} \<and>
     filter_mset (\<lambda>pc. \<not> slice_pc_waits pc) (s_calls s) = {#} \<and>
     slice_cleaner_conns (s_cleaner s) = {#}"

lemma slice_leaked_calls:
  assumes "slice_leaked s" and "pc \<in># s_calls s"
  shows "slice_pc_waits pc"
proof (rule ccontr)
  assume "\<not> slice_pc_waits pc"
  then have "pc \<in># filter_mset (\<lambda>pc. \<not> slice_pc_waits pc) (s_calls s)" using assms(2) by simp
  with assms(1) show False by (auto simp: slice_leaked_def)
qed

lemma slice_leaked_inbox:
  assumes "slice_leaked s" and "(ch, i) \<in># s_inbox s"
  shows "ch = 0"
proof -
  have "ch \<in># image_mset fst (s_inbox s)" using assms(2) by force
  with assms(1) show ?thesis by (simp add: slice_leaked_def)
qed

lemma slice_leaked_move:
  assumes "slice_leaked s" and "pc \<in># s_calls s"
  shows "slice_leaked (s_leave pc s)"
  using assms by (auto simp: slice_leaked_def s_leave_def filter_diff_mset)

lemma slice_leaked_enter:
  "slice_leaked s \<Longrightarrow> slice_pc_waits pc \<Longrightarrow> slice_leaked (s_enter pc s)"
  by (simp add: slice_leaked_def s_enter_def)

lemma slice_leaked_pool:
  assumes "slice_leaked s" and "Active (sp_conf p) = 1" "sp_active p = 1" "sp_free p = []"
    "sp_opener p = 0" "0 < sp_made p"
  shows "slice_leaked (s\<lparr>s_pool := p\<rparr>)"
  using assms by (simp add: slice_leaked_def)

lemma slice_leaked_fields:
  assumes "slice_leaked s"
  shows "Active (sp_conf (s_pool s)) = 1" "sp_active (s_pool s) = 1" "sp_free (s_pool s) = []"
    "sp_opener (s_pool s) = 0" "0 < sp_made (s_pool s)" "s_opener s \<noteq> OOpening" "s_lent s = {#}"
  using assms by (simp_all add: slice_leaked_def)

lemma slice_leaked_wake:
  assumes "slice_leaked s"
  shows "slice_leaked (s_clean_wake now s)"
  using assms
  by (auto simp: slice_leaked_def s_clean_wake_def slice_clean_def slice_clean_loop.simps)

lemma slice_leaked_get:
  assumes "slice_leaked s"
  shows "slice_leaked (s_settle d (slice_get_begin (s_pool s)) s)"
proof (cases "sp_closed (s_pool s)")
  case True
  then have "s_settle d (slice_get_begin (s_pool s)) s = s"
    by (simp add: s_settle_def slice_get_begin_def)
  with assms show ?thesis by simp
next
  case False
  obtain q out where scan: "slice_scan (s_pool s) = (q, out)" by fastforce
  note f = slice_leaked_fields [OF assms]
  from scan have "slice_leaked (s_settle d (q, out) s)"
  proof (cases rule: slice_scan_cases)
    case request
    with f show ?thesis
      by (auto simp: s_settle_def intro!: slice_leaked_enter slice_leaked_pool [OF assms])
  qed (use f assms in \<open>simp_all add: s_settle_def\<close>)
  with False scan show ?thesis by (simp add: slice_get_begin_def)
qed

lemma slice_leaked_step:
  assumes s: "slice_leaked s" and step: "slice_step s e = Some t"
  shows "slice_leaked t"
proof -
  note f = slice_leaked_fields [OF s]
  have no: "\<not> slice_pc_waits pc \<Longrightarrow> pc \<notin># s_calls s" for pc
    using slice_leaked_calls [OF s] by blast
  show ?thesis
  proof (cases e)
    case SGet
    with step have "t = s_settle (IdleTimeout (sp_conf (s_pool s))) (slice_get_begin (s_pool s)) s"
      by simp
    then show ?thesis using slice_leaked_get [OF s] by simp
  next
    case (SRecvTake k ch d i now)
    with step have "SWait k ch d \<in># s_calls s" "(ch, i) \<in># s_inbox s" by (auto split: if_splits)
    with slice_leaked_inbox [OF s] slice_leaked_calls [OF s] show ?thesis by fastforce
  next
    case (SRecvExpired k ch d i now)
    with step have "SWait k ch d \<in># s_calls s" "(ch, i) \<in># s_inbox s" by (auto split: if_splits)
    with slice_leaked_inbox [OF s] slice_leaked_calls [OF s] show ?thesis by fastforce
  next
    case (SRecvClosed k ch d)
    with step slice_leaked_move [OF s] show ?thesis by (auto split: if_splits)
  next
    case (SCtxDone k ch d)
    with step slice_leaked_move [OF s] show ?thesis
      by (auto split: if_splits intro: slice_leaked_enter)
  next
    case (SLeave k)
    have "slice_leaked (u\<lparr>s_pool := slice_delete_request k (s_pool s)\<rparr>)" if "slice_leaked u" for u
      using f by (intro slice_leaked_pool [OF that]) (simp_all add: slice_delete_request_def)
    with SLeave step slice_leaked_move [OF s] show ?thesis by (auto split: if_splits)
  next
    case SClose
    have "slice_leaked (u\<lparr>s_pool := fst (slice_Close (s_pool s)), s_shut := m, s_hung := c\<rparr>)"
      if "slice_leaked u" for u m c
      using that f by (simp add: slice_leaked_def slice_Close_def)
    with SClose step s show ?thesis
      by (auto intro!: slice_leaked_enter split: if_splits prod.splits)
  next
    case SStopCall
    with step slice_leaked_move [OF s] show ?thesis
      by (auto simp: slice_leaked_def split: if_splits)
  next
    case SOpenerStop
    with step s show ?thesis by (auto simp: slice_leaked_def split: if_splits)
  next
    case (SClean now)
    with step slice_leaked_wake [OF s] show ?thesis by (auto split: if_splits)
  next
    case (SPoke now)
    have "slice_leaked (s\<lparr>s_pool := (s_pool s)\<lparr>sp_cleaner := k\<rparr>\<rparr>)" for k
      using f by (intro slice_leaked_pool [OF s]) simp_all
    with SPoke step s show ?thesis
      by (auto intro!: slice_leaked_wake split: if_splits option.splits nat.splits)
  next
    case (SCleanClose c cs)
    with step s show ?thesis by (auto simp: slice_leaked_def split: if_splits)
  qed (use step f in \<open>simp_all add: no\<close>)
qed

interpretation sleaked: inv_system slice_leaked slice_step slice_leaked
  by unfold_locales (assumption, rule slice_leaked_step)

text \<open>
  C17. A place can be lost for ever. A waiter whose context ends deletes its request and returns
  the error without looking into its channel, although an item may already be there: with
  \<open>Active = 1\<close> there is a reachable state of an open pool in which no client and no goroutine
  holds a connection, and from which, whatever happens, no client is ever given one again.
\<close>

theorem slice_timeout_leaks_place:
  "\<exists>s. reach slice_init slice_step s \<and> \<not> sp_closed (s_pool s) \<and> s_calls s = {#} \<and> s_lent s = {#} \<and>
     (\<forall>es t. run slice_step s es = Some t \<longrightarrow> s_lent t = {#})"
proof -
  have "\<exists>s. run slice_step (slice_sys0 0)
      [SGet, SDialOk, SGet, SPut 0 False 0 0, SCtxDone 0 0 0, SLeave 0] = Some s \<and>
    slice_leaked s \<and> \<not> sp_closed (s_pool s) \<and> s_calls s = {#} \<and> s_lent s = {#}"
    by (simp add: slice_eval slice_leaked_def)
  then obtain s where s: "reach slice_init slice_step s" "slice_leaked s"
    "\<not> sp_closed (s_pool s)" "s_calls s = {#}" "s_lent s = {#}"
    using slice_sys0_run by blast
  moreover have "s_lent t = {#}" if "run slice_step s es = Some t" for es t
    using sleaked.run_inv [OF s(2) that] by (rule slice_leaked_fields)
  ultimately show ?thesis by blast
qed

theorem slice_timeout_leaks_place_witness:
  "\<exists>s t. reach slice_init slice_step s \<and> run slice_step s [SGet] = Some t \<and> s_lent t = {#}"
proof -
  obtain s where s: "reach slice_init slice_step s"
    "\<forall>es t. run slice_step s es = Some t \<longrightarrow> s_lent t = {#}"
    using slice_timeout_leaks_place by blast
  have "\<exists>t. run slice_step s [SGet] = Some t" by simp
  with s show ?thesis by blast
qed

end
