(* ===== verification/Pool_Contract.thy ===== *)
theory Pool_Contract
  imports List_Pool_System Slice_Pool_System
begin

text \<open>
  What both pools promise of a connection, as an abstract machine: a connection is not made yet,
  kept by the pool, lent to a client, or shut, and an action moves connections along the edges of
  this life cycle. Every run of the concurrent list pool, and of the concurrent slice pool, shows
  actions that the machine accepts.
\<close>

section \<open>The life cycle of a connection\<close>

datatype place = Unmade | Kept | Lent | Shut

type_synonym places = "conn \<Rightarrow> place"

text \<open>
  What an event of a pool means for connections: nothing, a connection is given to a client, a
  client gives one back, one is opened for the pool, the pool closes some that it keeps, it closes
  one that a client gives back, it closes one that was opened for it.
\<close>

datatype action =
    Internal
  | Give conn
  | Back conn
  | OpenIdle conn
  | CloseKept "conn list"
  | Discard conn
  | OpenRefused conn

definition moved :: "conn \<Rightarrow> place \<Rightarrow> places \<Rightarrow> bool \<Rightarrow> places option" where
  "moved c p f ok = (if ok then Some (f(c := p)) else None)"

fun pool_act :: "places \<Rightarrow> action \<Rightarrow> places option" where
  "pool_act f Internal = Some f"
| "pool_act f (Give c) = moved c Lent f (f c = Kept \<or> f c = Unmade)"
| "pool_act f (Back c) = moved c Kept f (f c = Lent)"
| "pool_act f (OpenIdle c) = moved c Kept f (f c = Unmade)"
| "pool_act f (CloseKept cs) =
     (if distinct cs \<and> (\<forall>c \<in> set cs. f c = Kept)
      then Some (\<lambda>c. if c \<in> set cs then Shut else f c) else None)"
| "pool_act f (Discard c) = moved c Shut f (f c = Lent)"
| "pool_act f (OpenRefused c) = moved c Shut f (f c = Unmade)"

lemma moved_Some [simp]: "moved c p f ok = Some g \<longleftrightarrow> ok \<and> g = f(c := p)"
  by (auto simp: moved_def)

text \<open>A connection that is shut stays shut and is not given out any more.\<close>

lemma act_shut: "pool_act f a = Some g \<Longrightarrow> f c = Shut \<Longrightarrow> g c = Shut \<and> a \<noteq> Give c"
  by (cases a) (auto split: if_splits)

lemma acts_shut: "run pool_act f as = Some g \<Longrightarrow> f c = Shut \<Longrightarrow> g c = Shut \<and> Give c \<notin> set as"
proof (induction as arbitrary: f)
  case (Cons a as)
  then obtain h where h: "pool_act f a = Some h" "run pool_act h as = Some g"
    by (auto split: option.splits)
  with act_shut [OF h(1) Cons.prems(2)] Cons.IH [OF h(2)] show ?case by auto
qed simp

text \<open>A connection that is lent stays so until the client gives it back.\<close>

lemma act_lent:
  "pool_act f a = Some g \<Longrightarrow> f c = Lent \<Longrightarrow> a = Back c \<or> a = Discard c \<or> g c = Lent \<and> a \<noteq> Give c"
  by (cases a) (auto split: if_splits)

lemma acts_lent:
  "run pool_act f as = Some g \<Longrightarrow> f c = Lent \<Longrightarrow> Back c \<notin> set as \<Longrightarrow> Discard c \<notin> set as \<Longrightarrow>
     g c = Lent \<and> Give c \<notin> set as"
proof (induction as arbitrary: f)
  case (Cons a as)
  then obtain h where h: "pool_act f a = Some h" "run pool_act h as = Some g"
    by (auto split: option.splits)
  with act_lent [OF h(1) Cons.prems(2)] Cons.IH [OF h(2)] Cons.prems show ?case by auto
qed simp

lemma acts_split:
  assumes "run pool_act f (as @ a # bs) = Some g"
  obtains h h' where "run pool_act f as = Some h" "pool_act h a = Some h'" "run pool_act h' bs = Some g"
  using assms by (auto simp: run_append split: option.splits)

text \<open>Two loans of one connection have its return between them, and not its closing.\<close>

lemma acts_exclusive:
  assumes "run pool_act f (as @ Give c # bs @ Give c # cs) = Some g"
  shows "Back c \<in> set bs"
proof (rule ccontr)
  assume no: "Back c \<notin> set bs"
  obtain h h' where h: "pool_act h (Give c) = Some h'" "run pool_act h' (bs @ Give c # cs) = Some g"
    using assms by (rule acts_split)
  have lent: "h' c = Lent" using h(1) by simp
  show False
  proof (cases "Discard c \<in> set bs")
    case False
    obtain k where k: "run pool_act h' bs = Some k" "\<exists>k'. pool_act k (Give c) = Some k'"
      using h(2) by (auto elim: acts_split)
    with acts_lent [OF k(1) lent no False] show False by auto
  next
    case True
    then obtain ds es where bs: "bs = ds @ Discard c # es" by (meson split_list)
    obtain k k' where k: "pool_act k (Discard c) = Some k'" "run pool_act k' (es @ Give c # cs) = Some g"
      using h(2) unfolding bs append_assoc append_Cons by (rule acts_split)
    with acts_shut [OF k(2), of c] show False by auto
  qed
qed

section \<open>The moves of a pool's books\<close>

text \<open>
  How a step with a given meaning changes the connections that are lent (\<open>l\<close>) and shut (\<open>d\<close>) and
  the number \<open>n\<close> of those made.
\<close>

inductive conn_move :: "action \<Rightarrow>
  conn multiset \<Rightarrow> conn multiset \<Rightarrow> nat \<Rightarrow> conn multiset \<Rightarrow> conn multiset \<Rightarrow> nat \<Rightarrow> bool" where
  move_none: "conn_move Internal l d n l d n"
| move_lend: "conn_move (Give c) l d n (add_mset c l) d n"
| move_back: "c \<in># l \<Longrightarrow> conn_move (Back c) l d n (l - {#c#}) d n"
| move_shut: "conn_move (CloseKept cs) l d n l (mset cs + d) n"
| move_dial: "conn_move (Give n) l d n (add_mset n l) d (Suc n)"
| move_open: "conn_move (OpenIdle n) l d n l d (Suc n)"
| move_open_shut: "conn_move (OpenRefused n) l d n l (add_mset n d) (Suc n)"
| move_refuse: "c \<in># l \<Longrightarrow> conn_move (Discard c) l d n (l - {#c#}) (add_mset c d) n"

lemma move_shut1: "conn_move (CloseKept [c]) l d n l (add_mset c d) n"
  using move_shut [of "[c]" l d n] by simp

lemmas move_intros = conn_move.intros move_shut1

definition places_of :: "conn multiset \<Rightarrow> conn multiset \<Rightarrow> nat \<Rightarrow> places" where
  "places_of l d n c =
     (if c \<in># l then Lent else if c \<in># d then Shut else if c < n then Kept else Unmade)"

text \<open>The books are in order: what is lent or shut was made, and is in one place only.\<close>

definition books_ok :: "conn multiset \<Rightarrow> conn multiset \<Rightarrow> nat \<Rightarrow> bool" where
  "books_ok l d n \<longleftrightarrow> l + d \<subseteq># made_conns n"

lemma books_count:
  assumes "books_ok l d n"
  shows "count l c + count d c \<le> (if c < n then 1 else 0)"
proof -
  have "count (l + d) c \<le> count (made_conns n) c"
    using assms unfolding books_ok_def by (rule mset_subset_eq_count)
  then show ?thesis by (simp only: count_made_conns count_union)
qed

lemma books_lent:
  assumes "books_ok l d n" and "c \<in># l"
  shows "count l c = 1 \<and> c \<notin># d \<and> c < n"
proof -
  obtain k where "count l c = Suc k" using assms(2) by (rule in_countE)
  then show ?thesis
    using books_count [OF assms(1), of c] by (cases "c < n") (auto simp: not_in_iff)
qed

lemma books_shut:
  assumes "books_ok l d n" and "c \<in># d"
  shows "count d c = 1 \<and> c \<notin># l \<and> c < n"
proof -
  obtain k where "count d c = Suc k" using assms(2) by (rule in_countE)
  then show ?thesis
    using books_count [OF assms(1), of c] by (cases "c < n") (auto simp: not_in_iff)
qed

lemma books_fresh:
  assumes "books_ok l d n"
  shows "n \<notin># l" and "n \<notin># d"
  using books_lent [OF assms, of n] books_shut [OF assms, of n] by auto

lemma books_new_lent:
  assumes "books_ok (add_mset c l) d n"
  shows "c \<notin># l" and "c \<notin># d" and "c < n"
  using books_lent [OF assms, of c] by (auto simp: not_in_iff)

lemma books_new_shut:
  assumes t: "books_ok l (mset cs + d) n"
  shows "distinct cs" and "c \<in> set cs \<Longrightarrow> c \<notin># l \<and> c \<notin># d \<and> c < n"
proof -
  have all: "count l c + (count (mset cs) c + count d c) \<le> (if c < n then 1 else 0)" for c
    using books_count [OF t, of c] by simp
  have "count (mset cs) c \<le> 1" for c
  proof -
    have "count (mset cs) c \<le> (if c < n then 1 else 0)" using all [of c] by linarith
    then show ?thesis by (rule order_trans) simp
  qed
  then show "distinct cs"
    by (metis distinct_count_atmost_1 count_mset_0_iff le_Suc_eq le_zero_eq One_nat_def)
  show "c \<notin># l \<and> c \<notin># d \<and> c < n" if cs: "c \<in> set cs"
  proof -
    have "c \<in># mset cs" using cs by simp
    then obtain k where m: "count (mset cs) c = Suc k" by (rule in_countE)
    with all [of c] show ?thesis by (cases "c < n") (auto simp: not_in_iff)
  qed
qed

lemma move_refines:
  assumes "conn_move a l d n l' d' n'" and s: "books_ok l d n" and t: "books_ok l' d' n'"
  shows "pool_act (places_of l d n) a = Some (places_of l' d' n')"
  using assms(1)
proof cases
  case (move_lend c)
  note c = books_new_lent [OF t [unfolded move_lend]]
  then show ?thesis using move_lend by (auto simp: places_of_def fun_eq_iff)
next
  case (move_back c)
  with s books_lent [of l d n c] have "count l c = 1" "c \<notin># d" "c < n" by auto
  then show ?thesis using move_back by (auto simp: places_of_def fun_eq_iff in_diff_count)
next
  case (move_shut cs)
  note c = books_new_shut [OF t [unfolded move_shut]]
  then show ?thesis using move_shut by (auto simp: places_of_def fun_eq_iff)
next
  case (move_refuse c)
  with s books_lent [of l d n c] have "count l c = 1" "c \<notin># d" "c < n" by auto
  then show ?thesis using move_refuse by (auto simp: places_of_def fun_eq_iff in_diff_count)
qed (use books_fresh [OF s] in \<open>auto simp: places_of_def fun_eq_iff\<close>)

section \<open>The contract\<close>

text \<open>What a run shows: the meaning of each of its events.\<close>

fun trace :: "('s \<Rightarrow> 'e \<Rightarrow> 's option) \<Rightarrow> ('s \<Rightarrow> 'e \<Rightarrow> action) \<Rightarrow> 's \<Rightarrow> 'e list \<Rightarrow> action list" where
  "trace step act s [] = []"
| "trace step act s (e # es) =
     act s e # (case step s e of None \<Rightarrow> [] | Some t \<Rightarrow> trace step act t es)"

text \<open>
  A system that keeps such books in order implements the abstract pool: nothing is made in its
  initial states, and the machine accepts what its runs show.
\<close>

locale conn_pool = inv_system init step inv
  for init :: "'s \<Rightarrow> bool" and step :: "'s \<Rightarrow> 'e \<Rightarrow> 's option" and inv :: "'s \<Rightarrow> bool" +
  fixes act :: "'s \<Rightarrow> 'e \<Rightarrow> action"
    and lent :: "'s \<Rightarrow> conn multiset" and shut :: "'s \<Rightarrow> conn multiset" and made :: "'s \<Rightarrow> nat"
  assumes books: "inv s \<Longrightarrow> books_ok (lent s) (shut s) (made s)"
    and start: "init s \<Longrightarrow> made s = 0"
    and moves: "step s e = Some t \<Longrightarrow>
      conn_move (act s e) (lent s) (shut s) (made s) (lent t) (shut t) (made t)"
begin

definition places :: "'s \<Rightarrow> places" where
  "places s = places_of (lent s) (shut s) (made s)"

lemma start_places: "init s \<Longrightarrow> places s = (\<lambda>c. Unmade)"
  using books [OF inv_init, of s] start [of s] books_lent books_shut
  by (force simp: places_def places_of_def fun_eq_iff)

lemma step_refines: "inv s \<Longrightarrow> step s e = Some t \<Longrightarrow> pool_act (places s) (act s e) = Some (places t)"
  unfolding places_def
  by (rule move_refines [OF moves books books]) (auto intro: inv_step)

lemma run_refines:
  "inv s \<Longrightarrow> run step s es = Some t \<Longrightarrow> run pool_act (places s) (trace step act s es) = Some (places t)"
proof (induction es arbitrary: s)
  case (Cons e es)
  from Cons.prems(2) obtain u where u: "step s e = Some u" "run step u es = Some t"
    by (auto split: option.splits)
  with step_refines [OF Cons.prems(1) u(1)] Cons.IH [OF inv_step [OF Cons.prems(1) u(1)] u(2)]
  show ?case by simp
qed simp

lemma start_refines:
  assumes "init s" and "run step s es = Some t"
  shows "run pool_act (\<lambda>c. Unmade) (trace step act s es) = Some (places t)"
  using run_refines [OF inv_init [OF assms(1)] assms(2)] start_places [OF assms(1)] by simp

lemma exclusive:
  assumes "init s" and "run step s es = Some t"
    and "trace step act s es = as @ Give c # bs @ Give c # cs"
  shows "Back c \<in> set bs"
  using start_refines [OF assms(1,2)] unfolding assms(3) by (rule acts_exclusive)

end

section \<open>The list pool\<close>

lemma list_fields [simp]:
  "l_lent (l_leave pc s) = l_lent s" "l_lent (l_enter pc s) = l_lent s"
  "l_lent (l_settle po s) = l_lent s" "l_lent (l_shut_conn c s) = l_lent s"
  "l_lent (l_lend c s) = add_mset c (l_lent s)" "l_lent (l_return c s) = l_lent s - {#c#}"
  "l_lent (l_clean_from i n now s) = l_lent s" "l_lent (l_clean_wake now s) = l_lent s"
  "l_lent (l_start_cleaner b s) = l_lent s"
  "l_shut (l_leave pc s) = l_shut s" "l_shut (l_enter pc s) = l_shut s"
  "l_shut (l_settle po s) = l_shut s" "l_shut (l_shut_conn c s) = add_mset c (l_shut s)"
  "l_shut (l_lend c s) = l_shut s" "l_shut (l_return c s) = l_shut s"
  "l_shut (l_clean_from i n now s) = l_shut s" "l_shut (l_clean_wake now s) = l_shut s"
  "l_shut (l_start_cleaner b s) = l_shut s"
  "l_fresh (l_leave pc s) = l_fresh s" "l_fresh (l_enter pc s) = l_fresh s"
  "l_fresh (l_settle po s) = l_fresh s" "l_fresh (l_shut_conn c s) = l_fresh s"
  "l_fresh (l_lend c s) = l_fresh s" "l_fresh (l_return c s) = l_fresh s"
  "l_fresh (l_clean_from i n now s) = l_fresh s" "l_fresh (l_clean_wake now s) = l_fresh s"
  "l_fresh (l_start_cleaner b s) = l_fresh s"
  by (simp_all add: l_leave_def l_enter_def l_settle_def l_shut_conn_def l_lend_def l_return_def
      l_clean_from_def l_clean_wake_def l_start_cleaner_def Let_def split: list_get_out.split prod.split)

fun list_action :: "list_sys \<Rightarrow> list_ev \<Rightarrow> action" where
  "list_action s (LTake ic i n now) = Give (item_c ic)"
| "list_action s LDialOk = Give (l_fresh s)"
| "list_action s (LPut c forceClose now) = Back c"
| "list_action s (LExpire ic i n now) = CloseKept [item_c ic]"
| "list_action s (LPutClose c) = CloseKept [c]"
| "list_action s (LCloseOne c cs) = CloseKept [c]"
| "list_action s (LCleanClose ic i n now) = CloseKept [item_c ic]"
| "list_action s e = Internal"

lemma list_moves:
  "list_step s e = Some t \<Longrightarrow> conn_move (list_action s e) (l_lent s) (l_shut s) (l_fresh s) (l_lent t) (l_shut t) (l_fresh t)"
  by (cases e) (auto simp: Let_def split: if_splits prod.splits option.splits nat.splits intro: move_intros)

lemma list_books:
  assumes "list_inv s"
  shows "books_ok (l_lent s) (l_shut s) (l_fresh s)"
proof -
  have "list_owners s = (l_lent s + l_shut s) + (conns_of (lp_idles (l_pool s))
      + \<Sum>\<^sub># (image_mset list_pc_conns (l_calls s)) + list_cleaner_conns (l_cleaner s))"
    by (simp add: list_owners_def list_away_def ac_simps)
  then have "l_lent s + l_shut s \<subseteq># list_owners s" by simp
  with assms show ?thesis by (simp add: list_inv_def books_ok_def)
qed

interpretation lconn: conn_pool list_init list_step list_inv list_action l_lent l_shut l_fresh
  by unfold_locales
    (auto simp: list_books list_moves list_init_def list_start_def l_start_cleaner_def)

section \<open>The slice pool\<close>


lemma slice_fields [simp]:
  "s_lent (s_leave pc s) = s_lent s" "s_lent (s_enter pc s) = s_lent s"
  "s_lent (s_shut_conn c s) = s_lent s" "s_lent (s_lend c s) = add_mset c (s_lent s)"
  "s_lent (s_return c s) = s_lent s - {#c#}" "s_lent (s_receive ch i s) = s_lent s"
  "s_shut (s_leave pc s) = s_shut s" "s_shut (s_enter pc s) = s_shut s"
  "s_shut (s_shut_conn c s) = add_mset c (s_shut s)" "s_shut (s_lend c s) = s_shut s"
  "s_shut (s_return c s) = s_shut s" "s_shut (s_receive ch i s) = s_shut s"
  by (simp_all add: s_leave_def s_enter_def s_lend_def s_shut_conn_def s_return_def s_receive_def)

text \<open>
  What \<open>putItemLocked\<close> does with a connection decides whether it is kept or closed.
\<close>

fun put_refused :: "(slice_pool \<times> put_out) outcome \<Rightarrow> bool" where
  "put_refused (Done (p, Refused)) = True"
| "put_refused _ = False"

fun slice_action :: "slice_sys \<Rightarrow> slice_ev \<Rightarrow> action" where
  "slice_action s (STake i d now) = Give (item_c i)"
| "slice_action s (SRecvTake k ch d i now) = Give (item_c i)"
| "slice_action s SDialOk = Give (s_fresh s)"
| "slice_action s (SPut c forceClose k now) =
     (if put_refused (slice_Put now c forceClose k (s_pool s)) then Discard c else Back c)"
| "slice_action s (SExpire i d now) = CloseKept [item_c i]"
| "slice_action s (SRecvExpired k ch d i now) = CloseKept [item_c i]"
| "slice_action s SClose =
     (if sp_closed (s_pool s) then Internal else CloseKept (fst (snd (slice_Close (s_pool s)))))"
| "slice_action s (SOpenerOk k now) =
     (if put_refused (openNewItem now (Some (s_fresh s)) k (s_pool s))
      then OpenRefused (s_fresh s) else OpenIdle (s_fresh s))"
| "slice_action s (SCleanClose c cs) = CloseKept [c]"
| "slice_action s e = Internal"

lemma slice_moves:
  assumes "slice_step s e = Some t"
  shows "conn_move (slice_action s e) (s_lent s) (s_shut s) (s_fresh s) (s_lent t) (s_shut t) (s_fresh t)"
proof (cases e)
  case (SPut c fc k now)
  with assms have c: "c \<in># s_lent s"
    and "s_place c (slice_Put now c fc k (s_pool s)) (s_return c s) = Some t"
    by (auto split: if_splits)
  then show ?thesis
    by (auto simp: SPut s_place_def s_shut_conn_def s_return_def intro: move_intros
        split: outcome.splits prod.splits put_out.splits if_splits)
next
  case (SOpenerOk k now)
  with assms have
    "s_place (s_fresh s) (openNewItem now (Some (s_fresh s)) k (s_pool s))
       (s\<lparr>s_opener := OIdle, s_fresh := Suc (s_fresh s)\<rparr>) = Some t"
    by (auto split: if_splits)
  then show ?thesis
    by (auto simp: SOpenerOk s_place_def s_shut_conn_def intro: move_intros
        split: outcome.splits prod.splits put_out.splits if_splits)
qed (use assms in \<open>auto simp: s_released_def s_settle_def s_clean_wake_def Let_def intro: move_intros
    split: if_splits prod.splits option.splits nat.splits outcome.splits slice_get_out.splits\<close>)

lemma slice_books:
  assumes "slice_inv s"
  shows "books_ok (s_lent s) (s_shut s) (s_fresh s)"
proof -
  have "slice_owners s = (s_lent s + s_shut s) + (conns_of (sp_free (s_pool s))
      + inbox_conns (s_inbox s) + \<Sum>\<^sub># (image_mset slice_pc_conns (s_calls s))
      + slice_cleaner_conns (s_cleaner s))"
    by (simp add: slice_owners_def slice_away_def ac_simps)
  then have "s_lent s + s_shut s \<subseteq># slice_owners s" by simp
  with assms show ?thesis by (simp add: slice_inv_def books_ok_def)
qed

interpretation sconn: conn_pool slice_init slice_step slice_inv slice_action s_lent s_shut s_fresh
  by unfold_locales (auto simp: slice_books slice_moves slice_init_def slice_start_def)

section \<open>Both pools implement the contract\<close>

text \<open>
  C2. The list pool refines the life cycle machine. Run any sequence of events of the concurrent
  list pool from a new pool: the actions it shows (connections given out, given back, closed) are
  accepted by the machine, in which a connection is given out only when it is new or kept, and
  closed only when the pool keeps it. The place of every connection at the end is the machine's.
\<close>

theorem list_refines_pool:
  assumes "list_init s" and "run list_step s es = Some t"
  shows "run pool_act (\<lambda>c. Unmade) (trace list_step list_action s es)
    = Some (places_of (l_lent t) (l_shut t) (l_fresh t))"
  using lconn.start_refines [OF assms] by (simp only: lconn.places_def)

text \<open>
  C4. The slice pool refines the same machine: goroutines in Get and Put, the opener, the cleaner
  and Close together show a sequence of actions that the machine accepts.
\<close>

theorem slice_refines_pool:
  assumes "slice_init s" and "run slice_step s es = Some t"
  shows "run pool_act (\<lambda>c. Unmade) (trace slice_step slice_action s es)
    = Some (places_of (s_lent t) (s_shut t) (s_fresh t))"
  using sconn.start_refines [OF assms] by (simp only: sconn.places_def)

text \<open>
  No connection of the list pool is given to two clients at a time, in any run: between two
  calls of Get that return the same connection a client has put it back.
\<close>

theorem list_loans_alternate:
  assumes "list_init s" and "run list_step s es = Some t"
    and "trace list_step list_action s es = as @ Give c # bs @ Give c # cs"
  shows "Back c \<in> set bs"
  using assms by (rule lconn.exclusive)

text \<open>
  C5. No connection of the slice pool is given to two clients at a time, in any run, whether it
  comes from the free list, from a request channel or from New.
\<close>

theorem slice_loans_alternate:
  assumes "slice_init s" and "run slice_step s es = Some t"
    and "trace slice_step slice_action s es = as @ Give c # bs @ Give c # cs"
  shows "Back c \<in> set bs"
  using assms by (rule sconn.exclusive)

text \<open>One connection, lent, put back and lent again; in the slice pool it is handed to a waiter.\<close>

definition list_demo_evs :: "list_ev list" where
  "list_demo_evs =
     [LGet, LDialOk, LPut 0 False 0, LGet, LTake \<lparr>createdAt = 0, item_c = 0\<rparr> 0 1 0]"

definition slice_demo_evs :: "slice_ev list" where
  "slice_demo_evs =
     [SGet, SDialOk, SGet, SPut 0 False 0 0, SRecvTake 0 0 0 \<lparr>createdAt = 0, item_c = 0\<rparr> 0]"

lemma list_loans_run:
  obtains t where "run list_step (list_sys0 wait_conf) list_demo_evs = Some t"
    and "l_lent t = {#0#}" "l_shut t = {#}" "l_fresh t = 1"
  by (simp add: list_demo_evs_def list_eval expired_def)

lemma list_loans_trace:
  "trace list_step list_action (list_sys0 wait_conf) list_demo_evs
     = [Internal, Give 0, Back 0, Internal, Give 0]"
  by (simp add: list_demo_evs_def list_eval expired_def)

lemma slice_loans_run:
  obtains t where "run slice_step (slice_sys0 0) slice_demo_evs = Some t"
    and "s_lent t = {#0#}" "s_shut t = {#}" "s_fresh t = 1"
  by (simp add: slice_demo_evs_def slice_eval)

lemma slice_loans_trace:
  "trace slice_step slice_action (slice_sys0 0) slice_demo_evs
     = [Internal, Give 0, Internal, Back 0, Give 0]"
  by (simp add: slice_demo_evs_def slice_eval)

theorem list_refines_pool_witness:
  "run pool_act (\<lambda>c. Unmade) [Internal, Give 0, Back 0, Internal, Give 0]
     = Some (places_of {#0#} {#} 1)"
proof -
  obtain t where "run list_step (list_sys0 wait_conf) list_demo_evs = Some t"
    and "l_lent t = {#0#}" "l_shut t = {#}" "l_fresh t = 1" by (rule list_loans_run)
  then show ?thesis
    using list_refines_pool [OF list_wait_init, of list_demo_evs t] by (simp only: list_loans_trace)
qed

theorem slice_refines_pool_witness:
  "run pool_act (\<lambda>c. Unmade) [Internal, Give 0, Internal, Back 0, Give 0]
     = Some (places_of {#0#} {#} 1)"
proof -
  obtain t where "run slice_step (slice_sys0 0) slice_demo_evs = Some t"
    and "s_lent t = {#0#}" "s_shut t = {#}" "s_fresh t = 1" by (rule slice_loans_run)
  then show ?thesis
    using slice_refines_pool [OF slice_sys0_init, of 0 slice_demo_evs t]
    by (simp only: slice_loans_trace)
qed

theorem list_loans_alternate_witness: "Back (0::conn) \<in> set [Back 0, Internal]"
proof -
  obtain t where t: "run list_step (list_sys0 wait_conf) list_demo_evs = Some t"
    by (rule list_loans_run)
  show ?thesis
    by (rule list_loans_alternate [OF list_wait_init t, of "[Internal]" 0 "[Back 0, Internal]" "[]"])
      (simp add: list_loans_trace)
qed

theorem slice_loans_alternate_witness: "Back (0::conn) \<in> set [Internal, Back 0]"
proof -
  obtain t where t: "run slice_step (slice_sys0 0) slice_demo_evs = Some t"
    by (rule slice_loans_run)
  show ?thesis
    by (rule slice_loans_alternate [OF slice_sys0_init t, of "[Internal]" 0 "[Internal, Back 0]" "[]"])
      (simp add: slice_loans_trace)
qed

end
