(* ===== verification/Pool_Rest.thy ===== *)
theory Pool_Rest
  imports List_Pool_System Slice_Pool_System
begin

text \<open>
  A pool that is left alone comes to rest: when no client calls it and its cleaner's timer does
  not fire, the goroutines inside it make finitely many steps, with an explicit bound, and as long
  as one of them is not done some step is possible.
\<close>

section \<open>Systems that come to rest\<close>

text \<open>
  \<open>work\<close> bounds the steps that are left, \<open>extra\<close> is the new work that an event may bring in.
\<close>

locale settling =
  fixes step :: "'s \<Rightarrow> 'e \<Rightarrow> 's option"
    and inv :: "'s \<Rightarrow> bool"
    and own :: "'e \<Rightarrow> bool"
    and extra :: "'e \<Rightarrow> nat"
    and work :: "'s \<Rightarrow> nat"
    and rest :: "'s \<Rightarrow> bool"
  assumes keeps: "inv s \<Longrightarrow> step s e = Some t \<Longrightarrow> inv t"
    and falls: "inv s \<Longrightarrow> own e \<Longrightarrow> step s e = Some t \<Longrightarrow> Suc (work t) \<le> work s + extra e"
    and moves_on: "inv s \<Longrightarrow> \<not> rest s \<Longrightarrow> \<exists>e t. own e \<and> extra e = 0 \<and> step s e = Some t"
begin

lemma run_keeps: "inv s \<Longrightarrow> run step s es = Some t \<Longrightarrow> inv t"
  by (induction es arbitrary: s) (auto dest: keeps split: option.splits)

lemma bounded:
  "inv s \<Longrightarrow> run step s es = Some t \<Longrightarrow> list_all own es \<Longrightarrow>
     length es + work t \<le> work s + sum_list (map extra es)"
proof (induction es arbitrary: s)
  case (Cons e es)
  from Cons.prems(2) obtain u where u: "step s e = Some u" "run step u es = Some t"
    by (auto split: option.splits)
  have own: "own e" "list_all own es" using Cons.prems(3) by simp_all
  from Cons.IH [OF keeps [OF Cons.prems(1) u(1)] u(2) own(2)] falls [OF Cons.prems(1) own(1) u(1)]
  show ?case by simp
qed simp

lemma finishes: "inv s \<Longrightarrow> \<exists>es t. run step s es = Some t \<and> list_all own es \<and> rest t"
proof (induction "work s" arbitrary: s rule: less_induct)
  case less
  show ?case
  proof (cases "rest s")
    case True
    then have "run step s [] = Some s \<and> list_all own [] \<and> rest s" by simp
    then show ?thesis by blast
  next
    case False
    with moves_on less.prems obtain e u where u: "own e" "extra e = 0" "step s e = Some u"
      by blast
    from falls [OF less.prems u(1,3)] u(2) have "work u < work s" by simp
    with less.hyps keeps [OF less.prems u(3)] obtain es t
      where "run step u es = Some t" "list_all own es" "rest t" by blast
    with u have "run step s (e # es) = Some t \<and> list_all own (e # es) \<and> rest t" by simp
    then show ?thesis by blast
  qed
qed

end

section \<open>The list pool\<close>

text \<open>The events in which neither a client calls the pool nor the cleaner is woken.\<close>

fun list_own :: "list_ev \<Rightarrow> bool" where
  "list_own LGet = False"
| "list_own (LPut c forceClose now) = False"
| "list_own LClose = False"
| "list_own (LReload c) = False"
| "list_own (LTick now) = False"
| "list_own (LPoke now) = False"
| "list_own e = True"

text \<open>The steps a goroutine may still make and cause, by its position.\<close>

fun list_pc_work :: "list_pc \<Rightarrow> nat" where
  "list_pc_work (LPopped ic i n) = 8"
| "list_pc_work (LReap i n) = 7"
| "list_pc_work LDial = 4"
| "list_pc_work LDialErr = 3"
| "list_pc_work LWait = 4"
| "list_pc_work (LClosePut c) = 1"
| "list_pc_work (LCloseAll cs) = length cs"

definition list_pool_work :: "list_pool \<Rightarrow> nat" where
  "list_pool_work p = 4 * length (lp_idles p) + 3 * lp_recvq p + 5 * lp_woken p"

fun list_out_work :: "list_get_out \<Rightarrow> nat" where
  "list_out_work (Popped ic i n) = 8"
| "list_out_work Dialing = 4"
| "list_out_work Waiting = 4"
| "list_out_work (Failed e) = 0"

fun list_cleaner_work :: "list_cleaner \<Rightarrow> nat" where
  "list_cleaner_work (CClosing ic i n) = 1"
| "list_cleaner_work _ = 0"

definition list_work :: "list_sys \<Rightarrow> nat" where
  "list_work s = list_pool_work (l_pool s) + \<Sum>\<^sub># (image_mset list_pc_work (l_calls s))
     + list_cleaner_work (l_cleaner s)"

text \<open>At rest: every call has returned, and the cleaner waits or is gone.\<close>

definition list_rest :: "list_sys \<Rightarrow> bool" where
  "list_rest s \<longleftrightarrow> set_mset (l_calls s) \<subseteq> {LCloseAll []} \<and> lp_recvq (l_pool s) = 0 \<and>
     lp_woken (l_pool s) = 0 \<and> (\<forall>ic i n. l_cleaner s \<noteq> CClosing ic i n)"

lemma list_signal_work: "list_pool_work (list_signal p) \<le> list_pool_work p + 2"
  by (cases "lp_recvq p") (simp_all add: list_signal_def list_pool_work_def)

lemma list_release_work: "list_pool_work (list_release p) \<le> list_pool_work p + 2"
  using list_signal_work [of "p\<lparr>lp_active := lp_active p - 1\<rparr>"]
  by (simp add: list_release_def list_pool_work_def)

lemma list_scan_work:
  "list_pool_work (fst (list_scan i n p)) + list_out_work (snd (list_scan i n p)) \<le> list_pool_work p + 4"
  by (simp add: list_scan_def list_after_scan_def list_pool_work_def split: list.split)

lemma list_work_enter [simp]: "list_work (l_enter pc s) = list_work s + list_pc_work pc"
  by (simp add: list_work_def l_enter_def)

lemma list_work_leave:
  "pc \<in># l_calls s \<Longrightarrow> list_work s = list_work (l_leave pc s) + list_pc_work pc"
  by (simp add: list_work_def l_leave_def sum_image_diff [of pc "l_calls s"])

lemma list_work_books [simp]:
  "list_work (l_lend c s) = list_work s" "list_work (l_shut_conn c s) = list_work s"
  "list_work (s\<lparr>l_fresh := n\<rparr>) = list_work s"
  by (simp_all add: list_work_def l_lend_def l_shut_conn_def)

lemma list_work_pool:
  "list_work (s\<lparr>l_pool := p\<rparr>) + list_pool_work (l_pool s) = list_work s + list_pool_work p"
  by (simp add: list_work_def)

lemma list_work_settle:
  "list_work (l_settle po s) + list_pool_work (l_pool s)
     = list_work s + list_pool_work (fst po) + list_out_work (snd po)"
  using list_work_pool [where s = s and p = "fst po"] by (cases "snd po") (simp_all add: l_settle_def)

lemma list_clean_turn_work:
  assumes "list_clean_turn i n now p = (q, gone)"
  shows "list_pool_work q + (case gone of None \<Rightarrow> 0 | Some ic \<Rightarrow> 2) \<le> list_pool_work p"
proof (cases "lp_idles p = []")
  case False
  then have "list_pool_work (p\<lparr>lp_idles := butlast (lp_idles p)\<rparr>) + 4 = list_pool_work p"
    by (cases "lp_idles p") (simp_all add: list_pool_work_def)
  with assms list_release_work [of "p\<lparr>lp_idles := butlast (lp_idles p)\<rparr>"] show ?thesis
    by (auto simp: list_clean_turn_def Let_def split: if_splits)
qed (use assms in \<open>auto simp: list_clean_turn_def\<close>)

lemma list_own_work:
  assumes "list_own e" and "list_step s e = Some t"
  shows "Suc (list_work t) \<le> list_work s"
proof (cases e)
  case (LRescan i n)
  with assms have pc: "LReap i n \<in># l_calls s"
    and t: "t = l_settle (list_scan (Suc i) n (list_release (l_pool s))) (l_leave (LReap i n) s)"
    by (auto split: if_splits)
  from list_work_settle [of "list_scan (Suc i) n (list_release (l_pool s))" "l_leave (LReap i n) s"]
    list_scan_work [of "Suc i" n "list_release (l_pool s)"] list_release_work [of "l_pool s"]
    list_work_leave [OF pc]
  show ?thesis unfolding t by simp
next
  case LDialUndo
  with assms have pc: "LDialErr \<in># l_calls s"
    and t: "t = (l_leave LDialErr s)\<lparr>l_pool := list_release (l_pool s)\<rparr>"
    by (auto split: if_splits)
  from list_work_pool [where s = "l_leave LDialErr s" and p = "list_release (l_pool s)"]
    list_release_work [of "l_pool s"] list_work_leave [OF pc]
  show ?thesis unfolding t by simp
next
  case LPark
  let ?q = "(l_pool s)\<lparr>lp_recvq := Suc (lp_recvq (l_pool s))\<rparr>"
  from LPark assms have pc: "LWait \<in># l_calls s" and t: "t = (l_leave LWait s)\<lparr>l_pool := ?q\<rparr>"
    by (auto split: if_splits)
  from list_work_pool [where s = "l_leave LWait s" and p = ?q] list_work_leave [OF pc]
  show ?thesis unfolding t by (simp add: list_pool_work_def)
next
  case LResume
  let ?q = "(l_pool s)\<lparr>lp_woken := lp_woken (l_pool s) - 1\<rparr>"
  from LResume assms have w: "0 < lp_woken (l_pool s)" and t: "t = l_settle (list_loop ?q) s"
    by (auto split: if_splits)
  have "list_pool_work ?q + 5 = list_pool_work (l_pool s)"
    using w by (cases "lp_woken (l_pool s)") (simp_all add: list_pool_work_def)
  with list_work_settle [of "list_loop ?q" s] list_scan_work [of 0 "length (lp_idles ?q)" ?q]
  show ?thesis unfolding t by (simp add: list_loop_def)
next
  case (LCleanClose ic i n now)
  with assms have c: "l_cleaner s = CClosing ic i n"
    and t: "t = l_clean_from (Suc i) n now (l_shut_conn (item_c ic) s)"
    by (auto split: if_splits)
  obtain q gone where turn: "list_clean_turn (Suc i) n now (l_pool s) = (q, gone)" by fastforce
  from list_clean_turn_work [OF turn] show ?thesis
    unfolding t by (cases gone) (simp_all add: l_clean_from_def l_shut_conn_def turn list_work_def c)
qed (use assms in \<open>auto simp: list_work_def list_pool_work_def l_leave_def l_enter_def l_lend_def
    l_shut_conn_def dest!: multi_member_split split: if_splits\<close>)

lemma list_moves_on:
  assumes "\<not> list_rest s"
  shows "\<exists>e t. list_own e \<and> list_step s e = Some t"
proof -
  consider (call) pc where "pc \<in># l_calls s" "pc \<noteq> LCloseAll []"
    | (parked) "0 < lp_recvq (l_pool s)" | (woken) "0 < lp_woken (l_pool s)"
    | (cleaning) ic i n where "l_cleaner s = CClosing ic i n"
    using assms unfolding list_rest_def by blast
  then show ?thesis
  proof cases
    case call
    show ?thesis
    proof (cases pc)
      case (LPopped ic i n)
      show ?thesis
      proof (cases "expired ic (IdleTimeout (lp_conf (l_pool s))) 0")
        case True
        with call LPopped show ?thesis by (intro exI [of _ "LExpire ic i n 0"]) simp
      next
        case False
        with call LPopped show ?thesis by (intro exI [of _ "LTake ic i n 0"]) simp
      qed
    next
      case (LReap i n)
      with call show ?thesis by (intro exI [of _ "LRescan i n"]) simp
    next
      case LDial
      with call show ?thesis by (intro exI [of _ LDialOk]) simp
    next
      case LDialErr
      with call show ?thesis by (intro exI [of _ LDialUndo]) simp
    next
      case LWait
      with call show ?thesis by (intro exI [of _ LPark]) simp
    next
      case (LClosePut c)
      with call show ?thesis by (intro exI [of _ "LPutClose c"]) simp
    next
      case (LCloseAll cs)
      with call obtain c ds where "cs = c # ds" by (cases cs) auto
      with call LCloseAll show ?thesis by (intro exI [of _ "LCloseOne c ds"]) simp
    qed
  next
    case parked
    then show ?thesis by (intro exI [of _ LCtxDone]) simp
  next
    case woken
    then show ?thesis by (intro exI [of _ LResume]) simp
  next
    case cleaning
    then show ?thesis by (intro exI [of _ "LCleanClose ic i n 0"]) simp
  qed
qed

interpretation lrest: settling list_step "\<lambda>s. True" list_own "\<lambda>e. 0" list_work list_rest
  by unfold_locales (auto dest!: list_moves_on intro: list_own_work)

section \<open>The slice pool\<close>

fun slice_own :: "slice_ev \<Rightarrow> bool" where
  "slice_own SGet = False"
| "slice_own (SPut c forceClose k now) = False"
| "slice_own SClose = False"
| "slice_own (SClean now) = False"
| "slice_own (SPoke now) = False"
| "slice_own e = True"

text \<open>
  When \<open>New\<close> fails in the opener the place is released, and a request that still waits makes the
  opener try again: two steps more for each failure.
\<close>

fun slice_extra :: "slice_ev \<Rightarrow> nat" where
  "slice_extra SOpenerFail = 2"
| "slice_extra _ = 0"

fun slice_pc_work :: "slice_pc \<Rightarrow> nat" where
  "slice_pc_work (SPopped i d) = 18"
| "slice_pc_work (SReap d) = 17"
| "slice_pc_work (SWait k ch d) = 12"
| "slice_pc_work (SLeaving k) = 1"
| "slice_pc_work SReapReq = 11"
| "slice_pc_work SDial = 6"
| "slice_pc_work SDialErr = 5"
| "slice_pc_work SStop = 1"

definition slice_pool_work :: "slice_pool \<Rightarrow> nat" where
  "slice_pool_work p = 2 * length (sp_free p) + 4 * sp_opener p"

fun slice_out_work :: "slice_get_out \<Rightarrow> nat" where
  "slice_out_work (SPop i) = 18"
| "slice_out_work SDialing = 6"
| "slice_out_work (SRequested k ch) = 12"
| "slice_out_work (SFailed e) = 0"

fun slice_opener_work :: "slice_opener \<Rightarrow> nat" where
  "slice_opener_work OIdle = 1"
| "slice_opener_work OOpening = 4"
| "slice_opener_work OExit = 0"

fun slice_cleaner_work :: "slice_cleaner \<Rightarrow> nat" where
  "slice_cleaner_work (SCClosing cs) = length cs"
| "slice_cleaner_work _ = 0"

definition slice_work :: "slice_sys \<Rightarrow> nat" where
  "slice_work s = slice_pool_work (s_pool s) + \<Sum>\<^sub># (image_mset slice_pc_work (s_calls s))
     + slice_opener_work (s_opener s) + slice_cleaner_work (s_cleaner s)"

definition slice_rest :: "slice_sys \<Rightarrow> bool" where
  "slice_rest s \<longleftrightarrow> s_calls s = {#} \<and> s_opener s \<noteq> OOpening \<and>
     (s_opener s = OIdle \<longrightarrow> sp_opener (s_pool s) = 0 \<and> \<not> s_stopped s) \<and>
     (\<forall>c cs. s_cleaner s \<noteq> SCClosing (c # cs))"

text \<open>
  A release grants at most one request, and then no item is free: the goroutine that released
  goes on to wait.
\<close>

lemma slice_release_work:
  assumes "slice_ok p h o'" and "slice_release p = Done q"
  shows "slice_pool_work q \<le> slice_pool_work p + 4"
  using assms by (cases rule: slice_release_effect) (simp_all add: slice_pool_work_def)

lemma slice_rescan_work:
  assumes "slice_ok p h o'" and "slice_release p = Done q"
  shows "slice_pool_work (fst (slice_scan q)) + slice_out_work (snd (slice_scan q))
    \<le> slice_pool_work p + 16"
  using assms
  by (cases rule: slice_release_effect)
    (simp_all add: slice_pool_work_def slice_scan_def slice_no_free_def Let_def
      nextRequestKeyLocked_def slice_delete_request_def split: list.split)

lemma slice_work_enter [simp]: "slice_work (s_enter pc s) = slice_work s + slice_pc_work pc"
  by (simp add: slice_work_def s_enter_def)

lemma slice_work_leave:
  "pc \<in># s_calls s \<Longrightarrow> slice_work s = slice_work (s_leave pc s) + slice_pc_work pc"
  by (simp add: slice_work_def s_leave_def sum_image_diff [of pc "s_calls s"])

lemma slice_work_books [simp]:
  "slice_work (s_lend c s) = slice_work s" "slice_work (s_shut_conn c s) = slice_work s"
  "slice_work (s_receive ch i s) = slice_work s"
  by (simp_all add: slice_work_def s_lend_def s_shut_conn_def s_receive_def)

lemma slice_work_pool:
  "slice_work (s\<lparr>s_pool := p\<rparr>) + slice_pool_work (s_pool s) = slice_work s + slice_pool_work p"
  by (simp add: slice_work_def)

lemma slice_work_settle:
  "slice_work (s_settle d po s) + slice_pool_work (s_pool s)
     = slice_work s + slice_pool_work (fst po) + slice_out_work (snd po)"
  using slice_work_pool [where s = s and p = "fst po"] by (cases "snd po") (simp_all add: s_settle_def)

lemma putItemLocked_work:
  "slice_pool_work (fst (putItemLocked now c k p)) \<le> slice_pool_work p + 2"
  by (simp add: putItemLocked_def slice_pool_work_def slice_delete_request_def Let_def split: option.split)

lemma openNewItem_work:
  assumes "openNewItem now (Some c) k p = Done (q, out)"
  shows "slice_pool_work q \<le> slice_pool_work p + 2"
  using assms putItemLocked_work [of now c k p]
  by (auto simp: openNewItem_def slice_pool_work_def split: prod.splits put_out.splits)

lemma slice_own_work:
  assumes inv: "slice_inv s" and "slice_own e" and "slice_step s e = Some t"
  shows "Suc (slice_work t) \<le> slice_work s + slice_extra e"
proof -
  have ok: "slice_ok (s_pool s) (slice_held s) (slice_opening s)"
    using inv by (simp add: slice_inv_def)
  show ?thesis
  proof (cases e)
    case (SRescan d)
    with assms(3) obtain q where pc: "SReap d \<in># s_calls s" and rel: "slice_release (s_pool s) = Done q"
      and t: "t = s_settle d (slice_scan q) (s_leave (SReap d) s)"
      by (auto split: if_splits elim: s_releasedE)
    from slice_work_settle [of d "slice_scan q" "s_leave (SReap d) s"]
      slice_rescan_work [OF ok rel] slice_work_leave [OF pc]
    show ?thesis unfolding t by simp
  next
    case SRedial
    with assms(3) obtain q where pc: "SReapReq \<in># s_calls s"
      and re: "slice_redial (s_pool s) = Done q"
      and t: "t = s_enter SDial ((s_leave SReapReq s)\<lparr>s_pool := q\<rparr>)"
      by (auto split: if_splits elim: s_releasedE)
    obtain r where rel: "slice_release (s_pool s) = Done r" and q: "q = r\<lparr>sp_active := sp_active r + 1\<rparr>"
      using re by (auto simp: slice_redial_def obind_Done_iff)
    from slice_work_pool [where s = "s_leave SReapReq s" and p = q]
      slice_release_work [OF ok rel] slice_work_leave [OF pc]
    show ?thesis unfolding t by (simp add: q slice_pool_work_def)
  next
    case SDialUndo
    with assms(3) obtain q where pc: "SDialErr \<in># s_calls s"
      and rel: "slice_release (s_pool s) = Done q" and t: "t = (s_leave SDialErr s)\<lparr>s_pool := q\<rparr>"
      by (auto split: if_splits elim: s_releasedE)
    from slice_work_pool [where s = "s_leave SDialErr s" and p = q]
      slice_release_work [OF ok rel] slice_work_leave [OF pc]
    show ?thesis unfolding t by simp
  next
    case SOpenerFail
    with assms(3) obtain q where o: "s_opener s = OOpening"
      and rel: "slice_release (s_pool s) = Done q" and t: "t = s\<lparr>s_pool := q, s_opener := OIdle\<rparr>"
      by (auto simp: openNewItem_def obind_assoc obind_Done_iff split: if_splits elim!: s_releasedE)
    from slice_release_work [OF ok rel] SOpenerFail show ?thesis
      unfolding t by (simp add: slice_work_def o)
  next
    case (SOpenerOk k now)
    with assms(3) have o: "s_opener s = OOpening"
      and place: "s_place (s_fresh s) (openNewItem now (Some (s_fresh s)) k (s_pool s))
         (s\<lparr>s_opener := OIdle, s_fresh := Suc (s_fresh s)\<rparr>) = Some t"
      by (auto split: if_splits)
    obtain q out where op: "openNewItem now (Some (s_fresh s)) k (s_pool s) = Done (q, out)"
      using place by (auto simp: s_place_def split: outcome.splits)
    have "slice_work t = slice_pool_work q + \<Sum>\<^sub># (image_mset slice_pc_work (s_calls s)) + 1
        + slice_cleaner_work (s_cleaner s)"
      using place op by (cases out) (auto simp: s_place_def s_shut_conn_def slice_work_def split: if_splits)
    with openNewItem_work [OF op] SOpenerOk show ?thesis by (simp add: slice_work_def o)
  qed (use assms(2,3) in \<open>auto simp: slice_work_def slice_pool_work_def s_leave_def s_enter_def
      s_lend_def s_shut_conn_def s_receive_def slice_delete_request_def dest!: multi_member_split
      split: if_splits nat.splits\<close>)
qed

lemma slice_conf_step:
  assumes "slice_step s e = Some t"
  shows "sp_conf (s_pool t) = sp_conf (s_pool s)"
proof -
  have release: "slice_release p = Done q \<Longrightarrow> sp_conf q = sp_conf p" for p q
    by (drule slice_release_Done) simp
  have redial: "slice_redial p = Done q \<Longrightarrow> sp_conf q = sp_conf p" for p q
    by (auto simp: slice_redial_def obind_Done_iff release)
  have scan: "sp_conf (fst (slice_scan p)) = sp_conf p" for p
    by (simp add: slice_scan_def slice_no_free_def nextRequestKeyLocked_def slice_delete_request_def
        Let_def split: list.split)
  have put: "sp_conf (fst (putItemLocked now c k p)) = sp_conf p" for now c k p
    by (simp add: putItemLocked_def slice_delete_request_def Let_def split: option.split)
  have put': "putItemLocked now c k p = (q, out) \<Longrightarrow> sp_conf q = sp_conf p" for now c k p q out
    by (metis put fst_conv)
  have wake: "sp_conf (s_pool (s_clean_wake now s)) = sp_conf (s_pool s)" for now s
    by (simp add: s_clean_wake_def slice_clean_def Let_def split: prod.split)
  show ?thesis
    using assms
    by (cases e) (auto simp: scan wake s_settle_book slice_get_begin_def s_released_def s_place_def
        slice_Put_def openNewItem_def slice_delete_request_def slice_Close_def obind_Done_iff
        dest!: release redial put'
        split: if_splits outcome.splits put_out.splits prod.splits option.splits nat.splits)
qed

text \<open>The opener can always put away a connection that \<open>New\<close> has returned.\<close>

lemma slice_opener_puts:
  assumes inv: "slice_inv s" and "s_opener s = OOpening"
  shows "\<exists>k t. slice_step s (SOpenerOk k now) = Some t"
proof -
  obtain k where k: "put_key_ok k (s_pool s)"
    by (cases "sp_requests (s_pool s)") (auto simp: put_key_ok_def)
  obtain p out where put: "putItemLocked now (s_fresh s) k (s_pool s) = (p, out)" by fastforce
  have "ch \<notin># image_mset fst (s_inbox s)" if "out = Handed ch i" for ch i
    using put k
  proof (cases rule: putItemLocked_cases)
    case (handed ch')
    have "\<forall>r \<in> set (sp_requests (s_pool s)). snd r \<notin># image_mset fst (s_inbox s)"
      using inv by (simp add: slice_inv_def slice_chans_ok_def)
    with handed that show ?thesis by (metis put_out.inject snd_conv)
  qed (use that in simp_all)
  with put k assms(2) have "\<exists>t. slice_step s (SOpenerOk k now) = Some t"
    by (cases out) (auto simp: openNewItem_def s_place_def)
  then show ?thesis by blast
qed

lemma slice_moves_on:
  assumes inv: "slice_inv s" and cap: "Active (sp_conf (s_pool s)) \<le> int opener_cap"
    and "\<not> slice_rest s"
  shows "\<exists>e t. slice_own e \<and> slice_extra e = 0 \<and> slice_step s e = Some t"
proof -
  have release: "\<exists>q. slice_release (s_pool s) = Done q" if "pc \<in># s_calls s" "slice_pc_counted pc" for pc
  proof (rule slice_ok_release_total [OF _ _ cap])
    show "slice_ok (s_pool s) (slice_held s) (slice_opening s)" using inv by (simp add: slice_inv_def)
    show "0 < slice_held s + slice_opening s" using slice_leave_sums(2) [OF that(1)] that(2) by simp
  qed
  consider (call) pc where "pc \<in># s_calls s" | (making) "s_opener s = OOpening"
    | (signal) "s_opener s = OIdle" "sp_opener (s_pool s) \<noteq> 0"
    | (stop) "s_opener s = OIdle" "s_stopped s" | (cleaning) c cs where "s_cleaner s = SCClosing (c # cs)"
    using assms(3) unfolding slice_rest_def by (metis multiset_nonemptyE)
  then show ?thesis
  proof cases
    case call
    show ?thesis
    proof (cases pc)
      case (SPopped i d)
      show ?thesis
      proof (cases "expired i d 0")
        case True
        with call SPopped show ?thesis by (intro exI [of _ "SExpire i d 0"]) simp
      next
        case False
        with call SPopped show ?thesis by (intro exI [of _ "STake i d 0"]) simp
      qed
    next
      case (SReap d)
      with call release [of pc] show ?thesis
        by (intro exI [of _ "SRescan d"]) (auto simp: s_released_def)
    next
      case (SWait k ch d)
      with call show ?thesis by (intro exI [of _ "SCtxDone k ch d"]) simp
    next
      case (SLeaving k)
      with call show ?thesis by (intro exI [of _ "SLeave k"]) simp
    next
      case SReapReq
      with call release [of pc] show ?thesis
        by (intro exI [of _ SRedial]) (auto simp: s_released_def slice_redial_def)
    next
      case SDial
      with call show ?thesis by (intro exI [of _ SDialOk]) simp
    next
      case SDialErr
      with call release [of pc] show ?thesis
        by (intro exI [of _ SDialUndo]) (auto simp: s_released_def)
    next
      case SStop
      with call show ?thesis by (intro exI [of _ SStopCall]) simp
    qed
  next
    case making
    from slice_opener_puts [OF inv making, of 0] obtain k t
      where "slice_step s (SOpenerOk k 0) = Some t" by blast
    then show ?thesis by (intro exI [of _ "SOpenerOk k 0"] exI [of _ t]) simp
  next
    case signal
    then show ?thesis by (intro exI [of _ SOpenerTake]) (simp split: nat.split)
  next
    case stop
    then show ?thesis by (intro exI [of _ SOpenerStop]) simp
  next
    case cleaning
    then show ?thesis by (intro exI [of _ "SCleanClose c cs"]) simp
  qed
qed

interpretation srest: settling slice_step
  "\<lambda>s. slice_inv s \<and> Active (sp_conf (s_pool s)) \<le> int opener_cap"
  slice_own slice_extra slice_work slice_rest
proof unfold_locales
  fix s e t
  assume inv: "slice_inv s \<and> Active (sp_conf (s_pool s)) \<le> int opener_cap"
  show "slice_inv t \<and> Active (sp_conf (s_pool t)) \<le> int opener_cap" if "slice_step s e = Some t"
    using inv slice_inv_step [OF _ that] slice_conf_step [OF that] by simp
  show "Suc (slice_work t) \<le> slice_work s + slice_extra e" if "slice_own e" "slice_step s e = Some t"
    using inv that by (simp add: slice_own_work)
next
  fix s
  assume "slice_inv s \<and> Active (sp_conf (s_pool s)) \<le> int opener_cap" and "\<not> slice_rest s"
  then show "\<exists>e t. slice_own e \<and> slice_extra e = 0 \<and> slice_step s e = Some t"
    using slice_moves_on by blast
qed

section \<open>Both pools come to rest\<close>

text \<open>
  C11. A list pool that is left alone comes to rest. From any state, when no client calls the pool
  and its cleaner is not woken, no more than \<open>list_work s\<close> steps are possible; and however far they
  have gone, they can be completed to a state in which every call has returned, so no interleaving
  leads into a deadlock or a livelock. A Get that waits returns, if nothing else, when its context
  ends.
\<close>

theorem list_comes_to_rest:
  assumes "run list_step s es = Some t" and "list_all list_own es"
  shows "length es + list_work t \<le> list_work s \<and>
    (\<exists>fs u. run list_step t fs = Some u \<and> list_all list_own fs \<and> list_rest u)"
  using lrest.bounded [OF _ assms] lrest.finishes [of t] by simp

text \<open>
  C12. A slice pool that is left alone comes to rest, if its limit is within the capacity of the
  opener's channel. From a reachable state no more than \<open>slice_work s\<close> steps are possible, and two
  more for each failure of New in the opener, which tries again as long as a request waits; and
  however far they have gone, they can be completed to a state in which every call has returned.
\<close>

theorem slice_comes_to_rest:
  assumes "reach slice_init slice_step s" and "Active (sp_conf (s_pool s)) \<le> int opener_cap"
    and "run slice_step s es = Some t" and "list_all slice_own es"
  shows "length es + slice_work t \<le> slice_work s + sum_list (map slice_extra es) \<and>
    (\<exists>fs u. run slice_step t fs = Some u \<and> list_all slice_own fs \<and> slice_rest u)"
proof
  have inv: "slice_inv s \<and> Active (sp_conf (s_pool s)) \<le> int opener_cap"
    using spool.reach_inv [OF assms(1)] assms(2) by simp
  show "length es + slice_work t \<le> slice_work s + sum_list (map slice_extra es)"
    by (rule srest.bounded [OF inv assms(3,4)])
  have "slice_inv t \<and> Active (sp_conf (s_pool t)) \<le> int opener_cap"
    by (rule srest.run_keeps [OF inv assms(3)])
  then show "\<exists>fs u. run slice_step t fs = Some u \<and> list_all slice_own fs \<and> slice_rest u"
    by (rule srest.finishes)
qed

text \<open>A Get of the list pool whose New fails; a Get of the slice pool whose context ends.\<close>

definition list_dialling :: list_sys where
  "list_dialling = (list_sys0 wait_conf)
     \<lparr>l_pool := (l_pool (list_sys0 wait_conf))\<lparr>lp_active := 1\<rparr>, l_calls := {#LDial#}\<rparr>"

lemma list_dialling_run:
  "run list_step list_dialling [LDialFail, LDialUndo] = Some (list_sys0 wait_conf)"
  by (simp add: list_dialling_def list_eval)

theorem list_comes_to_rest_witness:
  "2 + list_work (list_sys0 wait_conf) \<le> list_work list_dialling \<and> list_work list_dialling = 4 \<and>
   (\<exists>fs u. run list_step (list_sys0 wait_conf) fs = Some u \<and> list_all list_own fs \<and> list_rest u)"
  using list_comes_to_rest [OF list_dialling_run]
  by (simp add: list_work_def list_dialling_def list_sys0_def list_pool_work_def)

definition slice_left :: slice_sys where
  "slice_left = slice_demo\<lparr>s_pool := (s_pool slice_demo)\<lparr>sp_requests := []\<rparr>, s_calls := {#}\<rparr>"

lemma slice_left_run: "run slice_step slice_demo [SCtxDone 0 0 0, SLeave 0] = Some slice_left"
  by (simp add: slice_left_def slice_demo_def slice_eval)

theorem slice_comes_to_rest_witness:
  "2 + slice_work slice_left \<le> slice_work slice_demo \<and> slice_work slice_demo = 13 \<and>
   (\<exists>fs u. run slice_step slice_left fs = Some u \<and> list_all slice_own fs \<and> slice_rest u)"
proof -
  have cap: "Active (sp_conf (s_pool slice_demo)) \<le> int opener_cap"
    by (simp add: slice_demo_eval opener_cap_def)
  have "list_all slice_own [SCtxDone 0 0 0, SLeave 0]" by simp
  from slice_comes_to_rest [OF slice_demo_reach cap slice_left_run this]
  show ?thesis by (simp add: slice_work_def slice_demo_eval slice_pool_work_def)
qed

end
