(* ===== verification/Go_Reflect.thy ===== *)
theory Go_Reflect
  imports Prelude "HOL-Library.AList"
begin

text \<open>
  What package onecache uses of Go values and of package reflect: types and their kinds,
  values, a heap of pointer cells and maps, and the operations on \<open>reflect.Value\<close> with their
  panics. An aliased pointer or map is an address that occurs twice.
\<close>

section \<open>Types, values and the heap\<close>

datatype gotype =
    TInt | TBool | TString
  | TStruct string
  | TPtr gotype
  | TMap gotype gotype
  | TSlice gotype
  | TInterface

datatype gokind =
    KInvalid | KInt | KBool | KString | KStruct | KPtr | KMap | KSlice | KInterface

fun kind_of :: "gotype \<Rightarrow> gokind" where
  "kind_of TInt = KInt"
| "kind_of TBool = KBool"
| "kind_of TString = KString"
| "kind_of (TStruct n) = KStruct"
| "kind_of (TPtr t) = KPtr"
| "kind_of (TMap k v) = KMap"
| "kind_of (TSlice t) = KSlice"
| "kind_of TInterface = KInterface"

text \<open>
  What an \<open>interface{}\<close> can hold: nothing, or a value with its dynamic type. A pointer or a map
  is nil or has an address. A slice is its elements: the package only reads slices.
\<close>

datatype goval =
    VNil
  | VInt int
  | VBool bool
  | VStr string
  | VStruct string "(string \<times> goval) list"
  | VPtr gotype "nat option"
  | VMap gotype gotype "nat option"
  | VSlice gotype "goval list"

fun typeof :: "goval \<Rightarrow> gotype" where
  "typeof VNil = TInterface"
| "typeof (VInt i) = TInt"
| "typeof (VBool b) = TBool"
| "typeof (VStr s) = TString"
| "typeof (VStruct n fs) = TStruct n"
| "typeof (VPtr t a) = TPtr t"
| "typeof (VMap k v a) = TMap k v"
| "typeof (VSlice t xs) = TSlice t"

text \<open>
  The heap: the cell a pointer points to, the entries of a map in the order in which
  \<open>MapKeys\<close> lists them, and the next free address.
\<close>

record heap =
  h_cells :: "nat \<rightharpoonup> goval"
  h_maps :: "nat \<rightharpoonup> (goval \<times> goval) list"
  h_next :: nat

section \<open>Reflected values\<close>

text \<open>
  A \<open>reflect.Value\<close> is the zero Value, or has a static type, the value, and the cell it was
  reached through when it can be set.
\<close>

datatype rval = RInvalid | RVal gotype goval "nat option"

definition ValueOf :: "goval \<Rightarrow> rval" where
  "ValueOf v = (if v = VNil then RInvalid else RVal (typeof v) v None)"

fun rkind :: "rval \<Rightarrow> gokind" where
  "rkind RInvalid = KInvalid"
| "rkind (RVal t v a) = kind_of t"

fun rtype :: "rval \<Rightarrow> gotype outcome" where
  "rtype RInvalid = Panic ''reflect: call of reflect.Value.Type on zero Value''"
| "rtype (RVal t v a) = Done t"

definition TypeOf :: "goval \<Rightarrow> gotype outcome" where
  "TypeOf v = (if v = VNil then Panic ''invalid memory address or nil pointer dereference''
     else Done (typeof v))"

fun type_key :: "gotype \<Rightarrow> gotype outcome" where
  "type_key (TMap k v) = Done k"
| "type_key t = Panic ''reflect: Key of non-map type''"

fun type_elem :: "gotype \<Rightarrow> gotype outcome" where
  "type_elem (TMap k v) = Done v"
| "type_elem (TPtr t) = Done t"
| "type_elem (TSlice t) = Done t"
| "type_elem t = Panic ''reflect: Elem of invalid type''"

fun rIsNil :: "rval \<Rightarrow> bool outcome" where
  "rIsNil (RVal TInterface v _) = Done (v = VNil)"
| "rIsNil (RVal t (VPtr _ a) _) = Done (a = None)"
| "rIsNil (RVal t (VMap _ _ a) _) = Done (a = None)"
| "rIsNil r = Panic ''reflect: call of reflect.Value.IsNil''"

fun rInterface :: "rval \<Rightarrow> goval outcome" where
  "rInterface RInvalid = Panic ''reflect: call of reflect.Value.Interface on zero Value''"
| "rInterface (RVal t v a) = Done v"

text \<open>\<open>Indirect\<close>: a pointer is followed once, a nil pointer gives the zero Value.\<close>

definition Indirect :: "heap \<Rightarrow> rval \<Rightarrow> rval" where
  "Indirect h r =
     (case r of
        RVal (TPtr t) (VPtr _ p) _ \<Rightarrow>
          (case p of
             None \<Rightarrow> RInvalid
           | Some a \<Rightarrow> (case h_cells h a of None \<Rightarrow> RInvalid | Some v \<Rightarrow> RVal t v (Some a)))
      | _ \<Rightarrow> r)"

text \<open>Assigning to a place of static type \<open>t\<close>.\<close>

fun assign_to :: "gotype \<Rightarrow> rval \<Rightarrow> goval outcome" where
  "assign_to t RInvalid = Panic ''reflect: zero Value''"
| "assign_to t (RVal s v a) =
     (if s = t \<or> t = TInterface then Done v
      else Panic ''reflect.Set: value is not assignable to type'')"

definition rSet :: "heap \<Rightarrow> rval \<Rightarrow> rval \<Rightarrow> heap outcome" where
  "rSet h r x =
     (case r of
        RVal t v (Some a) \<Rightarrow>
          obind (assign_to t x) (\<lambda>w. Done (h\<lparr>h_cells := (h_cells h)(a \<mapsto> w)\<rparr>))
      | _ \<Rightarrow> Panic ''reflect: reflect.Value.Set using unaddressable value'')"

text \<open>
  The zero value of a type (a field that a struct value does not list is zero), and
  \<open>reflect.New\<close>, which puts it into a new cell.
\<close>

fun zero_of :: "gotype \<Rightarrow> goval" where
  "zero_of TInt = VInt 0"
| "zero_of TBool = VBool False"
| "zero_of TString = VStr []"
| "zero_of (TStruct n) = VStruct n []"
| "zero_of (TPtr t) = VPtr t None"
| "zero_of (TMap k v) = VMap k v None"
| "zero_of (TSlice t) = VSlice t []"
| "zero_of TInterface = VNil"

definition rNew :: "gotype \<Rightarrow> heap \<Rightarrow> heap \<times> goval" where
  "rNew t h =
     (h\<lparr>h_cells := (h_cells h)(h_next h \<mapsto> zero_of t), h_next := Suc (h_next h)\<rparr>,
      VPtr t (Some (h_next h)))"

section \<open>Maps and slices\<close>

definition MakeMap :: "gotype \<Rightarrow> gotype \<Rightarrow> heap \<Rightarrow> heap \<times> goval" where
  "MakeMap k v h =
     (h\<lparr>h_maps := (h_maps h)(h_next h \<mapsto> []), h_next := Suc (h_next h)\<rparr>,
      VMap k v (Some (h_next h)))"

definition map_entries :: "heap \<Rightarrow> rval \<Rightarrow> (goval \<times> goval) list" where
  "map_entries h r =
     (case r of
        RVal t (VMap _ _ (Some a)) _ \<Rightarrow> (case h_maps h a of None \<Rightarrow> [] | Some es \<Rightarrow> es)
      | _ \<Rightarrow> [])"

definition MapIndex :: "heap \<Rightarrow> rval \<Rightarrow> rval \<Rightarrow> rval outcome" where
  "MapIndex h m k =
     (case m of
        RVal (TMap kt vt) _ _ \<Rightarrow>
          obind (assign_to kt k) (\<lambda>kv.
            Done (case map_of (map_entries h m) kv of
                    None \<Rightarrow> RInvalid | Some v \<Rightarrow> RVal vt v None))
      | _ \<Rightarrow> Panic ''reflect: call of reflect.Value.MapIndex'')"

definition put_map :: "nat \<Rightarrow> (goval \<times> goval) list \<Rightarrow> heap \<Rightarrow> heap" where
  "put_map a es h = h\<lparr>h_maps := (h_maps h)(a \<mapsto> es)\<rparr>"

lemma put_map_simps [simp]:
  "h_maps (put_map a es h) b = (if b = a then Some es else h_maps h b)"
  "h_cells (put_map a es h) = h_cells h"
  "h_next (put_map a es h) = h_next h"
  "put_map a es (put_map a fs h) = put_map a es h"
  by (simp_all add: put_map_def)

lemma put_map_same: "h_maps h a = Some es \<Longrightarrow> put_map a es h = h"
  by (cases h) (auto simp: put_map_def)

text \<open>Setting the zero Value deletes the key; a nil map cannot be written.\<close>

definition SetMapIndex :: "heap \<Rightarrow> rval \<Rightarrow> rval \<Rightarrow> rval \<Rightarrow> heap outcome" where
  "SetMapIndex h m k x =
     (case m of
        RVal (TMap kt vt) (VMap _ _ p) _ \<Rightarrow>
          obind (assign_to kt k) (\<lambda>kv.
            if x = RInvalid then
              Done (case p of
                 None \<Rightarrow> h
               | Some a \<Rightarrow> put_map a (AList.delete kv (map_entries h m)) h)
            else obind (assign_to vt x) (\<lambda>w.
              case p of
                None \<Rightarrow> Panic ''assignment to entry in nil map''
              | Some a \<Rightarrow> Done (put_map a (AList.update kv w (map_entries h m)) h)))
      | _ \<Rightarrow> Panic ''reflect: call of reflect.Value.SetMapIndex'')"

definition MapKeys :: "heap \<Rightarrow> rval \<Rightarrow> goval list" where
  "MapKeys h m = map fst (map_entries h m)"

fun slice_elems :: "rval \<Rightarrow> goval list" where
  "slice_elems (RVal t (VSlice _ xs) a) = xs"
| "slice_elems r = []"

text \<open>\<open>Append\<close> to a slice whose elements have type \<open>t\<close>.\<close>

definition rAppend :: "gotype \<Rightarrow> goval list \<Rightarrow> rval \<Rightarrow> goval list outcome" where
  "rAppend t xs x = obind (assign_to t x) (\<lambda>w. Done (xs @ [w]))"

section \<open>Well-typed values\<close>

text \<open>The dynamic type of a value held in a place of type \<open>t\<close>.\<close>

definition fits :: "gotype \<Rightarrow> goval \<Rightarrow> bool" where
  "fits t v = (t = TInterface \<or> (v \<noteq> VNil \<and> typeof v = t))"

lemma ValueOf_fits: "v \<noteq> VNil \<Longrightarrow> ValueOf v = RVal (typeof v) v None"
  by (simp add: ValueOf_def)

lemma assign_to_ValueOf:
  "assign_to t (ValueOf v) = Done w \<longleftrightarrow> w = v \<and> v \<noteq> VNil \<and> (typeof v = t \<or> t = TInterface)"
  by (auto simp: ValueOf_def)

lemma rkind_ValueOf_Ptr:
  assumes "rkind (ValueOf v) = KPtr"
  obtains t p where "v = VPtr t p"
  using assms by (cases v) (simp_all add: ValueOf_def)

lemma rkind_ValueOf_Slice:
  assumes "rkind (ValueOf v) = KSlice"
  obtains t xs where "v = VSlice t xs"
  using assms by (cases v) (simp_all add: ValueOf_def)

lemma rkind_ValueOf_Map:
  assumes "rkind (ValueOf v) = KMap"
  obtains k t p where "v = VMap k t p"
  using assms by (cases v) (simp_all add: ValueOf_def)

lemma Indirect_Ptr [simp]:
  "Indirect h (ValueOf (VPtr t (Some a)))
     = (case h_cells h a of None \<Rightarrow> RInvalid | Some v \<Rightarrow> RVal t v (Some a))"
  by (simp add: Indirect_def ValueOf_def)

lemma Indirect_nil [simp]: "Indirect h (ValueOf (VPtr t None)) = RInvalid"
  by (simp add: Indirect_def ValueOf_def)

lemma Indirect_not_Ptr [simp]: "rkind r \<noteq> KPtr \<Longrightarrow> Indirect h r = r"
  by (cases r) (auto simp: Indirect_def split: gotype.split)

end
