(* ===== verification/Cache_Store.thy ===== *)
theory Cache_Store
  imports Go_Reflect
begin

text \<open>
  The stores behind a cache (src/onecache/store): the \<open>Store\<close> interface, \<open>LocalStore\<close> over a
  gcache, \<open>RedisStore\<close> over a redis client and a serializer, and \<open>JsonSerializer\<close>. The gcache, the
  redis client, the JSON and gzip codecs and \<open>xreflect.RecursiveIndirectType\<close> are not part of the
  repository: they are records of functions the definitions take as arguments.
\<close>

section \<open>Errors\<close>

text \<open>
  The error values of packages onecache and store, the two not-found errors of the libraries,
  and any other error, known by its text.
\<close>

datatype box_error =
    ErrBadIdsType | ErrBadSrcType | ErrBadDstType | ErrBadDstMapType | ErrBadDstMapValue
  | ErrSrcDstTypeMismatch | ErrBadFallbackResultType | ErrDstFallbackTypeMismatch

datatype store_error =
    StoreBadSrcType | StoreKeysLengthNotMatch | StoreBadDstType | StoreBadDstMapType
  | StoreBadDstMapValue | StoreSrcDstTypeMismatch

datatype cache_error =
    BoxErr box_error | StoreErr store_error | RedisNil | KeyNotFoundError | OtherErr string

fun box_error_text :: "box_error \<Rightarrow> string" where
  "box_error_text ErrBadIdsType = ''cache: ids must be slice''"
| "box_error_text ErrBadSrcType = ''cache: src must be a slice or pointer-to-slice''"
| "box_error_text ErrBadDstType = ''cache: dst must be a pointer''"
| "box_error_text ErrBadDstMapType = ''cache: dst must be a map or pointer-to-map''"
| "box_error_text ErrBadDstMapValue = ''cache: dst must not be a nil map''"
| "box_error_text ErrSrcDstTypeMismatch = ''cache: type of fallback result mismatch error''"
| "box_error_text ErrBadFallbackResultType = ''cache: type of fallbackResultV must be map''"
| "box_error_text ErrDstFallbackTypeMismatch =
     ''cache: key type and value type of fallbackResult is not equal to map''"

fun store_error_text :: "store_error \<Rightarrow> string" where
  "store_error_text StoreBadSrcType = ''cache store: src must be a slice or pointer-to-slice''"
| "store_error_text StoreKeysLengthNotMatch =
     ''cache store: keys and src slices have different length''"
| "store_error_text StoreBadDstType = ''cache store: dst must be a pointer''"
| "store_error_text StoreBadDstMapType = ''cache store: dst must be a map or pointer-to-map''"
| "store_error_text StoreBadDstMapValue = ''cache store: dst must not be a nil map''"
| "store_error_text StoreSrcDstTypeMismatch = ''cache store: type of fallback result mismatch error''"

fun error_text :: "cache_error \<Rightarrow> string" where
  "error_text (BoxErr e) = box_error_text e"
| "error_text (StoreErr e) = store_error_text e"
| "error_text RedisNil = ''redis: nil''"
| "error_text KeyNotFoundError = ''Key not found.''"
| "error_text (OtherErr s) = s"

text \<open>\<open>PanicIf\<close> (src/eins.go), around a call that returns a state and an error.\<close>

definition PanicIf :: "('s \<times> cache_error option) outcome \<Rightarrow> 's outcome" where
  "PanicIf r =
     obind r (\<lambda>(s, e). case e of None \<Rightarrow> Done s | Some err \<Rightarrow> Panic (error_text err))"

lemma PanicIf_Done: "PanicIf r = Done s \<longleftrightarrow> r = Done (s, None)"
  by (auto simp: PanicIf_def obind_Done_iff split: option.splits)

section \<open>The Store interface\<close>

text \<open>
  A store has a state \<open>'st\<close>; its methods read and write the heap. \<open>Set\<close> and \<open>SetMulti\<close> get the
  heap to look through pointers and leave it alone.
\<close>

type_synonym 'st call = "(('st \<times> heap) \<times> cache_error option) outcome"

record 'st store_ops =
  st_Get :: "heap \<Rightarrow> 'st \<Rightarrow> string \<Rightarrow> goval \<Rightarrow> 'st call"
  st_GetMulti :: "heap \<Rightarrow> 'st \<Rightarrow> string list \<Rightarrow> goval \<Rightarrow> 'st call"
  st_Exists :: "'st \<Rightarrow> string \<Rightarrow> 'st \<times> bool \<times> cache_error option"
  st_ExistsMulti :: "'st \<Rightarrow> string list \<Rightarrow> 'st \<times> bool list \<times> cache_error option"
  st_Set :: "heap \<Rightarrow> 'st \<Rightarrow> string \<Rightarrow> goval \<Rightarrow> int \<Rightarrow> 'st call"
  st_SetMulti :: "heap \<Rightarrow> 'st \<Rightarrow> string list \<Rightarrow> goval \<Rightarrow> int \<Rightarrow> 'st call"
  st_Delete :: "heap \<Rightarrow> 'st \<Rightarrow> string list \<Rightarrow> 'st call"

text \<open>
  The head of \<open>GetMulti\<close>, the same in both stores (and in the cache, with its own errors): the
  destination must be a map or a pointer to one; a nil map behind a pointer is made.
\<close>

definition map_dst ::
  "cache_error \<Rightarrow> cache_error \<Rightarrow> heap \<Rightarrow> goval \<Rightarrow> (heap \<times> rval \<times> cache_error option) outcome" where
  "map_dst badType badValue h dstMap =
     (let dstPtrV = ValueOf dstMap; dstV = Indirect h dstPtrV
      in if rkind dstV \<noteq> KMap then Done (h, dstV, Some badType)
         else obind (rIsNil dstV) (\<lambda>isNil.
           if \<not> isNil then Done (h, dstV, None)
           else if rkind dstPtrV \<noteq> KPtr then Done (h, dstV, Some badValue)
           else obind (rtype dstV) (\<lambda>t. obind (type_key t) (\<lambda>kt. obind (type_elem t) (\<lambda>vt.
             let (h1, m) = MakeMap kt vt h
             in obind (rSet h1 dstV (ValueOf m)) (\<lambda>h2. Done (h2, Indirect h2 dstPtrV, None)))))))"

section \<open>LocalStore\<close>

record 'g gcache_ops =
  gc_Get :: "'g \<Rightarrow> string \<Rightarrow> 'g \<times> (cache_error + goval)"
  gc_SetWithExpire :: "'g \<Rightarrow> string \<Rightarrow> goval \<Rightarrow> int \<Rightarrow> 'g \<times> cache_error option"
  gc_Has :: "'g \<Rightarrow> string \<Rightarrow> 'g \<times> bool"
  gc_Remove :: "'g \<Rightarrow> string \<Rightarrow> 'g"

definition local_Get ::
  "'g gcache_ops \<Rightarrow> (gotype \<Rightarrow> gotype) \<Rightarrow> heap \<Rightarrow> 'g \<Rightarrow> string \<Rightarrow> goval \<Rightarrow> 'g call" where
  "local_Get G RecursiveIndirectType h g key dst =
     obind (TypeOf dst) (\<lambda>t.
       if kind_of t \<noteq> KPtr then Done ((g, h), Some (StoreErr StoreBadDstType))
       else case gc_Get G g key of
         (g1, Inl err) \<Rightarrow> Done ((g1, h), Some err)
       | (g1, Inr val) \<Rightarrow>
           let dstV = Indirect h (ValueOf dst); newVal = Indirect h (ValueOf val)
           in obind (rtype dstV) (\<lambda>lt. obind (rtype newVal) (\<lambda>rt.
                if kind_of (RecursiveIndirectType lt) \<noteq> kind_of (RecursiveIndirectType rt)
                then Done ((g1, h), Some (StoreErr StoreSrcDstTypeMismatch))
                else obind (rSet h dstV newVal) (\<lambda>h1. Done ((g1, h1), None)))))"

text \<open>The loop of \<open>GetMulti\<close>: what is found goes into the map as it is stored.\<close>

fun local_get_loop ::
  "'g gcache_ops \<Rightarrow> rval \<Rightarrow> heap \<Rightarrow> 'g \<Rightarrow> string list \<Rightarrow> ('g \<times> heap) outcome" where
  "local_get_loop G dstV h g [] = Done (g, h)"
| "local_get_loop G dstV h g (key # keys) =
     (case gc_Get G g key of
        (g1, Inl err) \<Rightarrow> local_get_loop G dstV h g1 keys
      | (g1, Inr val) \<Rightarrow>
          obind (SetMapIndex h dstV (ValueOf (VStr key)) (ValueOf val)) (\<lambda>h1.
            local_get_loop G dstV h1 g1 keys))"

definition local_GetMulti ::
  "'g gcache_ops \<Rightarrow> heap \<Rightarrow> 'g \<Rightarrow> string list \<Rightarrow> goval \<Rightarrow> 'g call" where
  "local_GetMulti G h g keys dstMap =
     obind (map_dst (StoreErr StoreBadDstMapType) (StoreErr StoreBadDstMapValue) h dstMap)
       (\<lambda>(h1, dstV, err).
         case err of
           Some e \<Rightarrow> Done ((g, h1), Some e)
         | None \<Rightarrow> obind (local_get_loop G dstV h1 g keys) (\<lambda>r. Done (r, None)))"

definition local_Exists :: "'g gcache_ops \<Rightarrow> 'g \<Rightarrow> string \<Rightarrow> 'g \<times> bool \<times> cache_error option" where
  "local_Exists G g key = (let (g1, b) = gc_Has G g key in (g1, b, None))"

fun local_exists_loop ::
  "'g gcache_ops \<Rightarrow> 'g \<Rightarrow> string list \<Rightarrow> 'g \<times> bool list \<times> cache_error option" where
  "local_exists_loop G g [] = (g, [], None)"
| "local_exists_loop G g (key # keys) =
     (case local_Exists G g key of
        (g1, ok, Some e) \<Rightarrow> (g1, [], Some e)
      | (g1, ok, None) \<Rightarrow>
          (let (g2, oks, err) = local_exists_loop G g1 keys
           in (g2, (if err = None then ok # oks else []), err)))"

definition local_ExistsMulti ::
  "'g gcache_ops \<Rightarrow> 'g \<Rightarrow> string list \<Rightarrow> 'g \<times> bool list \<times> cache_error option" where
  "local_ExistsMulti G g keys = (if keys = [] then (g, [], None) else local_exists_loop G g keys)"

definition local_Set ::
  "'g gcache_ops \<Rightarrow> heap \<Rightarrow> 'g \<Rightarrow> string \<Rightarrow> goval \<Rightarrow> int \<Rightarrow> 'g call" where
  "local_Set G h g key val ttl = (let (g1, err) = gc_SetWithExpire G g key val ttl in Done ((g1, h), err))"

fun local_set_loop ::
  "'g gcache_ops \<Rightarrow> heap \<Rightarrow> 'g \<Rightarrow> int \<Rightarrow> (string \<times> goval) list \<Rightarrow> 'g call" where
  "local_set_loop G h g ttl [] = Done ((g, h), None)"
| "local_set_loop G h g ttl ((key, v) # kvs) =
     obind (local_Set G h g key v ttl) (\<lambda>((g1, h1), err).
       case err of None \<Rightarrow> local_set_loop G h1 g1 ttl kvs | Some e \<Rightarrow> Done ((g1, h1), Some e))"

definition local_SetMulti ::
  "'g gcache_ops \<Rightarrow> heap \<Rightarrow> 'g \<Rightarrow> string list \<Rightarrow> goval \<Rightarrow> int \<Rightarrow> 'g call" where
  "local_SetMulti G h g keys vals ttl =
     (let srcV = Indirect h (ValueOf vals)
      in if rkind srcV \<noteq> KSlice then Done ((g, h), Some (StoreErr StoreBadSrcType))
         else if length (slice_elems srcV) \<noteq> length keys
         then Done ((g, h), Some (StoreErr StoreKeysLengthNotMatch))
         else local_set_loop G h g ttl (zip keys (slice_elems srcV)))"

definition local_Delete :: "'g gcache_ops \<Rightarrow> heap \<Rightarrow> 'g \<Rightarrow> string list \<Rightarrow> 'g call" where
  "local_Delete G h g keys = Done ((foldl (gc_Remove G) g keys, h), None)"

definition LocalStore :: "'g gcache_ops \<Rightarrow> (gotype \<Rightarrow> gotype) \<Rightarrow> 'g store_ops" where
  "LocalStore G RecursiveIndirectType =
     \<lparr>st_Get = local_Get G RecursiveIndirectType, st_GetMulti = local_GetMulti G,
      st_Exists = local_Exists G, st_ExistsMulti = local_ExistsMulti G, st_Set = local_Set G,
      st_SetMulti = local_SetMulti G, st_Delete = local_Delete G\<rparr>"

text \<open>\<open>NewLocalStore\<close> lets gcache build an LRU cache for a number of elements.\<close>

definition NewLocalStore :: "(int \<Rightarrow> 'g) \<Rightarrow> int \<Rightarrow> 'g" where
  "NewLocalStore build n = build n"

text \<open>The panicking variants.\<close>

definition local_MustGet ::
  "'g gcache_ops \<Rightarrow> (gotype \<Rightarrow> gotype) \<Rightarrow> heap \<Rightarrow> 'g \<Rightarrow> string \<Rightarrow> goval \<Rightarrow> ('g \<times> heap) outcome" where
  "local_MustGet G RecursiveIndirectType h g key dst = PanicIf (local_Get G RecursiveIndirectType h g key dst)"

definition local_MustGetMulti ::
  "'g gcache_ops \<Rightarrow> heap \<Rightarrow> 'g \<Rightarrow> string list \<Rightarrow> goval \<Rightarrow> ('g \<times> heap) outcome" where
  "local_MustGetMulti G h g keys dstMap = PanicIf (local_GetMulti G h g keys dstMap)"

definition local_MustExists :: "'g gcache_ops \<Rightarrow> 'g \<Rightarrow> string \<Rightarrow> ('g \<times> bool) outcome" where
  "local_MustExists G g key =
     (case local_Exists G g key of
        (g1, ok, Some err) \<Rightarrow> Panic (error_text err) | (g1, ok, None) \<Rightarrow> Done (g1, ok))"

definition local_MustExistsMulti :: "'g gcache_ops \<Rightarrow> 'g \<Rightarrow> string list \<Rightarrow> ('g \<times> bool list) outcome" where
  "local_MustExistsMulti G g keys =
     (case local_ExistsMulti G g keys of (g1, ret, err) \<Rightarrow> PanicIf (Done ((g1, ret), err)))"

definition local_MustSet ::
  "'g gcache_ops \<Rightarrow> heap \<Rightarrow> 'g \<Rightarrow> string \<Rightarrow> goval \<Rightarrow> int \<Rightarrow> ('g \<times> heap) outcome" where
  "local_MustSet G h g key val ttl = PanicIf (local_Set G h g key val ttl)"

definition local_MustSetMulti ::
  "'g gcache_ops \<Rightarrow> heap \<Rightarrow> 'g \<Rightarrow> string list \<Rightarrow> goval \<Rightarrow> int \<Rightarrow> ('g \<times> heap) outcome" where
  "local_MustSetMulti G h g keys vals ttl = PanicIf (local_SetMulti G h g keys vals ttl)"

definition local_MustDelete :: "'g gcache_ops \<Rightarrow> heap \<Rightarrow> 'g \<Rightarrow> string list \<Rightarrow> ('g \<times> heap) outcome" where
  "local_MustDelete G h g keys =
     obind (local_Delete G h g keys) (\<lambda>(gh, err). case err of None \<Rightarrow> Done gh | Some e \<Rightarrow> Panic (error_text e))"

section \<open>Serializers\<close>

text \<open>
  Bytes are a string. \<open>decode\<close> writes through the pointer it is given; what the library
  functions do is in \<open>json_ops\<close>: \<open>json.Unmarshal\<close>, one \<open>Decode\<close> of a decoder, one \<open>Encode\<close> with the
  escape flag, the text a gzip reader yields, what a gzip writer has emitted after \<open>Write\<close> and
  \<open>Flush\<close>, and what its \<open>Close\<close> appends.
\<close>

type_synonym bytes = string

record serializer =
  sz_decode :: "heap \<Rightarrow> bytes \<Rightarrow> goval \<Rightarrow> heap \<times> cache_error option"
  sz_encode :: "heap \<Rightarrow> goval \<Rightarrow> cache_error + bytes"

record json_ops =
  js_Unmarshal :: "heap \<Rightarrow> bytes \<Rightarrow> goval \<Rightarrow> heap \<times> cache_error option"
  js_Decode :: "heap \<Rightarrow> bytes \<Rightarrow> goval \<Rightarrow> heap \<times> cache_error option"
  js_Encode :: "bool \<Rightarrow> heap \<Rightarrow> goval \<Rightarrow> cache_error + bytes"
  gz_NewReader :: "bytes \<Rightarrow> cache_error + bytes"
  gz_Flush :: "bytes \<Rightarrow> cache_error + bytes"
  gz_Close :: "bytes \<Rightarrow> bytes"

record json_serializer =
  js_compress :: bool
  js_escapeHTML :: bool

definition NewJsonSerializer :: "bool \<Rightarrow> bool \<Rightarrow> json_serializer" where
  "NewJsonSerializer compress escapeHTML =
     \<lparr>js_compress = compress, js_escapeHTML = escapeHTML\<rparr>"

definition json_decode ::
  "json_ops \<Rightarrow> json_serializer \<Rightarrow> heap \<Rightarrow> bytes \<Rightarrow> goval \<Rightarrow> heap \<times> cache_error option" where
  "json_decode J j h src dst =
     (if js_compress j then
        case gz_NewReader J src of
          Inl err \<Rightarrow> (h, Some err)
        | Inr plain \<Rightarrow> js_Decode J h plain dst
      else js_Unmarshal J h src dst)"

text \<open>
  The deferred \<open>Close\<close> of the gzip writer runs after \<open>buf.Bytes()\<close> was taken: what it appends to
  the buffer is not in the result.
\<close>

definition json_encode ::
  "json_ops \<Rightarrow> json_serializer \<Rightarrow> heap \<Rightarrow> goval \<Rightarrow> cache_error + bytes" where
  "json_encode J j h val =
     (case js_Encode J (js_escapeHTML j) h val of
        Inl err \<Rightarrow> Inl err
      | Inr text \<Rightarrow>
          if js_compress j then (case gz_Flush J text of Inl err \<Rightarrow> Inl err | Inr buf \<Rightarrow> Inr buf)
          else Inr text)"

definition JsonSerializer :: "json_ops \<Rightarrow> json_serializer \<Rightarrow> serializer" where
  "JsonSerializer J j = \<lparr>sz_decode = json_decode J j, sz_encode = json_encode J j\<rparr>"

section \<open>RedisStore\<close>

text \<open>
  The commands the store sends, with their results; \<open>rd_Exec\<close> executes a pipeline and returns the
  integer result of every command.
\<close>

datatype redis_cmd = CmdSet string bytes int | CmdExists string

record 'r redis_ops =
  rd_Get :: "'r \<Rightarrow> string \<Rightarrow> 'r \<times> (cache_error + bytes)"
  rd_MGet :: "'r \<Rightarrow> string list \<Rightarrow> 'r \<times> (cache_error + bytes option list)"
  rd_Set :: "'r \<Rightarrow> string \<Rightarrow> bytes \<Rightarrow> int \<Rightarrow> 'r \<times> cache_error option"
  rd_Del :: "'r \<Rightarrow> string list \<Rightarrow> 'r \<times> cache_error option"
  rd_Exists :: "'r \<Rightarrow> string \<Rightarrow> 'r \<times> int \<times> cache_error option"
  rd_Exec :: "'r \<Rightarrow> redis_cmd list \<Rightarrow> 'r \<times> int list \<times> cache_error option"

definition redis_Get ::
  "'r redis_ops \<Rightarrow> serializer \<Rightarrow> heap \<Rightarrow> 'r \<Rightarrow> string \<Rightarrow> goval \<Rightarrow> 'r call" where
  "redis_Get R Z h r key dst =
     obind (TypeOf dst) (\<lambda>t.
       if kind_of t \<noteq> KPtr then Done ((r, h), Some (StoreErr StoreBadDstType))
       else case rd_Get R r key of
         (r1, Inl err) \<Rightarrow> Done ((r1, h), Some err)
       | (r1, Inr val) \<Rightarrow> (let (h1, err) = sz_decode Z h val dst in Done ((r1, h1), err)))"

fun redis_get_loop ::
  "serializer \<Rightarrow> rval \<Rightarrow> heap \<Rightarrow> (string \<times> bytes option) list \<Rightarrow>
     (heap \<times> cache_error option) outcome" where
  "redis_get_loop Z dstV h [] = Done (h, None)"
| "redis_get_loop Z dstV h ((key, None) # kvs) = redis_get_loop Z dstV h kvs"
| "redis_get_loop Z dstV h ((key, Some val) # kvs) =
     obind (rtype dstV) (\<lambda>t. obind (type_elem t) (\<lambda>vt.
       let (h1, v) = rNew vt h; (h2, err) = sz_decode Z h1 val v
       in case err of
            Some e \<Rightarrow> Done (h2, Some e)
          | None \<Rightarrow>
              obind (SetMapIndex h2 dstV (ValueOf (VStr key)) (Indirect h2 (ValueOf v))) (\<lambda>h3.
                redis_get_loop Z dstV h3 kvs)))"

definition redis_GetMulti ::
  "'r redis_ops \<Rightarrow> serializer \<Rightarrow> heap \<Rightarrow> 'r \<Rightarrow> string list \<Rightarrow> goval \<Rightarrow> 'r call" where
  "redis_GetMulti R Z h r keys dstMap =
     obind (map_dst (StoreErr StoreBadDstMapType) (StoreErr StoreBadDstMapValue) h dstMap)
       (\<lambda>(h1, dstV, err).
         case err of
           Some e \<Rightarrow> Done ((r, h1), Some e)
         | None \<Rightarrow>
             (case rd_MGet R r keys of
                (r1, Inl e) \<Rightarrow> Done ((r1, h1), Some e)
              | (r1, Inr vals) \<Rightarrow>
                  obind (redis_get_loop Z dstV h1 (zip keys vals)) (\<lambda>(h2, e).
                    Done ((r1, h2), e))))"

definition redis_Exists ::
  "'r redis_ops \<Rightarrow> 'r \<Rightarrow> string \<Rightarrow> 'r \<times> bool \<times> cache_error option" where
  "redis_Exists R r key = (let (r1, result, err) = rd_Exists R r key in (r1, result \<noteq> 0, err))"

definition redis_ExistsMulti ::
  "'r redis_ops \<Rightarrow> 'r \<Rightarrow> string list \<Rightarrow> 'r \<times> bool list \<times> cache_error option" where
  "redis_ExistsMulti R r keys =
     (if keys = [] then (r, [], None)
      else case rd_Exec R r (map CmdExists keys) of
        (r1, results, Some e) \<Rightarrow> (r1, [], Some e)
      | (r1, results, None) \<Rightarrow> (r1, map (\<lambda>n. n \<noteq> 0) results, None))"

definition redis_Set ::
  "'r redis_ops \<Rightarrow> serializer \<Rightarrow> heap \<Rightarrow> 'r \<Rightarrow> string \<Rightarrow> goval \<Rightarrow> int \<Rightarrow> 'r call" where
  "redis_Set R Z h r key val ttl =
     (case sz_encode Z h val of
        Inl err \<Rightarrow> Done ((r, h), Some err)
      | Inr buf \<Rightarrow> (let (r1, err) = rd_Set R r key buf ttl in Done ((r1, h), err)))"

text \<open>
  The function given to \<open>Pipelined\<close>: it queues one command per key and stops at the first value
  that cannot be encoded; then nothing is sent. A value that is not a pointer is encoded through
  its address, that is, as itself.
\<close>

fun redis_set_queue ::
  "serializer \<Rightarrow> heap \<Rightarrow> int \<Rightarrow> (string \<times> goval) list \<Rightarrow> cache_error + redis_cmd list" where
  "redis_set_queue Z h ttl [] = Inr []"
| "redis_set_queue Z h ttl ((key, v) # kvs) =
     (case sz_encode Z h v of
        Inl err \<Rightarrow> Inl err
      | Inr buf \<Rightarrow>
          (case redis_set_queue Z h ttl kvs of
             Inl err \<Rightarrow> Inl err
           | Inr cmds \<Rightarrow> Inr (CmdSet key buf ttl # cmds)))"

definition redis_SetMulti ::
  "'r redis_ops \<Rightarrow> serializer \<Rightarrow> heap \<Rightarrow> 'r \<Rightarrow> string list \<Rightarrow> goval \<Rightarrow> int \<Rightarrow> 'r call" where
  "redis_SetMulti R Z h r keys vals ttl =
     (let srcV = Indirect h (ValueOf vals)
      in if rkind srcV \<noteq> KSlice then Done ((r, h), Some (StoreErr StoreBadSrcType))
         else if length (slice_elems srcV) \<noteq> length keys
         then Done ((r, h), Some (StoreErr StoreKeysLengthNotMatch))
         else case redis_set_queue Z h ttl (zip keys (slice_elems srcV)) of
           Inl err \<Rightarrow> Done ((r, h), Some err)
         | Inr cmds \<Rightarrow> (let (r1, results, err) = rd_Exec R r cmds in Done ((r1, h), err)))"

definition redis_Delete :: "'r redis_ops \<Rightarrow> heap \<Rightarrow> 'r \<Rightarrow> string list \<Rightarrow> 'r call" where
  "redis_Delete R h r keys =
     (if keys = [] then Done ((r, h), None)
      else let (r1, err) = rd_Del R r keys in Done ((r1, h), err))"

definition RedisStore :: "'r redis_ops \<Rightarrow> serializer \<Rightarrow> 'r store_ops" where
  "RedisStore R Z =
     \<lparr>st_Get = redis_Get R Z, st_GetMulti = redis_GetMulti R Z, st_Exists = redis_Exists R,
      st_ExistsMulti = redis_ExistsMulti R, st_Set = redis_Set R Z,
      st_SetMulti = redis_SetMulti R Z, st_Delete = redis_Delete R\<rparr>"

text \<open>\<open>NewRedisStore\<close>: JSON, not compressed, HTML escaped, unless an option sets a serializer.\<close>

definition WithSerializer :: "serializer \<Rightarrow> serializer \<Rightarrow> serializer" where
  "WithSerializer t old = t"

definition NewRedisStore ::
  "json_ops \<Rightarrow> 'r redis_ops \<Rightarrow> (serializer \<Rightarrow> serializer) list \<Rightarrow> 'r store_ops" where
  "NewRedisStore J R options =
     RedisStore R (foldl (\<lambda>Z opt. opt Z) (JsonSerializer J (NewJsonSerializer False True)) options)"

section \<open>The panicking variants\<close>

definition store_MustGet :: "'st store_ops \<Rightarrow> heap \<Rightarrow> 'st \<Rightarrow> string \<Rightarrow> goval \<Rightarrow> ('st \<times> heap) outcome" where
  "store_MustGet S h st key dst = PanicIf (st_Get S h st key dst)"

definition store_MustGetMulti ::
  "'st store_ops \<Rightarrow> heap \<Rightarrow> 'st \<Rightarrow> string list \<Rightarrow> goval \<Rightarrow> ('st \<times> heap) outcome" where
  "store_MustGetMulti S h st keys dstMap = PanicIf (st_GetMulti S h st keys dstMap)"

definition store_MustExists :: "'st store_ops \<Rightarrow> 'st \<Rightarrow> string \<Rightarrow> ('st \<times> bool) outcome" where
  "store_MustExists S st key =
     (let (st1, ok, err) = st_Exists S st key in PanicIf (Done ((st1, ok), err)))"

definition store_MustExistsMulti ::
  "'st store_ops \<Rightarrow> 'st \<Rightarrow> string list \<Rightarrow> ('st \<times> bool list) outcome" where
  "store_MustExistsMulti S st keys =
     (let (st1, oks, err) = st_ExistsMulti S st keys in PanicIf (Done ((st1, oks), err)))"

definition store_MustSet ::
  "'st store_ops \<Rightarrow> heap \<Rightarrow> 'st \<Rightarrow> string \<Rightarrow> goval \<Rightarrow> int \<Rightarrow> ('st \<times> heap) outcome" where
  "store_MustSet S h st key val ttl = PanicIf (st_Set S h st key val ttl)"

definition store_MustSetMulti ::
  "'st store_ops \<Rightarrow> heap \<Rightarrow> 'st \<Rightarrow> string list \<Rightarrow> goval \<Rightarrow> int \<Rightarrow> ('st \<times> heap) outcome" where
  "store_MustSetMulti S h st keys vals ttl = PanicIf (st_SetMulti S h st keys vals ttl)"

definition store_MustDelete ::
  "'st store_ops \<Rightarrow> heap \<Rightarrow> 'st \<Rightarrow> string list \<Rightarrow> ('st \<times> heap) outcome" where
  "store_MustDelete S h st keys = PanicIf (st_Delete S h st keys)"

text \<open>Those of the local store are the same functions of its methods.\<close>

lemma local_Must:
  "local_MustGet G rit = store_MustGet (LocalStore G rit)"
  "local_MustGetMulti G = store_MustGetMulti (LocalStore G rit)"
  "local_MustExists G = store_MustExists (LocalStore G rit)"
  "local_MustExistsMulti G = store_MustExistsMulti (LocalStore G rit)"
  "local_MustSet G = store_MustSet (LocalStore G rit)"
  "local_MustSetMulti G = store_MustSetMulti (LocalStore G rit)"
  "local_MustDelete G = store_MustDelete (LocalStore G rit)"
  by (simp_all add: fun_eq_iff LocalStore_def PanicIf_def local_MustGet_def local_MustGetMulti_def
      local_MustExists_def local_MustExistsMulti_def local_MustSet_def local_MustSetMulti_def local_MustDelete_def
      store_MustGet_def store_MustGetMulti_def store_MustExists_def store_MustExistsMulti_def store_MustSet_def
      store_MustSetMulti_def store_MustDelete_def split: prod.split option.split)

text \<open>\<open>Exists\<close> and \<open>Delete\<close> of the local store know no error, so their variants never panic.\<close>

lemma local_exists_loop_no_error: "snd (snd (local_exists_loop G g keys)) = None"
proof (induction keys arbitrary: g)
  case (Cons key keys)
  obtain g1 ok where has: "gc_Has G g key = (g1, ok)" by fastforce
  from Cons [of g1] show ?case by (auto simp: local_Exists_def has split: prod.split)
qed simp

lemma local_Must_quiet:
  "\<exists>r. local_MustExists G g key = Done r" "\<exists>r. local_MustExistsMulti G g keys = Done r"
  "\<exists>r. local_MustDelete G h g keys = Done r"
proof -
  show "\<exists>r. local_MustExists G g key = Done r"
    by (auto simp: local_MustExists_def local_Exists_def split: prod.split)
  show "\<exists>r. local_MustExistsMulti G g keys = Done r"
    using local_exists_loop_no_error [of G g keys]
    by (auto simp: local_MustExistsMulti_def local_ExistsMulti_def PanicIf_def split: prod.split)
  show "\<exists>r. local_MustDelete G h g keys = Done r" by (simp add: local_MustDelete_def local_Delete_def)
qed

end
