(* ===== verification/Cache_Box.thy ===== *)
theory Cache_Box
  imports Cache_Store
begin

text \<open>
  The cache in front of a store (src/onecache/box.go, cache.go, options.go): \<open>Get\<close>, \<open>GetMulti\<close>,
  \<open>Evict\<close>, \<open>EvictMulti\<close>, \<open>Refresh\<close> and \<open>RefreshMulti\<close> with every check, error and panic of the
  code, over an arbitrary \<open>Store\<close>.
\<close>

section \<open>The cache\<close>

text \<open>
  \<open>limiter\<close> is the state of the rate limiter, when there is one; its \<open>TakeAvailable\<close> is an argument
  of the definitions that call it.
\<close>

record ('st, 'l) cache =
  c_store :: 'st
  c_expire :: int
  c_fallbackWhenError :: bool
  c_limiter :: "'l option"

type_synonym 'l limiter = "'l \<Rightarrow> int \<Rightarrow> 'l \<times> int"

definition FallbackWhenError :: "('st, 'l) cache \<Rightarrow> ('st, 'l) cache" where
  "FallbackWhenError c = c\<lparr>c_fallbackWhenError := True\<rparr>"

definition RateLimiter :: "'l \<Rightarrow> ('st, 'l) cache \<Rightarrow> ('st, 'l) cache" where
  "RateLimiter lim c = c\<lparr>c_limiter := Some lim\<rparr>"

definition NewCache ::
  "'st \<Rightarrow> int \<Rightarrow> (('st, 'l) cache \<Rightarrow> ('st, 'l) cache) list \<Rightarrow> ('st, 'l) cache" where
  "NewCache store expire opts =
     foldl (\<lambda>c opt. opt c)
       \<lparr>c_store = store, c_expire = expire, c_fallbackWhenError = False, c_limiter = None\<rparr> opts"

definition canFallbackWhenError ::
  "'l limiter \<Rightarrow> ('st, 'l) cache \<Rightarrow> ('st, 'l) cache \<times> bool" where
  "canFallbackWhenError TakeAvailable c =
     (if \<not> c_fallbackWhenError c then (c, False)
      else case c_limiter c of
        None \<Rightarrow> (c, True)
      | Some l \<Rightarrow>
          (let (l1, n) = TakeAvailable l 1 in (c\<lparr>c_limiter := Some l1\<rparr>, n \<noteq> 0)))"

lemma canFallback_store [simp]: "c_store (fst (canFallbackWhenError take_av c)) = c_store c"
  by (simp add: canFallbackWhenError_def split: option.split prod.split)

text \<open>What a call gives back: the cache, the heap, and an error.\<close>

type_synonym ('st, 'l) box_call = "((('st, 'l) cache \<times> heap) \<times> cache_error option) outcome"

text \<open>
  The functions the caller supplies. A fallback may write the heap, as it does when it builds the
  struct it returns a pointer to.
\<close>

type_synonym fallback_fn = "heap \<Rightarrow> heap \<times> (cache_error + goval)"
type_synonym fallback_multi_fn = "goval \<Rightarrow> heap \<Rightarrow> heap \<times> (cache_error + goval)"

text \<open>A call of a store method, its state put back into the cache.\<close>

definition on_store ::
  "('st, 'l) cache \<Rightarrow> 'st call \<Rightarrow> ('st, 'l) box_call" where
  "on_store c r = obind r (\<lambda>((st, h), err). Done ((c\<lparr>c_store := st\<rparr>, h), err))"

definition ttl_or :: "int \<Rightarrow> int option \<Rightarrow> int" where
  "ttl_or expire ttl = (case ttl of None \<Rightarrow> expire | Some d \<Rightarrow> d)"

text \<open>The test for a fallback result that counts as nothing.\<close>

definition nil_result :: "rval \<Rightarrow> bool outcome" where
  "nil_result r = (if r = RInvalid then Done True else if rkind r = KPtr then rIsNil r else Done False)"

section \<open>Get\<close>

text \<open>From the fallback on; \<open>rit\<close> is \<open>xreflect.RecursiveIndirectType\<close>.\<close>

definition cache_fallback ::
  "'st store_ops \<Rightarrow> (gotype \<Rightarrow> gotype) \<Rightarrow> ('st, 'l) cache \<Rightarrow> heap \<Rightarrow> string \<Rightarrow> fallback_fn \<Rightarrow>
     goval \<Rightarrow> int \<Rightarrow> ('st, 'l) box_call" where
  "cache_fallback S rit c h key fallbackFunc dst expire =
     (case fallbackFunc h of
        (h1, Inl err) \<Rightarrow> Done ((c, h1), Some err)
      | (h1, Inr fallbackResult) \<Rightarrow>
          let fV = ValueOf fallbackResult
          in obind (nil_result fV) (\<lambda>isNil.
            if isNil then Done ((c, h1), None)
            else
              let dstV = Indirect h1 (ValueOf dst)
              in obind (rtype dstV) (\<lambda>dt. obind (rtype fV) (\<lambda>ft.
                if kind_of (rit dt) \<noteq> kind_of (rit ft)
                then Done ((c, h1), Some (BoxErr ErrDstFallbackTypeMismatch))
                else obind (rSet h1 dstV fV) (\<lambda>h2.
                  obind (on_store c (st_Set S h2 (c_store c) key dst expire)) (\<lambda>(r, _).
                    Done (r, None)))))))"

definition cache_get ::
  "'st store_ops \<Rightarrow> 'l limiter \<Rightarrow> (gotype \<Rightarrow> gotype) \<Rightarrow> ('st, 'l) cache \<Rightarrow> heap \<Rightarrow> string \<Rightarrow>
     fallback_fn \<Rightarrow> goval \<Rightarrow> int \<Rightarrow> ('st, 'l) box_call" where
  "cache_get S TakeAvailable rit c h key fallbackFunc dst expire =
     (if rkind (ValueOf dst) \<noteq> KPtr then Done ((c, h), Some (BoxErr ErrBadDstType))
      else obind (on_store c (st_Get S h (c_store c) key dst)) (\<lambda>((c1, h1), err).
        case err of
          None \<Rightarrow> Done ((c1, h1), None)
        | Some e \<Rightarrow>
            if e = RedisNil \<or> e = KeyNotFoundError
            then cache_fallback S rit c1 h1 key fallbackFunc dst expire
            else
              let (c2, can) = canFallbackWhenError TakeAvailable c1
              in if can then cache_fallback S rit c2 h1 key fallbackFunc dst expire
                 else Done ((c2, h1), Some e)))"

definition cache_Get ::
  "'st store_ops \<Rightarrow> 'l limiter \<Rightarrow> (gotype \<Rightarrow> gotype) \<Rightarrow> ('st, 'l) cache \<Rightarrow> heap \<Rightarrow> string \<Rightarrow>
     fallback_fn \<Rightarrow> goval \<Rightarrow> int option \<Rightarrow> ('st, 'l) box_call" where
  "cache_Get S TakeAvailable rit c h key fallbackFunc dst ttl =
     cache_get S TakeAvailable rit c h key fallbackFunc dst (ttl_or (c_expire c) ttl)"

definition cache_MustGet ::
  "'st store_ops \<Rightarrow> 'l limiter \<Rightarrow> (gotype \<Rightarrow> gotype) \<Rightarrow> ('st, 'l) cache \<Rightarrow> heap \<Rightarrow> string \<Rightarrow>
     fallback_fn \<Rightarrow> goval \<Rightarrow> int option \<Rightarrow> (('st, 'l) cache \<times> heap) outcome" where
  "cache_MustGet S TakeAvailable rit c h key fallbackFunc dst ttl =
     PanicIf (cache_Get S TakeAvailable rit c h key fallbackFunc dst ttl)"

section \<open>GetMulti\<close>

text \<open>
  The keys of the ids, and the map from a key back to the (last) id it came from.
\<close>

definition revert_keys :: "(goval \<Rightarrow> string) \<Rightarrow> goval list \<Rightarrow> (string \<times> goval) list" where
  "revert_keys keyFunc ids = rev (map (\<lambda>i. (keyFunc i, i)) ids)"

definition revert_key :: "(goval \<Rightarrow> string) \<Rightarrow> goval list \<Rightarrow> string \<Rightarrow> goval" where
  "revert_key keyFunc ids key =
     (case map_of (revert_keys keyFunc ids) key of None \<Rightarrow> VNil | Some i \<Rightarrow> i)"

text \<open>The loop over the keys: what the store found is copied, the other ids are collected.\<close>

fun miss_loop ::
  "(string \<Rightarrow> goval) \<Rightarrow> gotype \<Rightarrow> rval \<Rightarrow> rval \<Rightarrow> heap \<Rightarrow> goval list \<Rightarrow> string list \<Rightarrow>
     (heap \<times> goval list) outcome" where
  "miss_loop revertKey mapKeyType dstV cacheDstV h missing [] = Done (h, missing)"
| "miss_loop revertKey mapKeyType dstV cacheDstV h missing (key # keys) =
     (let i = revertKey key
      in obind (MapIndex h cacheDstV (ValueOf (VStr key))) (\<lambda>v.
        if v = RInvalid
        then obind (rAppend mapKeyType missing (ValueOf i)) (\<lambda>missing1.
               miss_loop revertKey mapKeyType dstV cacheDstV h missing1 keys)
        else obind (SetMapIndex h dstV (ValueOf i) v) (\<lambda>h1.
               miss_loop revertKey mapKeyType dstV cacheDstV h1 missing keys)))"

text \<open>The loop over the fallback's result; a nil pointer in it is skipped.\<close>

fun fill_loop ::
  "(goval \<Rightarrow> string) \<Rightarrow> gotype \<Rightarrow> gotype \<Rightarrow> rval \<Rightarrow> rval \<Rightarrow> heap \<Rightarrow> (string \<times> goval) list \<Rightarrow>
     goval list \<Rightarrow> (heap \<times> (string \<times> goval) list) outcome" where
  "fill_loop keyFunc kt dstValueT dstV resultV h found [] = Done (h, found)"
| "fill_loop keyFunc kt dstValueT dstV resultV h found (k # ks) =
     obind (MapIndex h resultV (RVal kt k None)) (\<lambda>valueV.
       obind (nil_result valueV) (\<lambda>isNil.
         if isNil then fill_loop keyFunc kt dstValueT dstV resultV h found ks
         else obind (assign_to dstValueT valueV) (\<lambda>w.
           obind (SetMapIndex h dstV (RVal kt k None) valueV) (\<lambda>h1.
             fill_loop keyFunc kt dstValueT dstV resultV h1 (found @ [(keyFunc k, w)]) ks))))"

text \<open>From the fallback on.\<close>

definition multi_fallback ::
  "'st store_ops \<Rightarrow> ('st, 'l) cache \<Rightarrow> heap \<Rightarrow> (goval \<Rightarrow> string) \<Rightarrow> fallback_multi_fn \<Rightarrow>
     gotype \<Rightarrow> gotype \<Rightarrow> gotype \<Rightarrow> rval \<Rightarrow> goval list \<Rightarrow> int \<Rightarrow> ('st, 'l) box_call" where
  "multi_fallback S c h keyFunc fallbackFunc mapKeyType mapValueType dstValueT dstV missing expire =
     (case fallbackFunc (VSlice mapKeyType missing) h of
        (h1, Inl err) \<Rightarrow> Done ((c, h1), Some err)
      | (h1, Inr fallbackResult) \<Rightarrow>
          let resultV = ValueOf fallbackResult
          in if rkind resultV \<noteq> KMap then Done ((c, h1), Some (BoxErr ErrBadFallbackResultType))
             else obind (rtype resultV) (\<lambda>rt. obind (type_key rt) (\<lambda>kt. obind (type_elem rt) (\<lambda>vt.
               if kind_of kt \<noteq> kind_of mapKeyType \<or> kind_of vt \<noteq> kind_of mapValueType
               then Done ((c, h1), Some (BoxErr ErrDstFallbackTypeMismatch))
               else if map_entries h1 resultV = [] then Done ((c, h1), None)
               else obind (fill_loop keyFunc kt dstValueT dstV resultV h1 [] (MapKeys h1 resultV))
                 (\<lambda>(h2, found).
                   if found = [] then Done ((c, h2), None)
                   else obind (on_store c (st_SetMulti S h2 (c_store c) (map fst found)
                          (VSlice dstValueT (map snd found)) expire)) (\<lambda>(r, _).
                     Done (r, None)))))))"

definition cache_getMulti ::
  "'st store_ops \<Rightarrow> 'l limiter \<Rightarrow> (gotype \<Rightarrow> gotype) \<Rightarrow> ('st, 'l) cache \<Rightarrow> heap \<Rightarrow> goval \<Rightarrow>
     (goval \<Rightarrow> string) \<Rightarrow> fallback_multi_fn \<Rightarrow> goval \<Rightarrow> int \<Rightarrow> ('st, 'l) box_call" where
  "cache_getMulti S TakeAvailable rit c h ids keyFunc fallbackFunc dstMap expire =
     obind (map_dst (BoxErr ErrBadDstMapType) (BoxErr ErrBadDstMapValue) h dstMap)
       (\<lambda>(h1, dstV, dstErr).
     case dstErr of Some e \<Rightarrow> Done ((c, h1), Some e) | None \<Rightarrow>
     obind (TypeOf dstMap) (\<lambda>dmt.
     obind (type_key (rit dmt)) (\<lambda>mapKeyType.
     obind (type_elem (rit dmt)) (\<lambda>mapValueType.
     let idsV = ValueOf ids
     in if rkind idsV \<noteq> KSlice then Done ((c, h1), Some (BoxErr ErrBadSrcType))
     else
       let xs = slice_elems idsV
       in if xs = [] then Done ((c, h1), None)
       else obind (rtype idsV) (\<lambda>it. obind (type_elem it) (\<lambda>idT.
         if kind_of idT \<noteq> kind_of mapKeyType
         then Done ((c, h1), Some (BoxErr ErrDstFallbackTypeMismatch))
         else
           let keys = map keyFunc xs
           in obind (if rkind (ValueOf dstMap) = KPtr then type_elem dmt else Done dmt) (\<lambda>dvt.
              obind (type_elem dvt) (\<lambda>dstValueT.
                let (h2, cacheDst) = MakeMap TString dstValueT h1
                in obind (on_store c (st_GetMulti S h2 (c_store c) keys cacheDst))
                  (\<lambda>((c3, h3), err).
                    let (c4, go) = (if err = None then (c3, True)
                                    else canFallbackWhenError TakeAvailable c3)
                    in if \<not> go then Done ((c4, h3), err)
                    else obind (miss_loop (revert_key keyFunc xs) mapKeyType dstV
                                 (ValueOf cacheDst) h3 [] keys) (\<lambda>(h4, missing).
                      if missing = [] then Done ((c4, h4), None)
                      else multi_fallback S c4 h4 keyFunc fallbackFunc mapKeyType mapValueType
                             dstValueT dstV missing expire))))))))))"

definition cache_GetMulti ::
  "'st store_ops \<Rightarrow> 'l limiter \<Rightarrow> (gotype \<Rightarrow> gotype) \<Rightarrow> ('st, 'l) cache \<Rightarrow> heap \<Rightarrow> goval \<Rightarrow>
     (goval \<Rightarrow> string) \<Rightarrow> fallback_multi_fn \<Rightarrow> goval \<Rightarrow> int option \<Rightarrow> ('st, 'l) box_call" where
  "cache_GetMulti S TakeAvailable rit c h ids keyFunc fallbackFunc dstMap ttl =
     cache_getMulti S TakeAvailable rit c h ids keyFunc fallbackFunc dstMap
       (ttl_or (c_expire c) ttl)"

definition cache_MustGetMulti ::
  "'st store_ops \<Rightarrow> 'l limiter \<Rightarrow> (gotype \<Rightarrow> gotype) \<Rightarrow> ('st, 'l) cache \<Rightarrow> heap \<Rightarrow> goval \<Rightarrow>
     (goval \<Rightarrow> string) \<Rightarrow> fallback_multi_fn \<Rightarrow> goval \<Rightarrow> int option \<Rightarrow>
     (('st, 'l) cache \<times> heap) outcome" where
  "cache_MustGetMulti S TakeAvailable rit c h ids keyFunc fallbackFunc dstMap ttl =
     PanicIf (cache_GetMulti S TakeAvailable rit c h ids keyFunc fallbackFunc dstMap ttl)"

section \<open>Evict\<close>

definition cache_Evict ::
  "'st store_ops \<Rightarrow> ('st, 'l) cache \<Rightarrow> heap \<Rightarrow> string \<Rightarrow> ('st, 'l) box_call" where
  "cache_Evict S c h key = on_store c (st_Delete S h (c_store c) [key])"

definition cache_MustEvict ::
  "'st store_ops \<Rightarrow> ('st, 'l) cache \<Rightarrow> heap \<Rightarrow> string \<Rightarrow> (('st, 'l) cache \<times> heap) outcome" where
  "cache_MustEvict S c h key = PanicIf (cache_Evict S c h key)"

definition cache_EvictMulti ::
  "'st store_ops \<Rightarrow> ('st, 'l) cache \<Rightarrow> heap \<Rightarrow> goval \<Rightarrow> (goval \<Rightarrow> string) \<Rightarrow> ('st, 'l) box_call" where
  "cache_EvictMulti S c h ids keyFunc =
     (let idsV = ValueOf ids
      in if rkind idsV \<noteq> KSlice then Done ((c, h), Some (BoxErr ErrBadIdsType))
         else if slice_elems idsV = [] then Done ((c, h), None)
         else on_store c (st_Delete S h (c_store c) (map keyFunc (slice_elems idsV))))"

definition cache_MustEvictMulti ::
  "'st store_ops \<Rightarrow> ('st, 'l) cache \<Rightarrow> heap \<Rightarrow> goval \<Rightarrow> (goval \<Rightarrow> string) \<Rightarrow>
     (('st, 'l) cache \<times> heap) outcome" where
  "cache_MustEvictMulti S c h ids keyFunc = PanicIf (cache_EvictMulti S c h ids keyFunc)"

section \<open>Refresh\<close>

text \<open>
  From the fallback on, and the whole. \<open>p\<close> is the type of the sample value the caller gives; \<open>Refresh\<close>
  with nil has none.
\<close>

definition cache_refill ::
  "'st store_ops \<Rightarrow> ('st, 'l) cache \<Rightarrow> heap \<Rightarrow> string \<Rightarrow> fallback_fn \<Rightarrow> gotype option \<Rightarrow> int \<Rightarrow>
     ('st, 'l) box_call" where
  "cache_refill S c h key fallbackFunc p expire =
     (case fallbackFunc h of
        (h1, Inl err) \<Rightarrow> Done ((c, h1), Some err)
      | (h1, Inr fallbackResult) \<Rightarrow>
          let fV = ValueOf fallbackResult
          in obind (nil_result fV) (\<lambda>isNil.
            if isNil then Done ((c, h1), None)
            else obind (rtype (Indirect h1 fV)) (\<lambda>right.
              case p of
                None \<Rightarrow> Panic ''invalid memory address or nil pointer dereference''
              | Some left \<Rightarrow>
                  if kind_of left \<noteq> kind_of right
                  then Done ((c, h1), Some (BoxErr ErrDstFallbackTypeMismatch))
                  else on_store c (st_Set S h1 (c_store c) key fallbackResult expire))))"

definition cache_refresh ::
  "'st store_ops \<Rightarrow> ('st, 'l) cache \<Rightarrow> heap \<Rightarrow> string \<Rightarrow> fallback_fn \<Rightarrow> gotype option \<Rightarrow> int \<Rightarrow>
     ('st, 'l) box_call" where
  "cache_refresh S c h key fallbackFunc p expire =
     obind (on_store c (st_Delete S h (c_store c) [key])) (\<lambda>((c1, h1), delErr).
       case delErr of
         Some e \<Rightarrow> Done ((c1, h1), Some e)
       | None \<Rightarrow> cache_refill S c1 h1 key fallbackFunc p expire)"

definition cache_Refresh ::
  "'st store_ops \<Rightarrow> ('st, 'l) cache \<Rightarrow> heap \<Rightarrow> string \<Rightarrow> fallback_fn \<Rightarrow> goval \<Rightarrow> int option \<Rightarrow>
     ('st, 'l) box_call" where
  "cache_Refresh S c h key fallbackFunc i ttl =
     cache_refresh S c h key fallbackFunc (if i = VNil then None else Some (typeof i))
       (ttl_or (c_expire c) ttl)"

definition cache_MustRefresh ::
  "'st store_ops \<Rightarrow> ('st, 'l) cache \<Rightarrow> heap \<Rightarrow> string \<Rightarrow> fallback_fn \<Rightarrow> goval \<Rightarrow> int option \<Rightarrow>
     (('st, 'l) cache \<times> heap) outcome" where
  "cache_MustRefresh S c h key fallbackFunc i ttl =
     PanicIf (cache_Refresh S c h key fallbackFunc i ttl)"

text \<open>The loop that collects keys and values of the fallback's result.\<close>

fun collect_loop ::
  "(goval \<Rightarrow> string) \<Rightarrow> gotype \<Rightarrow> gotype \<Rightarrow> heap \<Rightarrow> rval \<Rightarrow> goval list \<Rightarrow>
     (string \<times> goval) list outcome" where
  "collect_loop keyFunc rKeyT rValT h rV [] = Done []"
| "collect_loop keyFunc rKeyT rValT h rV (k # ks) =
     obind (MapIndex h rV (RVal rKeyT k None)) (\<lambda>v.
     obind (assign_to rValT v) (\<lambda>w.
     obind (collect_loop keyFunc rKeyT rValT h rV ks) (\<lambda>kvs. Done ((keyFunc k, w) # kvs))))"

text \<open>From the fallback on.\<close>

definition refresh_fallback ::
  "'st store_ops \<Rightarrow> ('st, 'l) cache \<Rightarrow> heap \<Rightarrow> goval \<Rightarrow> (goval \<Rightarrow> string) \<Rightarrow> fallback_multi_fn \<Rightarrow>
     gotype \<Rightarrow> gotype \<Rightarrow> int \<Rightarrow> ('st, 'l) box_call" where
  "refresh_fallback S c h ids keyFunc fallbackFunc dstKeyT dstValT expire =
     (case fallbackFunc ids h of
        (h1, Inl err) \<Rightarrow> Done ((c, h1), Some err)
      | (h1, Inr r) \<Rightarrow>
          let rV = ValueOf r in
          obind (rtype rV) (\<lambda>rT.
          if rkind rV \<noteq> KMap then Done ((c, h1), Some (BoxErr ErrBadFallbackResultType))
          else if map_entries h1 rV = [] then Done ((c, h1), None)
          else obind (type_key rT) (\<lambda>rKeyT. obind (type_elem rT) (\<lambda>rValT.
          if rKeyT \<noteq> dstKeyT \<or> rValT \<noteq> dstValT
          then Done ((c, h1), Some (BoxErr ErrDstFallbackTypeMismatch))
          else obind (collect_loop keyFunc rKeyT rValT h1 rV (MapKeys h1 rV)) (\<lambda>kvs.
            on_store c (st_SetMulti S h1 (c_store c) (map fst kvs)
              (VSlice rValT (map snd kvs)) expire))))))"

definition cache_refreshMulti ::
  "'st store_ops \<Rightarrow> ('st, 'l) cache \<Rightarrow> heap \<Rightarrow> goval \<Rightarrow> (goval \<Rightarrow> string) \<Rightarrow> fallback_multi_fn \<Rightarrow>
     goval \<Rightarrow> int \<Rightarrow> ('st, 'l) box_call" where
  "cache_refreshMulti S c h ids keyFunc fallbackFunc dst expire =
     (let dstV = ValueOf dst in
      obind (rtype dstV) (\<lambda>dstT.
      if rkind dstV \<noteq> KMap then Done ((c, h), Some (BoxErr ErrBadDstType))
      else obind (rIsNil dstV) (\<lambda>dstNil.
      if dstNil then Done ((c, h), Some (BoxErr ErrBadDstMapValue))
      else obind (type_key dstT) (\<lambda>dstKeyT. obind (type_elem dstT) (\<lambda>dstValT.
      let idsV = ValueOf ids in
      obind (rtype idsV) (\<lambda>idsT.
      if rkind idsV \<noteq> KSlice then Done ((c, h), Some (BoxErr ErrBadIdsType))
      else if slice_elems idsV = [] then Done ((c, h), None)
      else obind (type_elem idsT) (\<lambda>idsValT.
      if idsValT \<noteq> dstKeyT then Done ((c, h), Some (BoxErr ErrSrcDstTypeMismatch))
      else obind (on_store c (st_Delete S h (c_store c) (map keyFunc (slice_elems idsV))))
        (\<lambda>((c1, h1), delErr).
      case delErr of
        Some e \<Rightarrow> Done ((c1, h1), Some e)
      | None \<Rightarrow> refresh_fallback S c1 h1 ids keyFunc fallbackFunc dstKeyT dstValT expire))))))))"

definition cache_RefreshMulti ::
  "'st store_ops \<Rightarrow> ('st, 'l) cache \<Rightarrow> heap \<Rightarrow> goval \<Rightarrow> (goval \<Rightarrow> string) \<Rightarrow> fallback_multi_fn \<Rightarrow>
     goval \<Rightarrow> int option \<Rightarrow> ('st, 'l) box_call" where
  "cache_RefreshMulti S c h ids keyFunc fallbackFunc dst ttl =
     cache_refreshMulti S c h ids keyFunc fallbackFunc dst (ttl_or (c_expire c) ttl)"

definition cache_MustRefreshMulti ::
  "'st store_ops \<Rightarrow> ('st, 'l) cache \<Rightarrow> heap \<Rightarrow> goval \<Rightarrow> (goval \<Rightarrow> string) \<Rightarrow> fallback_multi_fn \<Rightarrow>
     goval \<Rightarrow> int option \<Rightarrow> (('st, 'l) cache \<times> heap) outcome" where
  "cache_MustRefreshMulti S c h ids keyFunc fallbackFunc dst ttl =
     PanicIf (cache_refreshMulti S c h ids keyFunc fallbackFunc dst (ttl_or (c_expire c) ttl))"

section \<open>The interface\<close>

text \<open>\<open>CacheBox\<close> (cache.go), which \<open>Cache\<close> implements.\<close>

record ('st, 'l) cache_box =
  bx_Get :: "('st, 'l) cache \<Rightarrow> heap \<Rightarrow> string \<Rightarrow> fallback_fn \<Rightarrow> goval \<Rightarrow> int option \<Rightarrow> ('st, 'l) box_call"
  bx_MustGet :: "('st, 'l) cache \<Rightarrow> heap \<Rightarrow> string \<Rightarrow> fallback_fn \<Rightarrow> goval \<Rightarrow> int option \<Rightarrow>
    (('st, 'l) cache \<times> heap) outcome"
  bx_GetMulti :: "('st, 'l) cache \<Rightarrow> heap \<Rightarrow> goval \<Rightarrow> (goval \<Rightarrow> string) \<Rightarrow> fallback_multi_fn \<Rightarrow> goval \<Rightarrow>
    int option \<Rightarrow> ('st, 'l) box_call"
  bx_MustGetMulti :: "('st, 'l) cache \<Rightarrow> heap \<Rightarrow> goval \<Rightarrow> (goval \<Rightarrow> string) \<Rightarrow> fallback_multi_fn \<Rightarrow> goval \<Rightarrow>
    int option \<Rightarrow> (('st, 'l) cache \<times> heap) outcome"
  bx_Evict :: "('st, 'l) cache \<Rightarrow> heap \<Rightarrow> string \<Rightarrow> ('st, 'l) box_call"
  bx_MustEvict :: "('st, 'l) cache \<Rightarrow> heap \<Rightarrow> string \<Rightarrow> (('st, 'l) cache \<times> heap) outcome"
  bx_EvictMulti :: "('st, 'l) cache \<Rightarrow> heap \<Rightarrow> goval \<Rightarrow> (goval \<Rightarrow> string) \<Rightarrow> ('st, 'l) box_call"
  bx_MustEvictMulti :: "('st, 'l) cache \<Rightarrow> heap \<Rightarrow> goval \<Rightarrow> (goval \<Rightarrow> string) \<Rightarrow> (('st, 'l) cache \<times> heap) outcome"
  bx_Refresh :: "('st, 'l) cache \<Rightarrow> heap \<Rightarrow> string \<Rightarrow> fallback_fn \<Rightarrow> goval \<Rightarrow> int option \<Rightarrow> ('st, 'l) box_call"
  bx_MustRefresh :: "('st, 'l) cache \<Rightarrow> heap \<Rightarrow> string \<Rightarrow> fallback_fn \<Rightarrow> goval \<Rightarrow> int option \<Rightarrow>
    (('st, 'l) cache \<times> heap) outcome"
  bx_RefreshMulti :: "('st, 'l) cache \<Rightarrow> heap \<Rightarrow> goval \<Rightarrow> (goval \<Rightarrow> string) \<Rightarrow> fallback_multi_fn \<Rightarrow> goval \<Rightarrow>
    int option \<Rightarrow> ('st, 'l) box_call"
  bx_MustRefreshMulti :: "('st, 'l) cache \<Rightarrow> heap \<Rightarrow> goval \<Rightarrow> (goval \<Rightarrow> string) \<Rightarrow> fallback_multi_fn \<Rightarrow> goval \<Rightarrow>
    int option \<Rightarrow> (('st, 'l) cache \<times> heap) outcome"

definition Cache_box :: "'st store_ops \<Rightarrow> 'l limiter \<Rightarrow> (gotype \<Rightarrow> gotype) \<Rightarrow> ('st, 'l) cache_box" where
  "Cache_box S TakeAvailable rit =
     \<lparr>bx_Get = cache_Get S TakeAvailable rit, bx_MustGet = cache_MustGet S TakeAvailable rit,
      bx_GetMulti = cache_GetMulti S TakeAvailable rit, bx_MustGetMulti = cache_MustGetMulti S TakeAvailable rit,
      bx_Evict = cache_Evict S, bx_MustEvict = cache_MustEvict S,
      bx_EvictMulti = cache_EvictMulti S, bx_MustEvictMulti = cache_MustEvictMulti S,
      bx_Refresh = cache_Refresh S, bx_MustRefresh = cache_MustRefresh S,
      bx_RefreshMulti = cache_RefreshMulti S, bx_MustRefreshMulti = cache_MustRefreshMulti S\<rparr>"

text \<open>
  What the interface promises of the second of each pair: it returns what the first returns when that
  is no error, and panics, with the text of the error, when it is one.
\<close>

lemma Cache_box_Must:
  fixes S :: "'st store_ops" and TakeAvailable :: "'l limiter" and rit :: "gotype \<Rightarrow> gotype"
  defines "B \<equiv> Cache_box S TakeAvailable rit"
  shows "bx_MustGet B c h key f dst ttl = PanicIf (bx_Get B c h key f dst ttl)"
    "bx_MustGetMulti B c h ids keyFunc g dst ttl = PanicIf (bx_GetMulti B c h ids keyFunc g dst ttl)"
    "bx_MustEvict B c h key = PanicIf (bx_Evict B c h key)"
    "bx_MustEvictMulti B c h ids keyFunc = PanicIf (bx_EvictMulti B c h ids keyFunc)"
    "bx_MustRefresh B c h key f dst ttl = PanicIf (bx_Refresh B c h key f dst ttl)"
    "bx_MustRefreshMulti B c h ids keyFunc g dst ttl = PanicIf (bx_RefreshMulti B c h ids keyFunc g dst ttl)"
  by (simp_all add: B_def Cache_box_def cache_MustGet_def cache_MustGetMulti_def cache_MustEvict_def
      cache_MustEvictMulti_def cache_MustRefresh_def cache_MustRefreshMulti_def cache_RefreshMulti_def)

end
