(* ===== verification/Cache_Local.thy ===== *)
theory Cache_Local
  imports Cache_Box
begin

text \<open>
  What a cache promises: which calls reach the fallback, what a call may write, and the
  behaviour of a cache over \<open>LocalStore\<close>, where values are kept as they are handed in.
\<close>

section \<open>What the libraries promise\<close>

text \<open>
  A gcache with room for the entry: a value set with a positive lifetime is what the next lookup
  gives; a removed key is not found.
\<close>

definition gcache_law :: "'g gcache_ops \<Rightarrow> bool" where
  "gcache_law G \<longleftrightarrow>
     (\<forall>g key v ttl. 0 < ttl \<longrightarrow>
        (\<exists>g1 g2. gc_SetWithExpire G g key v ttl = (g1, None) \<and> gc_Get G g1 key = (g2, Inr v))) \<and>
     (\<forall>g key. \<exists>g1. gc_Get G (gc_Remove G g key) key = (g1, Inl KeyNotFoundError))"

text \<open>\<open>RecursiveIndirectType\<close> strips the pointers of a type.\<close>

definition strips_pointers :: "(gotype \<Rightarrow> gotype) \<Rightarrow> bool" where
  "strips_pointers rit \<longleftrightarrow>
     (\<forall>t. rit (TPtr t) = rit t) \<and> (\<forall>t. kind_of t \<noteq> KPtr \<longrightarrow> rit t = t)"

text \<open>An instance of each: a gcache that never evicts, and the obvious recursion.\<close>

definition map_gcache :: "(string \<rightharpoonup> goval) gcache_ops" where
  "map_gcache =
     \<lparr>gc_Get = (\<lambda>g key. (g, case g key of None \<Rightarrow> Inl KeyNotFoundError | Some v \<Rightarrow> Inr v)),
      gc_SetWithExpire = (\<lambda>g key v ttl. (g(key \<mapsto> v), None)),
      gc_Has = (\<lambda>g key. (g, g key \<noteq> None)),
      gc_Remove = (\<lambda>g key. g(key := None))\<rparr>"

lemma map_gcache_law: "gcache_law map_gcache"
  by (simp add: gcache_law_def map_gcache_def)

fun strip_pointers :: "gotype \<Rightarrow> gotype" where
  "strip_pointers (TPtr t) = strip_pointers t"
| "strip_pointers t = t"

lemma strip_pointers_strips: "strips_pointers strip_pointers"
proof -
  have "kind_of t \<noteq> KPtr \<Longrightarrow> strip_pointers t = t" for t by (cases t) simp_all
  then show ?thesis by (simp add: strips_pointers_def)
qed

section \<open>What a call may write\<close>

text \<open>
  The part of the \<open>Store\<close> contract both stores keep whatever their libraries do: the methods that
  write the store do not write the heap.
\<close>

locale store_writes =
  fixes S :: "'st store_ops"
  assumes set_heap: "st_Set S h st key v ttl = Done ((st1, h1), e) \<Longrightarrow> h1 = h"
    and set_multi_heap: "st_SetMulti S h st keys vs ttl = Done ((st1, h1), e) \<Longrightarrow> h1 = h"
    and delete_heap: "st_Delete S h st keys = Done ((st1, h1), e) \<Longrightarrow> h1 = h"
begin

lemma evict_heap: "cache_Evict S c h key = Done ((c1, h1), e) \<Longrightarrow> h1 = h"
  by (auto simp: cache_Evict_def on_store_def obind_Done_iff dest: delete_heap)

lemma evict_multi_heap: "cache_EvictMulti S c h ids keyFunc = Done ((c1, h1), e) \<Longrightarrow> h1 = h"
  by (auto simp: cache_EvictMulti_def on_store_def obind_Done_iff Let_def dest: delete_heap
      split: if_splits)

text \<open>The heap after a refresh is the one before, or the one the fallback left.\<close>

lemma refresh_heap:
  assumes "cache_refresh S c h key fallbackFunc p expire = Done ((c1, h1), e)"
  shows "h1 = h \<or> h1 = fst (fallbackFunc h)"
  using assms
  by (auto simp: cache_refresh_def cache_refill_def on_store_def obind_Done_iff Let_def dest!: delete_heap set_heap
      split: option.splits prod.splits sum.splits if_splits)

lemma refresh_fallback_heap:
  "opost (\<lambda>((c1, h1), e). h1 = fst (fallbackFunc ids h))
     (refresh_fallback S c h ids keyFunc fallbackFunc dstKeyT dstValT expire)"
  by (auto simp: refresh_fallback_def on_store_def Let_def intro!: opostI dest: set_multi_heap
      split: prod.splits sum.splits)

lemma refresh_multi_heap:
  "opost (\<lambda>((c1, h1), e). h1 = h \<or> h1 = fst (fallbackFunc ids h))
     (cache_refreshMulti S c h ids keyFunc fallbackFunc dst expire)"
proof -
  have del: "opost (\<lambda>((c1, h1), e). h1 = h) (on_store c (st_Delete S h (c_store c) keys))" for keys
    by (auto simp: on_store_def intro!: opostI dest: delete_heap)
  have "opost (\<lambda>((c1, h1), e). h1 = h \<or> h1 = fst (fallbackFunc ids h))
    (obind (on_store c (st_Delete S h (c_store c) keys)) (\<lambda>((c1, h1), delErr).
      case delErr of
        Some e \<Rightarrow> Done ((c1, h1), Some e)
      | None \<Rightarrow> refresh_fallback S c1 h1 ids keyFunc fallbackFunc kt vt expire))" for keys kt vt
    by (subst opost_simps, rule opost_mono [OF del])
      (auto intro: refresh_fallback_heap [THEN opost_mono] split: option.split)
  then show ?thesis
    unfolding cache_refreshMulti_def Let_def by (auto intro!: opostI dest!: opostD simp: obind_Done_iff split: if_splits)
qed

end

lemma local_set_loop_heap:
  "local_set_loop G h g ttl kvs = Done ((g1, h1), e) \<Longrightarrow> h1 = h"
  by (induction G h g ttl kvs rule: local_set_loop.induct)
    (auto simp: local_Set_def obind_Done_iff split: option.splits prod.splits)

interpretation local_writes: store_writes "LocalStore G rit" for G rit
  by unfold_locales
    (auto simp: LocalStore_def local_Set_def local_SetMulti_def local_Delete_def Let_def
      dest: local_set_loop_heap split: prod.splits if_splits)

interpretation redis_writes: store_writes "RedisStore R Z" for R Z
  by unfold_locales
    (auto simp: RedisStore_def redis_Set_def redis_SetMulti_def redis_Delete_def Let_def
      split: sum.splits prod.splits if_splits)

text \<open>
  The larger contract: \<open>Get\<close> writes no cell but the destination's, and refuses a destination
  that is no pointer.
\<close>

definition same_but :: "nat option \<Rightarrow> heap \<Rightarrow> heap \<Rightarrow> bool" where
  "same_but p h h1 \<longleftrightarrow> h_maps h1 = h_maps h \<and> (\<forall>a. Some a \<noteq> p \<longrightarrow> h_cells h1 a = h_cells h a)"

lemma same_but_refl: "same_but p h h"
  by (simp add: same_but_def)

locale store_frame = store_writes +
  assumes get_frame: "st_Get S h st key (VPtr t p) = Done ((st1, h1), e) \<Longrightarrow> same_but p h h1"
    and get_error: "st_Get S h st key (VPtr t p) = Done ((st1, h1), Some err) \<Longrightarrow> h1 = h"
begin

lemma fallback_frame:
  assumes "cache_fallback S rit c h key fallbackFunc (VPtr t p) expire = Done ((c1, h1), e)"
  shows "same_but p (fst (fallbackFunc h)) h1"
  using assms
  by (auto simp: cache_fallback_def on_store_def obind_Done_iff Let_def same_but_def rSet_def
      Indirect_def ValueOf_def dest!: set_heap split: option.splits prod.splits sum.splits if_splits)

lemma get_frame_cache:
  assumes "cache_get S take_av rit c h key fallbackFunc (VPtr t p) expire = Done ((c1, h1), e)"
  shows "same_but p h h1 \<or> same_but p (fst (fallbackFunc h)) h1"
proof -
  obtain c2 h2 e2 where get: "on_store c (st_Get S h (c_store c) key (VPtr t p)) = Done ((c2, h2), e2)"
    using assms by (auto simp: cache_get_def ValueOf_def obind_Done_iff)
  then have frame: "same_but p h h2" and err: "e2 \<noteq> None \<Longrightarrow> h2 = h"
    by (auto simp: on_store_def obind_Done_iff dest: get_frame get_error)
  show ?thesis
  proof (cases e2)
    case None
    with assms get frame show ?thesis by (simp add: cache_get_def ValueOf_def)
  next
    case (Some err2)
    with err have h2: "h2 = h" by simp
    from assms get Some h2 show ?thesis
      by (auto simp: cache_get_def ValueOf_def same_but_refl
        dest!: fallback_frame split: if_splits prod.splits)
  qed
qed

end

lemma local_Get_frame:
  assumes "local_Get G rit h g key (VPtr t p) = Done ((g1, h1), e)"
  shows "same_but p h h1 \<and> (e \<noteq> None \<longrightarrow> h1 = h)"
  using assms
  by (auto simp: local_Get_def TypeOf_def obind_Done_iff Let_def same_but_def rSet_def Indirect_def
      ValueOf_def split: option.splits prod.splits sum.splits if_splits rval.splits)

interpretation local_frame: store_frame "LocalStore G rit" for G rit
  by unfold_locales (auto simp: LocalStore_def dest: local_Get_frame)

section \<open>Get\<close>

text \<open>
  The fallback is consulted only on a miss or where it is allowed to stand in for a failing
  store: when the store answers, or fails with another error than not-found and the cache was not
  built with \<open>FallbackWhenError\<close>, the result of \<open>Get\<close> does not depend on the fallback; it is the
  store's.
\<close>

theorem cache_get_without_fallback:
  assumes "rkind (ValueOf dst) = KPtr"
    and "st_Get S h (c_store c) key dst = Done ((st1, h1), err)"
    and "err \<noteq> Some RedisNil" and "err \<noteq> Some KeyNotFoundError"
    and "err \<noteq> None \<longrightarrow> \<not> c_fallbackWhenError c"
  shows "cache_Get S TakeAvailable rit c h key fallbackFunc dst ttl = Done ((c\<lparr>c_store := st1\<rparr>, h1), err)"
  using assms
  by (cases err) (auto simp: cache_Get_def cache_get_def on_store_def canFallbackWhenError_def)

text \<open>A concrete cache over the map gcache, with a struct in cell 0 and room for one in cell 1.\<close>

definition user :: "int \<Rightarrow> goval" where
  "user n = VStruct ''User'' [(''ID'', VInt n)]"

definition demo_heap :: heap where
  "demo_heap = \<lparr>h_cells = [0 \<mapsto> user 0, 1 \<mapsto> user 0], h_maps = Map.empty, h_next = 2\<rparr>"

definition demo_cache :: "(string \<rightharpoonup> goval) \<Rightarrow> ((string \<rightharpoonup> goval), nat) cache" where
  "demo_cache g = \<lparr>c_store = g, c_expire = 60, c_fallbackWhenError = False, c_limiter = None\<rparr>"

abbreviation demo_store :: "(string \<rightharpoonup> goval) store_ops" where
  "demo_store \<equiv> LocalStore map_gcache strip_pointers"

abbreviation no_tokens :: "nat limiter" where
  "no_tokens \<equiv> (\<lambda>l n. (l, 0))"

theorem cache_get_without_fallback_witness:
  "cache_Get demo_store no_tokens strip_pointers (demo_cache [''k'' \<mapsto> user 7]) demo_heap ''k''
     (\<lambda>h. (h, Inl (OtherErr ''down''))) (VPtr (TStruct ''User'') (Some 0)) None
   = Done ((demo_cache [''k'' \<mapsto> user 7], demo_heap\<lparr>h_cells := (h_cells demo_heap)(0 \<mapsto> user 7)\<rparr>), None)"
proof -
  have "st_Get demo_store demo_heap (c_store (demo_cache [''k'' \<mapsto> user 7])) ''k''
      (VPtr (TStruct ''User'') (Some 0))
    = Done (([''k'' \<mapsto> user 7], demo_heap\<lparr>h_cells := (h_cells demo_heap)(0 \<mapsto> user 7)\<rparr>), None)"
    by (simp add: LocalStore_def local_Get_def TypeOf_def map_gcache_def demo_cache_def demo_heap_def
        user_def ValueOf_def Indirect_def rSet_def)
  from cache_get_without_fallback [OF _ this] show ?thesis
    by (simp add: demo_cache_def ValueOf_def)
qed

text \<open>One lookup in a local store, seen from the cache.\<close>

lemma local_get_found:
  assumes "gc_Get G (c_store c) key = (g1, Inr (VPtr t (Some a)))"
    and "h_cells h a = Some v" and "h_cells h b \<noteq> None"
  shows "cache_Get (LocalStore G rit) TakeAvailable rit' c h key fallbackFunc (VPtr t (Some b)) ttl
    = Done ((c\<lparr>c_store := g1\<rparr>, h\<lparr>h_cells := (h_cells h)(b \<mapsto> v)\<rparr>), None)"
  using assms
  by (auto simp: cache_Get_def cache_get_def on_store_def LocalStore_def local_Get_def TypeOf_def
      ValueOf_def Indirect_def rSet_def)

lemma local_get_miss:
  assumes "gc_Get G (c_store c) key = (g1, Inl KeyNotFoundError)"
  shows "cache_Get (LocalStore G rit) TakeAvailable rit' c h key fallbackFunc (VPtr t p) ttl
    = cache_fallback (LocalStore G rit) rit' (c\<lparr>c_store := g1\<rparr>) h key fallbackFunc (VPtr t p)
        (ttl_or (c_expire c) ttl)"
  using assms
  by (simp add: cache_Get_def cache_get_def on_store_def LocalStore_def local_Get_def TypeOf_def
      ValueOf_def)

lemma nil_result_value:
  "v \<noteq> VNil \<Longrightarrow> \<forall>u. v \<noteq> VPtr u None \<Longrightarrow> nil_result (ValueOf v) = Done False"
  by (cases v) (auto simp: nil_result_def ValueOf_def)

text \<open>
  C26. \<open>Get\<close> on a miss fills the caller's variable with the fallback's value and keeps the entry: a
  later \<open>Get\<close> of the key is served without a fallback. But \<open>LocalStore\<close> keeps the caller's pointer,
  not the value: the later \<open>Get\<close> gives whatever the first caller's variable holds by then.
\<close>

theorem cache_get_keeps_pointer:
  assumes law: "gcache_law G" and ttl: "0 < expire"
    and miss: "gc_Get G (c_store c) key = (g1, Inl KeyNotFoundError)"
    and fb: "fallbackFunc h = (h1, Inr v)"
    and v: "typeof v = t" "v \<noteq> VNil" "\<forall>u. v \<noteq> VPtr u None"
    and cell: "h_cells h1 a \<noteq> None"
  shows "\<exists>c2. cache_Get (LocalStore G rit) TakeAvailable rit c h key fallbackFunc (VPtr t (Some a)) (Some expire)
      = Done ((c2, h1\<lparr>h_cells := (h_cells h1)(a \<mapsto> v)\<rparr>), None) \<and>
    (\<forall>h3 b w fallback'. h_cells h3 a = Some w \<and> h_cells h3 b \<noteq> None \<longrightarrow>
      (\<exists>c3. cache_Get (LocalStore G rit) TakeAvailable rit c2 h3 key fallback' (VPtr t (Some b)) None
        = Done ((c3, h3\<lparr>h_cells := (h_cells h3)(b \<mapsto> w)\<rparr>), None)))"
proof -
  obtain g2 g3 where set: "gc_SetWithExpire G g1 key (VPtr t (Some a)) expire = (g2, None)"
    and get: "gc_Get G g2 key = (g3, Inr (VPtr t (Some a)))"
    using law ttl unfolding gcache_law_def by blast
  let ?c2 = "c\<lparr>c_store := g2\<rparr>"
  have fV: "ValueOf v = RVal t v None" using v by (simp add: ValueOf_def)
  with nil_result_value [OF v(2,3)] have nil: "nil_result (RVal t v None) = Done False" by simp
  have "cache_fallback (LocalStore G rit) rit (c\<lparr>c_store := g1\<rparr>) h key fallbackFunc
      (VPtr t (Some a)) expire = Done ((?c2, h1\<lparr>h_cells := (h_cells h1)(a \<mapsto> v)\<rparr>), None)"
    using fb cell set
    by (auto simp: cache_fallback_def fV nil rSet_def on_store_def LocalStore_def local_Set_def)
  then have "cache_Get (LocalStore G rit) TakeAvailable rit c h key fallbackFunc (VPtr t (Some a)) (Some expire)
      = Done ((?c2, h1\<lparr>h_cells := (h_cells h1)(a \<mapsto> v)\<rparr>), None)"
    by (simp add: local_get_miss [OF miss] ttl_or_def)
  moreover have "gc_Get G (c_store ?c2) key = (g3, Inr (VPtr t (Some a)))" using get by simp
  note local_get_found [OF this]
  ultimately show ?thesis by blast
qed

theorem cache_get_keeps_pointer_witness:
  "\<exists>c2 c3. cache_Get demo_store no_tokens strip_pointers (demo_cache Map.empty) demo_heap ''k''
      (\<lambda>h. (h, Inr (user 7))) (VPtr (TStruct ''User'') (Some 0)) (Some 60)
    = Done ((c2, demo_heap\<lparr>h_cells := [0 \<mapsto> user 7, 1 \<mapsto> user 0]\<rparr>), None) \<and>
   cache_Get demo_store no_tokens strip_pointers c2
      (demo_heap\<lparr>h_cells := [0 \<mapsto> user 8, 1 \<mapsto> user 0]\<rparr>) ''k''
      (\<lambda>h. (h, Inr (user 7))) (VPtr (TStruct ''User'') (Some 1)) None
    = Done ((c3, demo_heap\<lparr>h_cells := [0 \<mapsto> user 8, 1 \<mapsto> user 8]\<rparr>), None)"
proof -
  have "gc_Get map_gcache (c_store (demo_cache Map.empty)) ''k'' = (Map.empty, Inl KeyNotFoundError)"
    by (simp add: map_gcache_def demo_cache_def)
  from cache_get_keeps_pointer [OF map_gcache_law _ this, of 60 "\<lambda>h. (h, Inr (user 7))" demo_heap
      demo_heap "user 7" "TStruct ''User''" 0 strip_pointers no_tokens]
  obtain c2 where c2: "cache_Get demo_store no_tokens strip_pointers (demo_cache Map.empty) demo_heap ''k''
      (\<lambda>h. (h, Inr (user 7))) (VPtr (TStruct ''User'') (Some 0)) (Some 60)
    = Done ((c2, demo_heap\<lparr>h_cells := (h_cells demo_heap)(0 \<mapsto> user 7)\<rparr>), None)"
    and later: "\<And>h3 b w fallback'. h_cells h3 0 = Some w \<and> h_cells h3 b \<noteq> None \<Longrightarrow>
      \<exists>c3. cache_Get demo_store no_tokens strip_pointers c2 h3 ''k'' fallback'
          (VPtr (TStruct ''User'') (Some b)) None
        = Done ((c3, h3\<lparr>h_cells := (h_cells h3)(b \<mapsto> w)\<rparr>), None)"
    by (auto simp: user_def demo_heap_def)
  let ?h3 = "demo_heap\<lparr>h_cells := [0 \<mapsto> user 8, 1 \<mapsto> user 0]\<rparr>"
  from later [of ?h3 "user 8" 1 "\<lambda>h. (h, Inr (user 7))"]
  obtain c3 where "cache_Get demo_store no_tokens strip_pointers c2 ?h3 ''k''
      (\<lambda>h. (h, Inr (user 7))) (VPtr (TStruct ''User'') (Some 1)) None
    = Done ((c3, ?h3\<lparr>h_cells := (h_cells ?h3)(1 \<mapsto> user 8)\<rparr>), None)"
    by auto
  moreover have "(h_cells demo_heap)(0 \<mapsto> user 7) = [0 \<mapsto> user 7, 1 \<mapsto> user 0]"
    by (auto simp: demo_heap_def)
  moreover have "(h_cells ?h3)(1 \<mapsto> user 8) = [0 \<mapsto> user 8, 1 \<mapsto> user 8]" by auto
  ultimately show ?thesis using c2 by simp
qed

text \<open>
  The type check of \<open>Get\<close> compares kinds after stripping pointers, but the assignment after it
  needs the very type: a fallback result of another type of the same kind (another struct, or a
  pointer to the struct where the destination is the struct) passes the check and panics.
\<close>

theorem cache_get_kind_check_panics:
  assumes "strips_pointers rit"
    and "st_Get S h (c_store c) key (VPtr t (Some a)) = Done ((st1, h1), Some err)"
    and "err = RedisNil \<or> err = KeyNotFoundError"
    and "fallbackFunc h1 = (h2, Inr v)" and "v \<noteq> VNil" and "\<forall>u. v \<noteq> VPtr u None"
    and "h_cells h2 a \<noteq> None" and "t \<noteq> TInterface" and "typeof v \<noteq> t"
    and "kind_of (rit (typeof v)) = kind_of (rit t)"
  shows "cache_Get S TakeAvailable rit c h key fallbackFunc (VPtr t (Some a)) ttl
    = Panic ''reflect.Set: value is not assignable to type''"
proof -
  have fV: "ValueOf v = RVal (typeof v) v None" using assms(5) by (simp add: ValueOf_def)
  with nil_result_value [OF assms(5,6)] have nil: "nil_result (RVal (typeof v) v None) = Done False"
    by simp
  have "cache_fallback S rit (c\<lparr>c_store := st1\<rparr>) h1 key fallbackFunc (VPtr t (Some a)) (ttl_or (c_expire c) ttl)
      = Panic ''reflect.Set: value is not assignable to type''"
    using assms(4,7-10) by (auto simp: cache_fallback_def fV nil rSet_def)
  with assms(2,3) show ?thesis
    by (auto simp: cache_Get_def cache_get_def on_store_def ValueOf_def)
qed

theorem cache_get_kind_check_panics_witness:
  "cache_Get demo_store no_tokens strip_pointers (demo_cache Map.empty) demo_heap ''k''
     (\<lambda>h. (h, Inr (VPtr (TStruct ''User'') (Some 1)))) (VPtr (TStruct ''User'') (Some 0)) None
   = Panic ''reflect.Set: value is not assignable to type''"
  by (rule cache_get_kind_check_panics [where ?st1.0 = Map.empty
        and ?h1.0 = demo_heap and ?h2.0 = demo_heap and err = KeyNotFoundError
        and v = "VPtr (TStruct ''User'') (Some 1)", OF strip_pointers_strips])
    (simp_all add: LocalStore_def local_Get_def TypeOf_def map_gcache_def demo_cache_def demo_heap_def)

text \<open>
  \<open>Get\<close> and \<open>GetMulti\<close> do not agree on what a local store holds: \<open>Get\<close> stores the destination
  pointer, \<open>GetMulti\<close> puts stored values as they are into a map of values. Once \<open>Get\<close> has cached a
  key, \<open>GetMulti\<close> of an id with that key panics.
\<close>

theorem cache_getmulti_after_get_panics:
  assumes "strips_pointers rit"
    and "gc_Get G (c_store c) (keyFunc i) = (g1, Inr (VPtr t p))" and "t \<noteq> TInterface"
  shows "cache_GetMulti (LocalStore G rit') TakeAvailable rit c h (VSlice kt (i # ids)) keyFunc
      fallbackFunc (VMap kt t (Some m)) ttl = Panic ''reflect.Set: value is not assignable to type''"
proof -
  have rit: "rit (TMap kt t) = TMap kt t" using assms(1) by (simp add: strips_pointers_def)
  have dst: "map_dst b1 b2 h' (VMap k1 t1 (Some m')) = Done (h', RVal (TMap k1 t1) (VMap k1 t1 (Some m')) None, None)"
    for b1 b2 h' k1 t1 m'
    by (simp add: map_dst_def ValueOf_def Indirect_def)
  have "TPtr t \<noteq> t" by (induction t) auto
  then have "local_get_loop G (RVal (TMap TString t) (VMap TString t (Some m')) None) h' (c_store c)
      (keyFunc i # keys) = Panic ''reflect.Set: value is not assignable to type''" for h' m' keys
    using assms(2,3) by (simp add: SetMapIndex_def ValueOf_def)
  then have "st_GetMulti (LocalStore G rit') h' (c_store c) (keyFunc i # keys) (VMap TString t (Some m'))
      = Panic ''reflect.Set: value is not assignable to type''" for h' m' keys
    by (simp add: LocalStore_def local_GetMulti_def dst)
  then show ?thesis
    by (simp add: cache_GetMulti_def cache_getMulti_def dst rit TypeOf_def ValueOf_def MakeMap_def
        on_store_def)
qed

theorem cache_getmulti_after_get_panics_witness:
  "cache_GetMulti demo_store no_tokens strip_pointers
     (demo_cache [''k'' \<mapsto> VPtr (TStruct ''User'') (Some 0)]) demo_heap (VSlice TInt [VInt 7])
     (\<lambda>i. ''k'') (\<lambda>missing h. (h, Inl (OtherErr ''down''))) (VMap TInt (TStruct ''User'') (Some 9)) None
   = Panic ''reflect.Set: value is not assignable to type''"
  by (rule cache_getmulti_after_get_panics [where p = "Some 0"
        and ?g1.0 = "[''k'' \<mapsto> VPtr (TStruct ''User'') (Some 0)]", OF strip_pointers_strips])
    (simp_all add: map_gcache_def demo_cache_def)

section \<open>Refresh\<close>

text \<open>
  C25. \<open>Refresh\<close> replaces the entry: when the fallback gives a value of the sample's kind, the cache
  answers the next \<open>Get\<close> of the key with that value, in whatever state the heap is then.
\<close>

theorem cache_refresh_roundtrip:
  assumes law: "gcache_law G" and ttl: "0 < expire"
    and fb: "fallbackFunc h = (h1, Inr v)" and v: "typeof v = t" "v \<noteq> VNil" "kind_of t \<noteq> KPtr"
    and sample: "i \<noteq> VNil" "kind_of (typeof i) = kind_of t"
  shows "\<exists>c2. cache_Refresh (LocalStore G rit) c h key fallbackFunc i (Some expire) = Done ((c2, h1), None) \<and>
    (\<forall>h3 b fallback'. h_cells h3 b \<noteq> None \<longrightarrow>
      (\<exists>c3. cache_Get (LocalStore G rit) TakeAvailable rit c2 h3 key fallback' (VPtr t (Some b)) None
        = Done ((c3, h3\<lparr>h_cells := (h_cells h3)(b \<mapsto> v)\<rparr>), None)))"
proof -
  let ?g1 = "gc_Remove G (c_store c) key"
  obtain g2 g3 where set: "gc_SetWithExpire G ?g1 key v expire = (g2, None)"
    and get: "gc_Get G g2 key = (g3, Inr v)"
    using law ttl unfolding gcache_law_def by blast
  let ?c2 = "c\<lparr>c_store := g2\<rparr>"
  have fV: "ValueOf v = RVal t v None" and nil: "nil_result (RVal t v None) = Done False"
    using v by (simp_all add: ValueOf_def nil_result_def)
  have ind: "Indirect h' (RVal t v None) = RVal t v None" for h' using v(3) by simp
  have "cache_Refresh (LocalStore G rit) c h key fallbackFunc i (Some expire) = Done ((?c2, h1), None)"
    using fb sample set
    by (simp add: cache_Refresh_def cache_refresh_def cache_refill_def on_store_def LocalStore_def local_Delete_def
        local_Set_def fV nil ind ttl_or_def)
  moreover have "\<exists>c3. cache_Get (LocalStore G rit) TakeAvailable rit ?c2 h3 key fallback' (VPtr t (Some b)) None
      = Done ((c3, h3\<lparr>h_cells := (h_cells h3)(b \<mapsto> v)\<rparr>), None)"
    if "h_cells h3 b \<noteq> None" for h3 b and fallback' :: fallback_fn
    using that get
    by (auto simp: cache_Get_def cache_get_def on_store_def LocalStore_def local_Get_def TypeOf_def
        fV ind rSet_def) (auto simp: ValueOf_def)
  ultimately show ?thesis by blast
qed

theorem cache_refresh_roundtrip_witness:
  "\<exists>c2 c3. cache_Refresh demo_store (demo_cache [''k'' \<mapsto> user 1]) demo_heap ''k''
      (\<lambda>h. (h, Inr (user 7))) (user 0) (Some 60) = Done ((c2, demo_heap), None) \<and>
   cache_Get demo_store no_tokens strip_pointers c2 demo_heap ''k'' (\<lambda>h. (h, Inl (OtherErr ''down'')))
      (VPtr (TStruct ''User'') (Some 1)) None
    = Done ((c3, demo_heap\<lparr>h_cells := (h_cells demo_heap)(1 \<mapsto> user 7)\<rparr>), None)"
proof -
  from cache_refresh_roundtrip [OF map_gcache_law, of 60 "\<lambda>h. (h, Inr (user 7))" demo_heap demo_heap
      "user 7" "TStruct ''User''" "user 0" strip_pointers "demo_cache [''k'' \<mapsto> user 1]" "''k''" no_tokens]
  obtain c2 where "cache_Refresh demo_store (demo_cache [''k'' \<mapsto> user 1]) demo_heap ''k''
      (\<lambda>h. (h, Inr (user 7))) (user 0) (Some 60) = Done ((c2, demo_heap), None)"
    and later: "\<And>h3 b fallback'. h_cells h3 b \<noteq> None \<Longrightarrow>
      \<exists>c3. cache_Get demo_store no_tokens strip_pointers c2 h3 ''k'' fallback'
          (VPtr (TStruct ''User'') (Some b)) None
        = Done ((c3, h3\<lparr>h_cells := (h_cells h3)(b \<mapsto> user 7)\<rparr>), None)"
    by (auto simp: user_def)
  moreover have "h_cells demo_heap 1 \<noteq> None" by (simp add: demo_heap_def)
  ultimately show ?thesis by blast
qed

text \<open>
  A \<open>Refresh\<close> whose fallback fails has evicted the entry: it returns the fallback's error and
  the key is a miss from then on.
\<close>

theorem cache_refresh_failure_evicts:
  assumes "gcache_law G" and "fallbackFunc h = (h1, Inl err)"
  shows "\<exists>c2 g. cache_Refresh (LocalStore G rit) c h key fallbackFunc i ttl = Done ((c2, h1), Some err) \<and>
    gc_Get G (c_store c2) key = (g, Inl KeyNotFoundError)"
proof -
  let ?c2 = "c\<lparr>c_store := gc_Remove G (c_store c) key\<rparr>"
  have "cache_Refresh (LocalStore G rit) c h key fallbackFunc i ttl = Done ((?c2, h1), Some err)"
    using assms(2)
    by (simp add: cache_Refresh_def cache_refresh_def cache_refill_def on_store_def LocalStore_def local_Delete_def)
  moreover obtain g where "gc_Get G (c_store ?c2) key = (g, Inl KeyNotFoundError)"
    using assms(1) unfolding gcache_law_def by auto blast
  ultimately show ?thesis by blast
qed

theorem cache_refresh_failure_evicts_witness:
  "\<exists>c2 g. cache_Refresh demo_store (demo_cache [''k'' \<mapsto> user 1]) demo_heap ''k''
      (\<lambda>h. (h, Inl (OtherErr ''down''))) (user 0) None = Done ((c2, demo_heap), Some (OtherErr ''down'')) \<and>
    gc_Get map_gcache (c_store c2) ''k'' = (g, Inl KeyNotFoundError)"
  by (rule cache_refresh_failure_evicts [OF map_gcache_law]) simp

end
