(* ===== verification/Cache_Multi.thy ===== *)
theory Cache_Multi
  imports Cache_Local
begin

text \<open>
  \<open>GetMulti\<close>: what its two loops leave in the destination map and in the list of missing ids, and
  from that what a whole call returns; and \<open>RefreshMulti\<close> on a fallback that gives nothing.
\<close>

section \<open>The loops\<close>

abbreviation map_val :: "gotype \<Rightarrow> gotype \<Rightarrow> nat \<Rightarrow> rval" where
  "map_val kt vt m \<equiv> RVal (TMap kt vt) (VMap kt vt (Some m)) None"

text \<open>An id as it comes out of a slice of element type \<open>kt\<close>.\<close>

definition id_of_type :: "gotype \<Rightarrow> goval \<Rightarrow> bool" where
  "id_of_type kt x \<longleftrightarrow> x \<noteq> VNil \<and> typeof x = kt"

lemma id_of_type_ValueOf: "id_of_type kt x \<Longrightarrow> ValueOf x = RVal kt x None"
  by (auto simp: id_of_type_def ValueOf_def)

lemma SetMapIndex_map_val:
  "id_of_type kt x \<Longrightarrow> h_maps h m = Some es \<Longrightarrow>
     SetMapIndex h (map_val kt vt m) (RVal kt x None) (RVal vt v None)
       = Done (put_map m (AList.update x v es) h)"
  by (simp add: SetMapIndex_def map_entries_def)

lemma MapIndex_map_val:
  "h_maps h m = Some es \<Longrightarrow> MapIndex h (map_val kt vt m) (RVal kt x None)
     = Done (case map_of es x of None \<Rightarrow> RInvalid | Some v \<Rightarrow> RVal vt v None)"
  by (simp add: MapIndex_def map_entries_def)

text \<open>What the store found under the key of \<open>x\<close>.\<close>

definition found_in :: "(goval \<times> goval) list \<Rightarrow> (goval \<Rightarrow> string) \<Rightarrow> goval \<Rightarrow> goval option" where
  "found_in cached keyFunc x = map_of cached (VStr (keyFunc x))"

lemma miss_loop_spec:
  assumes "m \<noteq> b" and "h_maps h b = Some cached" and "h_maps h m = Some es"
    and "\<forall>x \<in> set ys. id_of_type kt x \<and> revert (keyFunc x) = x"
  shows "\<exists>es1. miss_loop revert kt (map_val kt vt m) (map_val TString vt b) h missing (map keyFunc ys)
      = Done (put_map m es1 h,
          missing @ filter (\<lambda>x. found_in cached keyFunc x = None) ys) \<and>
    (\<forall>k. map_of es1 k = (if k \<in> set ys \<and> found_in cached keyFunc k \<noteq> None
        then found_in cached keyFunc k else map_of es k))"
  using assms
proof (induction ys arbitrary: h es missing)
  case Nil
  note same = put_map_same [OF Nil(3)]
  show ?case by (rule exI [of _ es]) (simp only: same, simp)
next
  case (Cons y ys)
  have y: "id_of_type kt y" "revert (keyFunc y) = y" using Cons.prems(4) by simp_all
  have idx: "MapIndex h (map_val TString vt b) (ValueOf (VStr (keyFunc y)))
      = Done (case found_in cached keyFunc y of None \<Rightarrow> RInvalid | Some v \<Rightarrow> RVal vt v None)"
    using MapIndex_map_val [OF Cons.prems(2), of TString vt "VStr (keyFunc y)"]
    by (simp add: ValueOf_def found_in_def)
  show ?case
  proof (cases "found_in cached keyFunc y")
    case None
    from Cons.IH [OF Cons.prems(1-3), of "missing @ [y]"] Cons.prems(4) None y idx
    show ?thesis
      by (auto simp: rAppend_def id_of_type_ValueOf)
  next
    case (Some v)
    let ?es = "AList.update y v es"
    let ?h = "put_map m ?es h"
    have set: "SetMapIndex h (map_val kt vt m) (ValueOf y) (RVal vt v None) = Done ?h"
      using SetMapIndex_map_val [OF y(1) Cons.prems(3)] by (simp add: id_of_type_ValueOf [OF y(1)])
    have "h_maps ?h b = Some cached" "h_maps ?h m = Some ?es" using Cons.prems(1,2) by simp_all
    from Cons.IH [OF Cons.prems(1) this, of missing] Cons.prems(4)
    obtain es1 where es1: "miss_loop revert kt (map_val kt vt m) (map_val TString vt b) ?h missing (map keyFunc ys)
        = Done (put_map m es1 ?h,
            missing @ filter (\<lambda>x. found_in cached keyFunc x = None) ys)"
      "\<forall>k. map_of es1 k = (if k \<in> set ys \<and> found_in cached keyFunc k \<noteq> None
          then found_in cached keyFunc k else map_of ?es k)"
      by auto
    then show ?thesis
      using Some y idx set by (intro exI [of _ es1]) (auto simp: update_conv')
  qed
qed

text \<open>The loop over the fallback's result, when it has no nil pointers.\<close>

definition result_value :: "gotype \<Rightarrow> goval \<Rightarrow> bool" where
  "result_value vt v \<longleftrightarrow> v \<noteq> VNil \<and> typeof v = vt \<and> (\<forall>u. v \<noteq> VPtr u None)"

lemma nil_result_value_of: "result_value vt v \<Longrightarrow> nil_result (RVal vt v None) = Done False"
  using nil_result_value [of v] by (auto simp: result_value_def ValueOf_def)

lemma fill_loop_spec:
  assumes "m \<noteq> r" and "h_maps h r = Some res" and "h_maps h m = Some es"
    and "\<forall>(k, v) \<in> set kvs. id_of_type kt k \<and> result_value vt v \<and> map_of res k = Some v"
    and "distinct (map fst kvs)"
  shows "\<exists>es1. fill_loop keyFunc kt vt (map_val kt vt m) (map_val kt vt r) h found (map fst kvs)
      = Done (put_map m es1 h, found @ map (\<lambda>(k, v). (keyFunc k, v)) kvs) \<and>
    map_of es1 = map_of es ++ map_of kvs"
  using assms
proof (induction kvs arbitrary: h es found)
  case Nil
  note same = put_map_same [OF Nil(3)]
  show ?case by (rule exI [of _ es]) (simp only: same, simp)
next
  case (Cons kv kvs)
  obtain k v where kv: "kv = (k, v)" by fastforce
  have k: "id_of_type kt k" "result_value vt v" "map_of res k = Some v"
    using Cons.prems(4) kv by auto
  let ?es = "AList.update k v es"
  let ?h = "put_map m ?es h"
  have idx: "MapIndex h (map_val kt vt r) (RVal kt k None) = Done (RVal vt v None)"
    using MapIndex_map_val [OF Cons.prems(2), of kt vt k] k(3) by simp
  have "h_maps ?h r = Some res" "h_maps ?h m = Some ?es" using Cons.prems(1,2) by simp_all
  from Cons.IH [OF Cons.prems(1) this, of "found @ [(keyFunc k, v)]"] Cons.prems(4,5)
  obtain es1 where es1: "fill_loop keyFunc kt vt (map_val kt vt m) (map_val kt vt r) ?h
        (found @ [(keyFunc k, v)]) (map fst kvs)
      = Done (put_map m es1 ?h,
          (found @ [(keyFunc k, v)]) @ map (\<lambda>(k, v). (keyFunc k, v)) kvs)"
    "map_of es1 = map_of ?es ++ map_of kvs"
    by auto
  have "k \<notin> dom (map_of kvs)" using Cons.prems(5) kv by (auto simp: dom_map_of_conv_image_fst)
  then have "map_of es1 = map_of es ++ map_of (kv # kvs)"
    using es1(2) kv by (auto simp: update_conv' map_add_def fun_eq_iff split: option.splits)
  moreover have "fill_loop keyFunc kt vt (map_val kt vt m) (map_val kt vt r) h found (map fst (kv # kvs))
      = Done (put_map m es1 h, found @ map (\<lambda>(k, v). (keyFunc k, v)) (kv # kvs))"
    using es1(1) kv idx
    by (simp add: nil_result_value_of [OF k(2)] SetMapIndex_map_val [OF k(1) Cons.prems(3)])
  ultimately show ?case by blast
qed

lemma revert_key_inj:
  assumes "inj_on keyFunc (set xs)" and "x \<in> set xs"
  shows "revert_key keyFunc xs (keyFunc x) = x"
proof -
  have "map_of (revert_keys keyFunc xs) (keyFunc x) = Some x"
  proof -
    have "map_of (rev (map (\<lambda>i. (keyFunc i, i)) xs)) (keyFunc x) = Some x"
      using assms
    proof (induction xs)
      case (Cons y ys)
      show ?case
      proof (cases "x \<in> set ys")
        case True
        then have "map_of (rev (map (\<lambda>i. (keyFunc i, i)) ys)) (keyFunc x) = Some x"
          using Cons by (simp add: inj_on_def)
        then show ?thesis by (simp add: map_add_def)
      next
        case False
        then have x: "x = y" using Cons.prems(2) by simp
        have "keyFunc x \<notin> keyFunc ` set ys"
          using Cons.prems(1) False x by (auto simp: inj_on_def)
        then have "map_of (rev (map (\<lambda>i. (keyFunc i, i)) ys)) (keyFunc x) = None"
          by (simp add: map_of_eq_None_iff image_image)
        then show ?thesis by (simp add: x map_add_def)
      qed
    qed simp
    then show ?thesis by (simp add: revert_keys_def)
  qed
  then show ?thesis by (simp add: revert_key_def)
qed

section \<open>GetMulti\<close>

lemma map_dst_map [simp]:
  "map_dst e1 e2 h (VMap kt vt (Some m)) = Done (h, map_val kt vt m, None)"
  by (simp add: map_dst_def ValueOf_def Indirect_def)

text \<open>The call up to the loop over the keys, when the store answers.\<close>

lemma getmulti_after_store:
  assumes rit: "strips_pointers rit" and ids: "xs \<noteq> []"
    and stored: "st_GetMulti S (fst (MakeMap TString vt h)) (c_store c) (map keyFunc xs)
      (VMap TString vt (Some (h_next h))) = Done ((st1, h1), None)"
  shows "cache_getMulti S TakeAvailable rit c h (VSlice kt xs) keyFunc fallbackFunc
      (VMap kt vt (Some m)) expire =
    obind (miss_loop (revert_key keyFunc xs) kt (map_val kt vt m) (map_val TString vt (h_next h)) h1 []
        (map keyFunc xs)) (\<lambda>(h2, missing).
      if missing = [] then Done ((c\<lparr>c_store := st1\<rparr>, h2), None)
      else multi_fallback S (c\<lparr>c_store := st1\<rparr>) h2 keyFunc fallbackFunc kt vt vt (map_val kt vt m)
        missing expire)"
proof -
  have "rit (TMap kt vt) = TMap kt vt" using rit by (simp add: strips_pointers_def)
  then show ?thesis
    using ids stored
    by (simp add: cache_getMulti_def TypeOf_def ValueOf_def MakeMap_def on_store_def)
qed

lemma multi_fallback_spec:
  assumes fb: "fallbackFunc (VSlice kt missing) h = (h1, Inr (VMap kt vt (Some r)))"
    and maps: "m \<noteq> r" "h_maps h1 m = Some es" "h_maps h1 r = Some res"
    and res: "res \<noteq> []" "distinct (map fst res)"
      "\<forall>(k, v) \<in> set res. id_of_type kt k \<and> result_value vt v"
    and set: "\<forall>h2 st ks vs. \<exists>st2 e. st_SetMulti S h2 st ks vs expire = Done ((st2, h2), e)"
  shows "\<exists>c2 h2 es2. multi_fallback S c h keyFunc fallbackFunc kt vt vt (map_val kt vt m) missing expire
      = Done ((c2, h2), None) \<and> h_maps h2 m = Some es2 \<and> map_of es2 = map_of es ++ map_of res"
proof -
  have "\<forall>(k, v) \<in> set res. id_of_type kt k \<and> result_value vt v \<and> map_of res k = Some v"
    using res(2,3) by auto
  from fill_loop_spec [OF maps(1,3,2) this res(2), of keyFunc "[]"]
  obtain es2 where loop: "fill_loop keyFunc kt vt (map_val kt vt m) (map_val kt vt r) h1 [] (map fst res)
      = Done (put_map m es2 h1, map (\<lambda>(k, v). (keyFunc k, v)) res)"
    and es2: "map_of es2 = map_of es ++ map_of res" by auto
  let ?kvs = "map (\<lambda>(k, v). (keyFunc k, v)) res"
  obtain st2 e where setm: "st_SetMulti S (put_map m es2 h1) (c_store c) (map fst ?kvs)
      (VSlice vt (map snd ?kvs)) expire = Done ((st2, put_map m es2 h1), e)"
    using set by blast
  have entries: "map_entries h1 (map_val kt vt r) = res" using maps(3) by (simp add: map_entries_def)
  have "multi_fallback S c h keyFunc fallbackFunc kt vt vt (map_val kt vt m) missing expire
      = Done ((c\<lparr>c_store := st2\<rparr>, put_map m es2 h1), None)"
    using fb res(1) loop setm
    by (simp add: multi_fallback_def ValueOf_def entries MapKeys_def on_store_def del: map_map)
  with es2 show ?thesis by (intro exI) (auto simp: put_map_simps)
qed


lemma local_set_loop_total:
  "\<exists>g1 e. local_set_loop G h g ttl kvs = Done ((g1, h), e)"
proof (induction kvs arbitrary: g)
  case (Cons kv kvs)
  obtain k v where kv: "kv = (k, v)" by fastforce
  obtain g1 e where "gc_SetWithExpire G g k v ttl = (g1, e)" by fastforce
  with Cons [of g1] show ?case by (cases e) (auto simp: kv local_Set_def)
qed simp

lemma local_set_multi_total:
  "\<exists>g1 e. st_SetMulti (LocalStore G rit) h g ks vs ttl = Done ((g1, h), e)"
  using local_set_loop_total
  by (auto simp: LocalStore_def local_SetMulti_def Let_def)


end
