(* ===== verification/Cache_Redis.thy ===== *)
theory Cache_Redis
  imports Cache_Multi
begin

text \<open>
  The cache over \<open>RedisStore\<close>: values are kept encoded, so that the caller's variable and the
  entry are independent; a pipeline is sent whole or not at all.
\<close>

section \<open>What the libraries promise\<close>

text \<open>A \<open>SET\<close> that succeeded is what the next \<open>GET\<close> gives.\<close>

definition redis_law :: "'r redis_ops \<Rightarrow> bool" where
  "redis_law R \<longleftrightarrow> (\<forall>r key b ttl r1. rd_Set R r key b ttl = (r1, None) \<longrightarrow>
     (\<exists>r2. rd_Get R r1 key = (r2, Inr b)))"

text \<open>
  Encoding through a pointer and decoding into another cell gives the value that was in the
  first cell when it was encoded.
\<close>

definition serializer_law :: "serializer \<Rightarrow> bool" where
  "serializer_law Z \<longleftrightarrow> (\<forall>h t a v b. h_cells h a = Some v \<longrightarrow> sz_encode Z h (VPtr t (Some a)) = Inr b \<longrightarrow>
     (\<forall>h1 c. h_cells h1 c \<noteq> None \<longrightarrow>
        sz_decode Z h1 b (VPtr t (Some c)) = (h1\<lparr>h_cells := (h_cells h1)(c \<mapsto> v)\<rparr>, None)))"

text \<open>Instances: a redis that is a map, and a serializer of non-negative numbers in unary.\<close>

definition map_redis :: "(string \<rightharpoonup> bytes) redis_ops" where
  "map_redis =
     \<lparr>rd_Get = (\<lambda>r key. (r, case r key of None \<Rightarrow> Inl RedisNil | Some b \<Rightarrow> Inr b)),
      rd_MGet = (\<lambda>r keys. (r, Inr (map r keys))),
      rd_Set = (\<lambda>r key b ttl. (r(key \<mapsto> b), None)),
      rd_Del = (\<lambda>r keys. (\<lambda>k. if k \<in> set keys then None else r k, None)),
      rd_Exists = (\<lambda>r key. (r, if r key = None then 0 else 1, None)),
      rd_Exec = (\<lambda>r cmds.
        (foldl (\<lambda>r cmd. case cmd of CmdSet k b ttl \<Rightarrow> r(k \<mapsto> b) | CmdExists k \<Rightarrow> r) r cmds,
         map (\<lambda>cmd. case cmd of CmdSet k b ttl \<Rightarrow> 0 | CmdExists k \<Rightarrow> if r k = None then 0 else 1) cmds,
         None))\<rparr>"

lemma map_redis_law: "redis_law map_redis"
  by (simp add: redis_law_def map_redis_def)

definition unary_serializer :: serializer where
  "unary_serializer =
     \<lparr>sz_decode = (\<lambda>h b dst. case dst of
        VPtr t (Some c) \<Rightarrow> (h\<lparr>h_cells := (h_cells h)(c \<mapsto> VInt (int (length b)))\<rparr>, None)
      | _ \<Rightarrow> (h, Some (OtherErr ''json: InvalidUnmarshalError''))),
      sz_encode = (\<lambda>h v. case Indirect h (ValueOf v) of
        RVal t (VInt n) a \<Rightarrow> if 0 \<le> n then Inr (replicate (nat n) CHR ''1'') else Inl (OtherErr ''negative'')
      | _ \<Rightarrow> Inl (OtherErr ''json: unsupported type''))\<rparr>"

lemma unary_serializer_law: "serializer_law unary_serializer"
  by (auto simp: serializer_law_def unary_serializer_def ValueOf_def Indirect_def
      split: goval.splits if_splits)

section \<open>Single entries\<close>

lemma redis_get_found:
  assumes "rd_Get R (c_store c) key = (r1, Inr b)"
    and "sz_decode Z h b (VPtr t (Some d)) = (h1, None)"
  shows "cache_Get (RedisStore R Z) TakeAvailable rit c h key fallbackFunc (VPtr t (Some d)) ttl
    = Done ((c\<lparr>c_store := r1\<rparr>, h1), None)"
  using assms
  by (simp add: cache_Get_def cache_get_def on_store_def RedisStore_def redis_Get_def TypeOf_def
      ValueOf_def)

text \<open>
  Over redis the entry is a copy: after a \<open>Get\<close> that missed, a later \<open>Get\<close> gives the value the
  fallback had given, whatever has become of the first caller's variable, and the caller's heap
  is otherwise untouched.
\<close>

theorem cache_get_redis_copies:
  assumes law: "redis_law R" "serializer_law Z"
    and miss: "rd_Get R (c_store c) key = (r1, Inl RedisNil)"
    and fb: "fallbackFunc h = (h1, Inr v)"
    and v: "typeof v = t" "v \<noteq> VNil" "\<forall>u. v \<noteq> VPtr u None"
    and cell: "h_cells h1 a \<noteq> None"
    and enc: "sz_encode Z (h1\<lparr>h_cells := (h_cells h1)(a \<mapsto> v)\<rparr>) (VPtr t (Some a)) = Inr b"
    and set: "rd_Set R r1 key b expire = (r2, None)"
  shows "\<exists>c2. cache_Get (RedisStore R Z) TakeAvailable rit c h key fallbackFunc (VPtr t (Some a)) (Some expire)
      = Done ((c2, h1\<lparr>h_cells := (h_cells h1)(a \<mapsto> v)\<rparr>), None) \<and>
    (\<forall>h3 d fallback'. h_cells h3 d \<noteq> None \<longrightarrow>
      (\<exists>c3. cache_Get (RedisStore R Z) TakeAvailable rit c2 h3 key fallback' (VPtr t (Some d)) None
        = Done ((c3, h3\<lparr>h_cells := (h_cells h3)(d \<mapsto> v)\<rparr>), None)))"
proof -
  let ?c2 = "c\<lparr>c_store := r2\<rparr>" and ?h2 = "h1\<lparr>h_cells := (h_cells h1)(a \<mapsto> v)\<rparr>"
  have fV: "ValueOf v = RVal t v None" using v by (simp add: ValueOf_def)
  with nil_result_value [OF v(2,3)] have nil: "nil_result (RVal t v None) = Done False" by simp
  have "cache_fallback (RedisStore R Z) rit (c\<lparr>c_store := r1\<rparr>) h key fallbackFunc (VPtr t (Some a)) expire
      = Done ((?c2, ?h2), None)"
    using fb cell enc set
    by (auto simp: cache_fallback_def fV nil rSet_def on_store_def RedisStore_def redis_Set_def)
  then have "cache_Get (RedisStore R Z) TakeAvailable rit c h key fallbackFunc (VPtr t (Some a)) (Some expire)
      = Done ((?c2, ?h2), None)"
    using miss
    by (simp add: cache_Get_def cache_get_def on_store_def RedisStore_def redis_Get_def TypeOf_def
      ValueOf_def ttl_or_def)
  moreover obtain r3 where get: "rd_Get R (c_store ?c2) key = (r3, Inr b)"
    using law(1) set unfolding redis_law_def by auto blast
  have cell2: "h_cells ?h2 a = Some v" by simp
  have "\<exists>c3. cache_Get (RedisStore R Z) TakeAvailable rit ?c2 h3 key fallback' (VPtr t (Some d)) None
      = Done ((c3, h3\<lparr>h_cells := (h_cells h3)(d \<mapsto> v)\<rparr>), None)" if "h_cells h3 d \<noteq> None"
    for h3 d and fallback' :: fallback_fn
  proof -
    have "sz_decode Z h3 b (VPtr t (Some d)) = (h3\<lparr>h_cells := (h_cells h3)(d \<mapsto> v)\<rparr>, None)"
      using law(2) cell2 enc that unfolding serializer_law_def by blast
    from redis_get_found [OF get this] show ?thesis by blast
  qed
  ultimately show ?thesis by blast
qed

definition int_heap :: heap where
  "int_heap = \<lparr>h_cells = [0 \<mapsto> VInt 0, 1 \<mapsto> VInt 0], h_maps = Map.empty, h_next = 2\<rparr>"

definition redis_cache :: "((string \<rightharpoonup> bytes), nat) cache" where
  "redis_cache = \<lparr>c_store = Map.empty, c_expire = 60, c_fallbackWhenError = False, c_limiter = None\<rparr>"

abbreviation demo_redis :: "(string \<rightharpoonup> bytes) store_ops" where
  "demo_redis \<equiv> RedisStore map_redis unary_serializer"

theorem cache_get_redis_copies_witness:
  "\<exists>c2 c3. cache_Get demo_redis no_tokens strip_pointers redis_cache int_heap ''k''
      (\<lambda>h. (h, Inr (VInt 3))) (VPtr TInt (Some 0)) (Some 60)
    = Done ((c2, int_heap\<lparr>h_cells := (h_cells int_heap)(0 \<mapsto> VInt 3)\<rparr>), None) \<and>
   cache_Get demo_redis no_tokens strip_pointers c2 int_heap ''k''
      (\<lambda>h. (h, Inl (OtherErr ''down''))) (VPtr TInt (Some 1)) None
    = Done ((c3, int_heap\<lparr>h_cells := (h_cells int_heap)(1 \<mapsto> VInt 3)\<rparr>), None)"
proof -
  have "\<exists>c2. cache_Get demo_redis no_tokens strip_pointers redis_cache int_heap ''k''
      (\<lambda>h. (h, Inr (VInt 3))) (VPtr TInt (Some 0)) (Some 60)
    = Done ((c2, int_heap\<lparr>h_cells := (h_cells int_heap)(0 \<mapsto> VInt 3)\<rparr>), None) \<and>
    (\<forall>h3 d fallback'. h_cells h3 d \<noteq> None \<longrightarrow>
      (\<exists>c3. cache_Get demo_redis no_tokens strip_pointers c2 h3 ''k'' fallback' (VPtr TInt (Some d)) None
        = Done ((c3, h3\<lparr>h_cells := (h_cells h3)(d \<mapsto> VInt 3)\<rparr>), None)))"
    by (rule cache_get_redis_copies [OF map_redis_law unary_serializer_law,
          where ?r1.0 = Map.empty and b = "''111''" and ?r2.0 = "[''k'' \<mapsto> ''111'']"])
      (simp_all add: map_redis_def redis_cache_def int_heap_def unary_serializer_def ValueOf_def
        Indirect_def numeral_3_eq_3)
  moreover have "h_cells int_heap 1 \<noteq> None" by (simp add: int_heap_def)
  ultimately show ?thesis by blast
qed

section \<open>Pipelines\<close>

lemma redis_set_queue_ok:
  assumes "length keys = length vs" and "\<forall>v \<in> set vs. \<exists>b. sz_encode Z h v = Inr b"
  shows "redis_set_queue Z h ttl (zip keys vs)
    = Inr (map (\<lambda>(k, v). CmdSet k (projr (sz_encode Z h v)) ttl) (zip keys vs))"
  using assms by (induction keys vs rule: list_induct2) auto

lemma redis_set_queue_error:
  assumes "length keys = length vs" and "v \<in> set vs" and "sz_encode Z h v = Inl e"
  shows "\<exists>e'. redis_set_queue Z h ttl (zip keys vs) = Inl e'"
  using assms by (induction keys vs rule: list_induct2) (auto split: sum.splits)

text \<open>
  \<open>SetMulti\<close> of the redis store sends one \<open>SET\<close> per key, in order, with the encoded value, as one
  pipeline; if one value cannot be encoded nothing is sent at all and an error is returned.
\<close>

theorem redis_set_multi_all_or_nothing:
  assumes "length keys = length vs"
  shows "if \<forall>v \<in> set vs. \<exists>b. sz_encode Z h v = Inr b
    then redis_SetMulti R Z h r keys (VSlice t vs) ttl =
        (let (r1, results, err) =
           rd_Exec R r (map (\<lambda>(k, v). CmdSet k (projr (sz_encode Z h v)) ttl) (zip keys vs))
         in Done ((r1, h), err))
    else \<exists>e. redis_SetMulti R Z h r keys (VSlice t vs) ttl = Done ((r, h), Some e)"
proof -
  have src: "Indirect h (ValueOf (VSlice t vs)) = RVal (TSlice t) (VSlice t vs) None"
    by (simp add: ValueOf_def Indirect_def)
  show ?thesis
  proof (cases "\<forall>v \<in> set vs. \<exists>b. sz_encode Z h v = Inr b")
    case True
    then show ?thesis using redis_set_queue_ok [OF assms True] by (simp add: redis_SetMulti_def src assms)
  next
    case False
    then obtain v e where "v \<in> set vs" "sz_encode Z h v = Inl e" by (metis sum.exhaust)
    from redis_set_queue_error [OF assms this]
    obtain e' where "redis_set_queue Z h ttl (zip keys vs) = Inl e'" by blast
    with False show ?thesis by (auto simp: redis_SetMulti_def src assms)
  qed
qed

theorem redis_set_multi_all_or_nothing_witness:
  "\<exists>e. redis_SetMulti map_redis unary_serializer int_heap Map.empty [''a'', ''b'']
     (VSlice TInt [VInt 2, VInt (-1)]) 60 = Done ((Map.empty, int_heap), Some e)"
proof -
  have "\<not> (\<forall>v \<in> set [VInt 2, VInt (-1)]. \<exists>b. sz_encode unary_serializer int_heap v = Inr b)"
    by (simp add: unary_serializer_def ValueOf_def Indirect_def)
  with redis_set_multi_all_or_nothing [of "[''a'', ''b'']" "[VInt 2, VInt (-1)]" unary_serializer
      int_heap map_redis Map.empty TInt 60] show ?thesis
    by (simp only: if_False list.size)
qed

section \<open>Nothing to refresh\<close>

text \<open>
  \<open>RefreshMulti\<close> panics when the fallback returns nil and no error, where \<open>GetMulti\<close> returns
  \<open>ErrBadFallbackResultType\<close>: it takes the type of the result before it looks at its kind. The keys
  have been deleted by then.
\<close>

theorem cache_refreshmulti_nil_panics:
  assumes "xs \<noteq> []" and "st_Delete S h (c_store c) (map keyFunc xs) = Done ((st1, h1), None)"
    and "fallbackFunc (VSlice kt xs) h1 = (h2, Inr VNil)"
  shows "cache_RefreshMulti S c h (VSlice kt xs) keyFunc fallbackFunc (VMap kt vt (Some m)) ttl
    = Panic ''reflect: call of reflect.Value.Type on zero Value''"
  using assms
  by (simp add: cache_RefreshMulti_def cache_refreshMulti_def refresh_fallback_def on_store_def
      ValueOf_def)

theorem cache_refreshmulti_nil_panics_witness:
  "cache_RefreshMulti demo_store (demo_cache [''k'' \<mapsto> user 1]) demo_heap (VSlice TInt [VInt 1])
     (\<lambda>i. ''k'') (\<lambda>ids h. (h, Inr VNil)) (VMap TInt (TStruct ''User'') (Some 5)) None
   = Panic ''reflect: call of reflect.Value.Type on zero Value''"
  by (rule cache_refreshmulti_nil_panics)
    (simp_all add: LocalStore_def local_Delete_def map_gcache_def demo_cache_def)

end
