(* ===== verification/Cache_Types.thy ===== *)
theory Cache_Types
  imports Cache_Redis
begin

text \<open>
  Type safety of the cache: reflection lets it move values between places of types it does not
  know, and still no call leaves a value in a variable or a map whose type it does not have, or a
  pointer to a cell of another type. The contract of a store that makes this true is a locale.
\<close>

section \<open>Typed heaps\<close>

text \<open>The type of every cell, and the key and element type of every map.\<close>

record typing =
  ty_cell :: "nat \<rightharpoonup> gotype"
  ty_map :: "nat \<rightharpoonup> gotype \<times> gotype"

definition extends :: "typing \<Rightarrow> typing \<Rightarrow> bool" where
  "extends T T' \<longleftrightarrow> ty_cell T \<subseteq>\<^sub>m ty_cell T' \<and> ty_map T \<subseteq>\<^sub>m ty_map T'"

fun val_ok :: "typing \<Rightarrow> goval \<Rightarrow> bool" where
  "val_ok T (VPtr t (Some a)) = (ty_cell T a = Some t)"
| "val_ok T (VMap k v (Some a)) = (ty_map T a = Some (k, v))"
| "val_ok T (VStruct n fs) = (\<forall>f \<in> set fs. val_ok T (snd f))"
| "val_ok T (VSlice t xs) = (\<forall>x \<in> set xs. fits t x \<and> val_ok T x)"
| "val_ok T v = True"

definition place_ok :: "typing \<Rightarrow> gotype \<Rightarrow> goval \<Rightarrow> bool" where
  "place_ok T t v \<longleftrightarrow> fits t v \<and> val_ok T v"

definition entries_ok :: "typing \<Rightarrow> gotype \<times> gotype \<Rightarrow> (goval \<times> goval) list \<Rightarrow> bool" where
  "entries_ok T kv es \<longleftrightarrow> (\<forall>e \<in> set es. place_ok T (fst kv) (fst e) \<and> place_ok T (snd kv) (snd e))"

definition heap_ok :: "typing \<Rightarrow> heap \<Rightarrow> bool" where
  "heap_ok T h \<longleftrightarrow>
     (\<forall>a. (h_cells h a = None) = (ty_cell T a = None)) \<and>
     (\<forall>a. (h_maps h a = None) = (ty_map T a = None)) \<and>
     (\<forall>a t v. ty_cell T a = Some t \<longrightarrow> h_cells h a = Some v \<longrightarrow> place_ok T t v) \<and>
     (\<forall>a kv es. ty_map T a = Some kv \<longrightarrow> h_maps h a = Some es \<longrightarrow> entries_ok T kv es) \<and>
     (\<forall>a \<ge> h_next h. h_cells h a = None \<and> h_maps h a = None)"

fun rval_ok :: "typing \<Rightarrow> rval \<Rightarrow> bool" where
  "rval_ok T RInvalid = True"
| "rval_ok T (RVal t v p) \<longleftrightarrow> place_ok T t v \<and> (\<forall>a. p = Some a \<longrightarrow> ty_cell T a = Some t)"

lemma extends_refl [simp]: "extends T T"
  by (simp add: extends_def)

lemma extends_trans: "extends T1 T2 \<Longrightarrow> extends T2 T3 \<Longrightarrow> extends T1 T3"
  by (auto simp: extends_def intro: map_le_trans)

lemma extends_Some:
  "extends T T' \<Longrightarrow> ty_cell T a = Some t \<Longrightarrow> ty_cell T' a = Some t"
  "extends T T' \<Longrightarrow> ty_map T a = Some kv \<Longrightarrow> ty_map T' a = Some kv"
  by (force simp: extends_def map_le_def dom_def)+

lemma heap_ok_stays: "heap_ok T h \<Longrightarrow> \<exists>T'. extends T T' \<and> heap_ok T' h"
  using extends_refl by blast

lemma val_ok_extends: "extends T T' \<Longrightarrow> val_ok T v \<Longrightarrow> val_ok T' v"
  by (induction T v rule: val_ok.induct) (auto simp: extends_Some)

lemma place_ok_extends: "extends T T' \<Longrightarrow> place_ok T t v \<Longrightarrow> place_ok T' t v"
  by (simp add: place_ok_def val_ok_extends)

lemma rval_ok_extends: "extends T T' \<Longrightarrow> rval_ok T r \<Longrightarrow> rval_ok T' r"
  by (cases r) (auto simp: place_ok_extends extends_Some)

lemma entries_ok_extends: "extends T T' \<Longrightarrow> entries_ok T kv es \<Longrightarrow> entries_ok T' kv es"
  by (auto simp: entries_ok_def place_ok_extends)

section \<open>Reflection keeps types\<close>

lemma ValueOf_ok: "val_ok T v \<Longrightarrow> rval_ok T (ValueOf v)"
  by (simp add: ValueOf_def place_ok_def fits_def)

lemma heap_ok_cell:
  "heap_ok T h \<Longrightarrow> ty_cell T a = Some t \<Longrightarrow> h_cells h a = Some v \<Longrightarrow> place_ok T t v"
  unfolding heap_ok_def by blast

lemma heap_ok_map:
  "heap_ok T h \<Longrightarrow> ty_map T a = Some kv \<Longrightarrow> h_maps h a = Some es \<Longrightarrow> entries_ok T kv es"
  unfolding heap_ok_def by blast

lemma Indirect_ok:
  assumes "heap_ok T h" and "rval_ok T r"
  shows "rval_ok T (Indirect h r)"
  using assms
  by (auto simp: Indirect_def place_ok_def [of _ "TPtr _"] fits_def dest: heap_ok_cell
      split: rval.split gotype.split goval.split option.split)

lemma assign_to_ok: "assign_to t r = Done w \<Longrightarrow> rval_ok T r \<Longrightarrow> place_ok T t w"
  by (cases r) (auto simp: place_ok_def fits_def split: if_splits)

lemma heap_ok_write:
  assumes h: "heap_ok T h" and a: "ty_cell T a = Some t" and w: "place_ok T t w"
  shows "heap_ok T (h\<lparr>h_cells := (h_cells h)(a \<mapsto> w)\<rparr>)"
proof -
  have "h_cells h a \<noteq> None" using h a by (simp add: heap_ok_def)
  then have "a < h_next h" using h unfolding heap_ok_def by (metis not_le)
  with assms show ?thesis unfolding heap_ok_def by auto
qed

lemma rSet_ok:
  assumes "heap_ok T h" and "rval_ok T r" and "rval_ok T x" and "rSet h r x = Done h1"
  shows "heap_ok T h1"
  using assms
  by (auto simp: rSet_def obind_Done_iff intro!: heap_ok_write dest: assign_to_ok
      split: rval.splits option.splits)

lemma heap_ok_put_map:
  assumes h: "heap_ok T h" and a: "ty_map T a = Some kv" and w: "entries_ok T kv es"
  shows "heap_ok T (put_map a es h)"
proof -
  have "h_maps h a \<noteq> None" using h a by (simp add: heap_ok_def)
  then have "a < h_next h" using h unfolding heap_ok_def by (metis not_le)
  with assms show ?thesis unfolding heap_ok_def put_map_def by auto
qed

lemma zero_of_ok: "place_ok T t (zero_of t)"
  by (cases t) (simp_all add: place_ok_def fits_def)

text \<open>A fresh cell and a fresh map extend the typing.\<close>

lemma heap_ok_fresh:
  assumes "heap_ok T h"
  shows "ty_cell T (h_next h) = None" and "ty_map T (h_next h) = None"
  using assms unfolding heap_ok_def by (metis order_refl)+

lemma rNew_ok:
  assumes h: "heap_ok T h" and "rNew t h = (h1, v)"
  shows "\<exists>T'. extends T T' \<and> heap_ok T' h1 \<and> val_ok T' v"
proof (intro exI conjI)
  let ?T = "T\<lparr>ty_cell := (ty_cell T)(h_next h \<mapsto> t)\<rparr>"
  show ext: "extends T ?T" using heap_ok_fresh [OF h] by (auto simp: extends_def map_le_def)
  show "heap_ok ?T h1"
    using assms heap_ok_fresh [OF h] place_ok_extends [OF ext] entries_ok_extends [OF ext] zero_of_ok
    unfolding heap_ok_def rNew_def by (auto split: if_splits)
  show "val_ok ?T v" using assms(2) by (auto simp: rNew_def)
qed

lemma MakeMap_ok:
  assumes h: "heap_ok T h" and "MakeMap k t h = (h1, v)"
  shows "\<exists>T'. extends T T' \<and> heap_ok T' h1 \<and> val_ok T' v"
proof (intro exI conjI)
  let ?T = "T\<lparr>ty_map := (ty_map T)(h_next h \<mapsto> (k, t))\<rparr>"
  show ext: "extends T ?T" using heap_ok_fresh [OF h] by (auto simp: extends_def map_le_def)
  show "heap_ok ?T h1"
    using assms heap_ok_fresh [OF h] place_ok_extends [OF ext] entries_ok_extends [OF ext]
    unfolding heap_ok_def MakeMap_def by (auto simp: entries_ok_def [of _ _ "[]"] split: if_splits)
  show "val_ok ?T v" using assms(2) by (auto simp: MakeMap_def)
qed

lemma map_entries_ok:
  assumes "heap_ok T h" and "rval_ok T (RVal (TMap kt vt) v p)"
  shows "entries_ok T (kt, vt) (map_entries h (RVal (TMap kt vt) v p))"
  using assms
  by (auto simp: map_entries_def place_ok_def fits_def entries_ok_def [of _ _ "[]"]
      dest: heap_ok_map split: goval.split option.split)

lemma MapIndex_ok:
  assumes h: "heap_ok T h" and m: "rval_ok T m" and r: "MapIndex h m k = Done r"
  shows "rval_ok T r"
proof -
  obtain kt vt v p where m': "m = RVal (TMap kt vt) v p"
    using r by (auto simp: MapIndex_def split: rval.splits gotype.splits)
  have "entries_ok T (kt, vt) (map_entries h m)"
    using map_entries_ok [OF h] m unfolding m' by blast
  then have "place_ok T vt w" if "map_of (map_entries h m) x = Some w" for x w
    using map_of_SomeD [OF that] by (force simp: entries_ok_def)
  with r show ?thesis
    unfolding m' by (auto simp: MapIndex_def obind_Done_iff split: option.splits)
qed

lemma entries_ok_update:
  "entries_ok T kv es \<Longrightarrow> place_ok T (fst kv) k \<Longrightarrow> place_ok T (snd kv) v \<Longrightarrow>
     entries_ok T kv (AList.update k v es)"
  by (induction es) (auto simp: entries_ok_def)

lemma entries_ok_delete: "entries_ok T kv es \<Longrightarrow> entries_ok T kv (AList.delete k es)"
  by (auto simp: entries_ok_def AList.delete_eq)

lemma SetMapIndex_ok:
  assumes h: "heap_ok T h" and m: "rval_ok T m" and k: "rval_ok T k" and x: "rval_ok T x"
    and r: "SetMapIndex h m k x = Done h1"
  shows "heap_ok T h1"
proof -
  obtain kt vt k' v' p q where m': "m = RVal (TMap kt vt) (VMap k' v' p) q"
    using r by (auto simp: SetMapIndex_def split: rval.splits gotype.splits goval.splits)
  then have v: "k' = kt" "v' = vt" and a: "\<And>a. p = Some a \<Longrightarrow> ty_map T a = Some (kt, vt)"
    using m by (auto simp: place_ok_def fits_def)
  have es: "entries_ok T (kt, vt) (map_entries h m)"
    using map_entries_ok [OF h] m unfolding m' by blast
  obtain kv where kv: "assign_to kt k = Done kv" using r by (auto simp: m' SetMapIndex_def obind_Done_iff)
  have kv': "place_ok T kt kv" by (rule assign_to_ok [OF kv k])
  show ?thesis
  proof (cases "x = RInvalid")
    case True
    with r es kv h show ?thesis
      by (auto simp: m' SetMapIndex_def intro!: heap_ok_put_map entries_ok_delete a split: option.splits)
  next
    case False
    then obtain w c where w: "assign_to vt x = Done w" "p = Some c"
        "h1 = put_map c (AList.update kv w (map_entries h m)) h"
      using r kv by (auto simp: m' SetMapIndex_def obind_Done_iff split: option.splits)
    show ?thesis
      unfolding w(3) by (rule heap_ok_put_map [OF h a [OF w(2)]], rule entries_ok_update [OF es])
        (simp_all add: kv' assign_to_ok [OF w(1) x])
  qed
qed

lemma slice_elems_ok: "rval_ok T r \<Longrightarrow> x \<in> set (slice_elems r) \<Longrightarrow> val_ok T x"
  by (cases r rule: slice_elems.cases) (auto simp: place_ok_def)

lemma rAppend_ok:
  assumes "rAppend t xs r = Done ys" and "rval_ok T r" and "list_all (place_ok T t) xs"
  shows "list_all (place_ok T t) ys"
  using assms by (auto simp: rAppend_def obind_Done_iff intro: assign_to_ok)

lemma VSlice_ok: "val_ok T (VSlice t xs) = list_all (place_ok T t) xs"
  by (simp add: list_all_iff place_ok_def)

lemma MapKeys_ok:
  assumes "heap_ok T h" and "val_ok T (VMap kt vt p)"
  shows "list_all (place_ok T kt) (MapKeys h (ValueOf (VMap kt vt p)))"
  using map_entries_ok [OF assms(1), of kt vt "VMap kt vt p" None] assms(2)
  by (auto simp: MapKeys_def ValueOf_def entries_ok_def place_ok_def fits_def list_all_iff)

section \<open>Stores\<close>

text \<open>
  What a call may leave: a heap that an extension of the typing describes, and a store that holds
  values of that typing.
\<close>

definition leaves_ok :: "typing \<Rightarrow> (typing \<Rightarrow> 'st \<Rightarrow> bool) \<Rightarrow> 'st \<times> heap \<Rightarrow> bool" where
  "leaves_ok T holds sh \<longleftrightarrow> (\<exists>T'. extends T T' \<and> heap_ok T' (snd sh) \<and> holds T' (fst sh))"

definition call_ok :: "typing \<Rightarrow> (typing \<Rightarrow> 'st \<Rightarrow> bool) \<Rightarrow> 'st call \<Rightarrow> bool" where
  "call_ok T holds = opost (\<lambda>r. leaves_ok T holds (fst r))"

lemma call_ok_Done: "heap_ok T h \<Longrightarrow> holds T st \<Longrightarrow> call_ok T holds (Done ((st, h), e))"
  by (auto simp: call_ok_def leaves_ok_def intro: exI [of _ T])

lemma call_ok_no [simp]: "call_ok T holds (Panic m)" "call_ok T holds Blocked"
  by (simp_all add: call_ok_def)

lemma call_ok_extends: "extends T T' \<Longrightarrow> call_ok T' holds r \<Longrightarrow> call_ok T holds r"
  unfolding call_ok_def leaves_ok_def by (erule opost_mono) (blast intro: extends_trans)

lemma call_ok_skip: "(\<And>x. m = Done x \<Longrightarrow> call_ok T holds (f x)) \<Longrightarrow> call_ok T holds (obind m f)"
  by (cases m) simp_all

lemma call_ok_if:
  "(b \<Longrightarrow> call_ok T holds x) \<Longrightarrow> (\<not> b \<Longrightarrow> call_ok T holds y) \<Longrightarrow> call_ok T holds (if b then x else y)"
  by simp

lemma call_ok_let: "call_ok T holds (f x) \<Longrightarrow> call_ok T holds (Let x f)"
  by simp

lemma call_ok_prod:
  "(\<And>a b. p = (a, b) \<Longrightarrow> call_ok T holds (f a b)) \<Longrightarrow> call_ok T holds (case p of (a, b) \<Rightarrow> f a b)"
  by (cases p) simp

lemma call_ok_option:
  "(x = None \<Longrightarrow> call_ok T holds a) \<Longrightarrow> (\<And>y. call_ok T holds (f y)) \<Longrightarrow>
     call_ok T holds (case x of None \<Rightarrow> a | Some y \<Rightarrow> f y)"
  by (cases x) simp_all

text \<open>The structural rules, which follow the code of a call.\<close>

lemmas call_ok_walk = call_ok_if call_ok_let call_ok_prod call_ok_option

lemmas call_ok_skips =
  call_ok_skip [where m = "rtype r" for r] call_ok_skip [where m = "nil_result r" for r]
  call_ok_skip [where m = "rSet h r x" for h r x] call_ok_skip [where m = "type_key t" for t]
  call_ok_skip [where m = "type_elem t" for t] call_ok_skip [where m = "TypeOf v" for v]

lemma call_ok_bind:
  assumes "call_ok T holds m"
    and "\<And>T' st h e. extends T T' \<Longrightarrow> heap_ok T' h \<Longrightarrow> holds T' st \<Longrightarrow> call_ok T' keeps (f ((st, h), e))"
  shows "call_ok T keeps (obind m f)"
proof (rule call_ok_skip)
  fix x assume m: "m = Done x"
  obtain st h e where x: "x = ((st, h), e)" by (metis surj_pair)
  from assms(1) obtain T' where T': "extends T T'" "heap_ok T' h" "holds T' st"
    by (auto simp: call_ok_def leaves_ok_def m x)
  from assms(2) [OF this] show "call_ok T keeps (f x)"
    unfolding x by (rule call_ok_extends [OF T'(1)])
qed

lemma map_dst_ok:
  assumes h: "heap_ok T h" and dst: "val_ok T dst" and r: "map_dst e1 e2 h dst = Done (h1, dstV, err)"
  shows "\<exists>T'. extends T T' \<and> heap_ok T' h1 \<and> rval_ok T' dstV"
proof -
  have p: "rval_ok T (ValueOf dst)" by (rule ValueOf_ok [OF dst])
  note d = Indirect_ok [OF h p]
  consider "h1 = h" "dstV = Indirect h (ValueOf dst)"
    | kt vt h2 m where "MakeMap kt vt h = (h2, m)" "rSet h2 (Indirect h (ValueOf dst)) (ValueOf m) = Done h1"
        "dstV = Indirect h1 (ValueOf dst)"
    using r by (fastforce simp: map_dst_def Let_def obind_Done_iff MakeMap_def split: if_splits prod.splits)
  then show ?thesis
  proof cases
    case 1
    with h d show ?thesis using extends_refl by blast
  next
    case 2
    from MakeMap_ok [OF h 2(1)] obtain T' where T': "extends T T'" "heap_ok T' h2" "val_ok T' m"
      by blast
    have "heap_ok T' h1"
      by (rule rSet_ok [OF T'(2) rval_ok_extends [OF T'(1) d] ValueOf_ok [OF T'(3)] 2(2)])
    with T'(1) 2(3) Indirect_ok [OF _ rval_ok_extends [OF T'(1) p]] show ?thesis by blast
  qed
qed

text \<open>The functions of the caller: what they return belongs to the heap they leave.\<close>

definition typed_result :: "typing \<Rightarrow> heap \<times> (cache_error + goval) \<Rightarrow> bool" where
  "typed_result T r \<longleftrightarrow>
     (\<exists>T'. extends T T' \<and> heap_ok T' (fst r) \<and> (\<forall>v. snd r = Inr v \<longrightarrow> val_ok T' v))"

definition typed_fallback :: "fallback_fn \<Rightarrow> bool" where
  "typed_fallback f \<longleftrightarrow> (\<forall>T h. heap_ok T h \<longrightarrow> typed_result T (f h))"

definition typed_fallback_multi :: "fallback_multi_fn \<Rightarrow> bool" where
  "typed_fallback_multi f \<longleftrightarrow> (\<forall>T h ids. heap_ok T h \<longrightarrow> val_ok T ids \<longrightarrow> typed_result T (f ids h))"

section \<open>The loops of the multi calls\<close>

lemma miss_loop_ok:
  assumes "miss_loop revertKey mapKeyType dstV cacheDstV h missing keys = Done (h1, missing1)"
    and "heap_ok T h" and "rval_ok T dstV" and "rval_ok T cacheDstV" and "list_all (place_ok T mapKeyType) missing"
    and "\<And>key. val_ok T (revertKey key)"
  shows "heap_ok T h1 \<and> list_all (place_ok T mapKeyType) missing1"
  using assms
proof (induction revertKey mapKeyType dstV cacheDstV h missing keys rule: miss_loop.induct)
  case (2 revertKey mapKeyType dstV cacheDstV h missing key keys)
  let ?i = "ValueOf (revertKey key)"
  have i: "rval_ok T ?i" by (rule ValueOf_ok [OF 2(8)])
  obtain v where v: "MapIndex h cacheDstV (ValueOf (VStr key)) = Done v"
    using 2(3) by (auto simp: Let_def obind_Done_iff)
  show ?case
  proof (cases "v = RInvalid")
    case True
    then obtain m where m: "rAppend mapKeyType missing ?i = Done m"
        "miss_loop revertKey mapKeyType dstV cacheDstV h m keys = Done (h1, missing1)"
      using 2(3) v by (auto simp: Let_def obind_Done_iff)
    show ?thesis
      by (rule 2(1) [OF refl True m(2) 2(4,5,6) rAppend_ok [OF m(1) i 2(7)] 2(8)])
  next
    case False
    then obtain h2 where h2: "SetMapIndex h dstV ?i v = Done h2"
        "miss_loop revertKey mapKeyType dstV cacheDstV h2 missing keys = Done (h1, missing1)"
      using 2(3) v by (auto simp: Let_def obind_Done_iff)
    have "heap_ok T h2"
      by (rule SetMapIndex_ok [OF 2(4,5) i MapIndex_ok [OF 2(4,6) v] h2(1)])
    then show ?thesis by (rule 2(2) [OF refl False h2(2) _ 2(5,6,7,8)])
  qed
qed simp

lemma fill_loop_ok:
  assumes "fill_loop keyFunc kt dstValueT dstV resultV h found ks = Done (h1, found1)"
    and "heap_ok T h" and "rval_ok T dstV" and "rval_ok T resultV" and "list_all (place_ok T kt) ks"
    and "list_all (place_ok T dstValueT) (map snd found)"
  shows "heap_ok T h1 \<and> list_all (place_ok T dstValueT) (map snd found1)"
  using assms
proof (induction keyFunc kt dstValueT dstV resultV h found ks rule: fill_loop.induct)
  case (2 keyFunc kt dstValueT dstV resultV h found k ks)
  have k: "rval_ok T (RVal kt k None)" and ks: "list_all (place_ok T kt) ks" using 2(7) by simp_all
  obtain v b where v: "MapIndex h resultV (RVal kt k None) = Done v" "nil_result v = Done b"
    using 2(3) by (auto simp: obind_Done_iff)
  note vok = MapIndex_ok [OF 2(4,6) v(1)]
  show ?case
  proof (cases b)
    case True
    then have "fill_loop keyFunc kt dstValueT dstV resultV h found ks = Done (h1, found1)"
      using 2(3) v by simp
    then show ?thesis by (rule 2(1) [OF True _ 2(4,5,6) ks 2(8)])
  next
    case False
    then obtain w h2 where w: "assign_to dstValueT v = Done w"
        "SetMapIndex h dstV (RVal kt k None) v = Done h2"
        "fill_loop keyFunc kt dstValueT dstV resultV h2 (found @ [(keyFunc k, w)]) ks = Done (h1, found1)"
      using 2(3) v by (auto simp: obind_Done_iff)
    have h2: "heap_ok T h2" by (rule SetMapIndex_ok [OF 2(4,5) k vok w(2)])
    have "list_all (place_ok T dstValueT) (map snd (found @ [(keyFunc k, w)]))"
      using 2(8) assign_to_ok [OF w(1) vok] by simp
    then show ?thesis by (rule 2(2) [OF False w(3) h2 2(5,6) ks])
  qed
qed simp

lemma collect_loop_ok:
  assumes "collect_loop keyFunc kt vt h rV ks = Done kvs" and "heap_ok T h" and "rval_ok T rV"
  shows "list_all (place_ok T vt) (map snd kvs)"
  using assms
  by (induction keyFunc kt vt h rV ks arbitrary: kvs rule: collect_loop.induct)
    (auto simp: obind_Done_iff dest: assign_to_ok MapIndex_ok)

section \<open>The contract of a store\<close>

locale typed_store =
  fixes S :: "'st store_ops" and holds :: "typing \<Rightarrow> 'st \<Rightarrow> bool"
  assumes holds_extends: "extends T T' \<Longrightarrow> holds T st \<Longrightarrow> holds T' st"
    and get_ok: "heap_ok T h \<Longrightarrow> holds T st \<Longrightarrow> val_ok T dst \<Longrightarrow> call_ok T holds (st_Get S h st key dst)"
    and get_multi_ok: "heap_ok T h \<Longrightarrow> holds T st \<Longrightarrow> val_ok T dst \<Longrightarrow>
      call_ok T holds (st_GetMulti S h st keys dst)"
    and set_ok: "heap_ok T h \<Longrightarrow> holds T st \<Longrightarrow> val_ok T v \<Longrightarrow> call_ok T holds (st_Set S h st key v ttl)"
    and set_multi_ok: "heap_ok T h \<Longrightarrow> holds T st \<Longrightarrow> val_ok T vs \<Longrightarrow>
      call_ok T holds (st_SetMulti S h st keys vs ttl)"
    and delete_ok: "heap_ok T h \<Longrightarrow> holds T st \<Longrightarrow> call_ok T holds (st_Delete S h st keys)"
begin

abbreviation box_holds :: "typing \<Rightarrow> ('st, 'l) cache \<Rightarrow> bool" where
  "box_holds T c \<equiv> holds T (c_store c)"

lemma on_store_ok: "call_ok T holds r \<Longrightarrow> call_ok T box_holds (on_store c r)"
  unfolding on_store_def by (erule call_ok_bind) (simp add: call_ok_Done)

lemma quiet_store_ok:
  "call_ok T holds m \<Longrightarrow> call_ok T box_holds (obind (on_store c m) (\<lambda>(r, e). Done (r, None)))"
  by (rule call_ok_bind [OF on_store_ok]) (simp_all add: call_ok_Done)

lemma fallback_ok:
  assumes "heap_ok T h" and "box_holds T c" and "val_ok T dst" and f: "typed_fallback f"
  shows "call_ok T box_holds (cache_fallback S rit c h key f dst expire)"
proof -
  obtain h1 r where fh: "f h = (h1, r)" by fastforce
  obtain T1 where T1: "extends T T1" "heap_ok T1 h1" "\<And>v. r = Inr v \<Longrightarrow> val_ok T1 v"
    using f assms(1) fh unfolding typed_fallback_def typed_result_def by (metis fst_conv snd_conv)
  have c: "box_holds T1 c" and dst: "val_ok T1 dst"
    using assms(2,3) T1(1) by (auto intro: holds_extends val_ok_extends)
  note d = Indirect_ok [OF T1(2) ValueOf_ok [OF dst]]
  show ?thesis
  proof (rule call_ok_extends [OF T1(1)], cases r)
    case (Inl err)
    with T1(2) c show "call_ok T1 box_holds (cache_fallback S rit c h key f dst expire)"
      by (simp add: cache_fallback_def fh call_ok_Done)
  next
    case (Inr v)
    note v = ValueOf_ok [OF T1(3) [OF Inr]]
    show "call_ok T1 box_holds (cache_fallback S rit c h key f dst expire)"
      using T1(2) c
      by (auto simp: cache_fallback_def fh Inr Let_def intro!: call_ok_skips call_ok_Done
          quiet_store_ok set_ok dst dest!: rSet_ok [OF T1(2) d v])
  qed
qed

lemma cache_get_ok:
  assumes "heap_ok T h" and "box_holds T c" and dst: "val_ok T dst" and f: "typed_fallback f"
  shows "call_ok T box_holds (cache_get S take_av rit c h key f dst expire)"
proof (cases "rkind (ValueOf dst) = KPtr")
  case True
  have "call_ok T' box_holds (case e of None \<Rightarrow> Done ((c1, h1), None)
      | Some e \<Rightarrow>
          if e = RedisNil \<or> e = KeyNotFoundError then cache_fallback S rit c1 h1 key f dst expire
          else let (c2, can) = canFallbackWhenError take_av c1
               in if can then cache_fallback S rit c2 h1 key f dst expire
                  else Done ((c2, h1), Some e))"
    if "extends T T'" "heap_ok T' h1" "box_holds T' c1" for T' c1 h1 e
  proof -
    have d: "val_ok T' dst" by (rule val_ok_extends [OF that(1) dst])
    obtain c2 can where can: "canFallbackWhenError take_av c1 = (c2, can)" by fastforce
    have "box_holds T' c2" using that(3) canFallback_store [of take_av c1] can by simp
    with that d f show ?thesis
      by (auto simp: can intro!: fallback_ok call_ok_Done split: option.split)
  qed
  then show ?thesis
    using True assms(1,2) dst
    by (simp add: cache_get_def call_ok_bind [OF on_store_ok [OF get_ok]])
qed (use assms in \<open>simp add: cache_get_def call_ok_Done\<close>)

lemma cache_refresh_ok:
  assumes "heap_ok T h" and "box_holds T c" and f: "typed_fallback f"
  shows "call_ok T box_holds (cache_refresh S c h key f p expire)"
  unfolding cache_refresh_def
proof (rule call_ok_bind [OF on_store_ok [OF delete_ok [OF assms(1,2)]]], goal_cases)
  case T': (1 T' c1 h1 e)
  obtain h2 r where fh: "f h1 = (h2, r)" by fastforce
  obtain T1 where T1: "extends T' T1" "heap_ok T1 h2" "\<And>v. r = Inr v \<Longrightarrow> val_ok T1 v"
    using f T'(2) fh unfolding typed_fallback_def typed_result_def by (metis fst_conv snd_conv)
  have c: "box_holds T1 c1" by (rule holds_extends [OF T1(1) T'(3)])
  note fin = call_ok_extends [OF T1(1) call_ok_Done [OF T1(2)], of box_holds c1, OF c]
    call_ok_Done [OF T'(2), of box_holds c1, OF T'(3)]
    call_ok_extends [OF T1(1) on_store_ok [OF set_ok [OF T1(2) c T1(3)]]]
  show ?case
    by (auto simp: cache_refill_def fh Let_def intro!: call_ok_skips fin split: option.split sum.split)
qed

lemma multi_fallback_ok:
  assumes h: "heap_ok T h" and c: "box_holds T c" and f: "typed_fallback_multi f"
    and dstV: "rval_ok T dstV" and missing: "list_all (place_ok T mapKeyType) missing"
  shows "call_ok T box_holds
    (multi_fallback S c h keyFunc f mapKeyType mapValueType dstValueT dstV missing expire)"
proof -
  obtain h1 r where fh: "f (VSlice mapKeyType missing) h = (h1, r)" by fastforce
  have "val_ok T (VSlice mapKeyType missing)" unfolding VSlice_ok by (rule missing)
  then obtain T1 where T1: "extends T T1" "heap_ok T1 h1" "\<And>v. r = Inr v \<Longrightarrow> val_ok T1 v"
    using f h fh unfolding typed_fallback_multi_def typed_result_def by (metis fst_conv snd_conv)
  have c1: "box_holds T1 c" by (rule holds_extends [OF T1(1) c])
  note d = rval_ok_extends [OF T1(1) dstV]
  note fin = call_ok_Done [OF T1(2), of box_holds c, OF c1]
  show ?thesis
  proof (rule call_ok_extends [OF T1(1)], cases r)
    case (Inl err)
    then show "call_ok T1 box_holds
      (multi_fallback S c h keyFunc f mapKeyType mapValueType dstValueT dstV missing expire)"
      by (simp add: multi_fallback_def fh fin)
  next
    case (Inr v)
    note v = T1(3) [OF Inr]
    show "call_ok T1 box_holds
      (multi_fallback S c h keyFunc f mapKeyType mapValueType dstValueT dstV missing expire)"
    proof (cases "rkind (ValueOf v) = KMap")
      case True
      then obtain kt vt p where m: "v = VMap kt vt p" by (rule rkind_ValueOf_Map)
      have vs: "ValueOf v = RVal (TMap kt vt) v None" by (simp add: m ValueOf_def)
      have "call_ok T1 box_holds
        (obind (fill_loop keyFunc kt dstValueT dstV (ValueOf v) h1 [] (MapKeys h1 (ValueOf v)))
          (\<lambda>(h2, found).
             if found = [] then Done ((c, h2), None)
             else obind (on_store c (st_SetMulti S h2 (c_store c) (map fst found)
                    (VSlice dstValueT (map snd found)) expire)) (\<lambda>(r, _). Done (r, None))))"
      proof (rule call_ok_skip)
        fix x
        assume x: "fill_loop keyFunc kt dstValueT dstV (ValueOf v) h1 [] (MapKeys h1 (ValueOf v)) = Done x"
        obtain h2 found where x': "x = (h2, found)" by fastforce
        have "heap_ok T1 h2 \<and> list_all (place_ok T1 dstValueT) (map snd found)"
          by (rule fill_loop_ok [OF x [unfolded x'] T1(2) d ValueOf_ok [OF v]])
            (use MapKeys_ok [OF T1(2) v [unfolded m]] in \<open>simp_all add: m\<close>)
        then have h2: "heap_ok T1 h2" and w: "val_ok T1 (VSlice dstValueT (map snd found))"
          unfolding VSlice_ok by simp_all
        show "call_ok T1 box_holds (case x of (h2, found) \<Rightarrow>
             if found = [] then Done ((c, h2), None)
             else obind (on_store c (st_SetMulti S h2 (c_store c) (map fst found)
                    (VSlice dstValueT (map snd found)) expire)) (\<lambda>(r, _). Done (r, None)))"
          using quiet_store_ok [OF set_multi_ok [OF h2 c1 w], where c = c] by (simp add: x' call_ok_Done h2 c1)
      qed
      then show ?thesis
        by (simp add: multi_fallback_def fh Inr Let_def vs fin)
    qed (simp add: multi_fallback_def fh Inr fin)
  qed
qed

lemma can_go:
  assumes "canFallbackWhenError take_av c = (c1, can)" and "box_holds T c"
  shows "box_holds T c1"
  using assms canFallback_store [of take_av c] by simp

text \<open>\<open>GetMulti\<close> from the call of the store on.\<close>

lemma getMulti_store_ok:
  assumes "heap_ok T h" and "box_holds T c" and dstV: "rval_ok T dstV" and cd: "val_ok T cacheDst"
    and xs: "\<And>x. x \<in> set xs \<Longrightarrow> val_ok T x" and f: "typed_fallback_multi f"
  shows "call_ok T box_holds
    (obind (on_store c (st_GetMulti S h (c_store c) keys cacheDst)) (\<lambda>((c3, h3), err).
       let (c4, go) = (if err = None then (c3, True) else canFallbackWhenError take_av c3)
       in if \<not> go then Done ((c4, h3), err)
          else obind (miss_loop (revert_key keyFunc xs) mapKeyType dstV (ValueOf cacheDst) h3 [] keys)
            (\<lambda>(h4, missing).
               if missing = [] then Done ((c4, h4), None)
               else multi_fallback S c4 h4 keyFunc f mapKeyType mapValueType dstValueT dstV
                      missing expire)))"
proof (rule call_ok_bind [OF on_store_ok [OF get_multi_ok [OF assms(1,2) cd]]], goal_cases)
  case T': (1 T' c3 h3 err)
  obtain c4 go where go: "(if err = None then (c3, True) else canFallbackWhenError take_av c3) = (c4, go)"
    by fastforce
  have c4: "box_holds T' c4" using go T'(3) can_go by (auto split: if_splits)
  have rev: "val_ok T' (revert_key keyFunc xs key)" for key
    using xs val_ok_extends [OF T'(1)]
    by (auto simp: revert_key_def revert_keys_def split: option.split dest!: map_of_SomeD)
  have "call_ok T' box_holds
    (obind (miss_loop (revert_key keyFunc xs) mapKeyType dstV (ValueOf cacheDst) h3 [] keys)
      (\<lambda>(h4, missing).
         if missing = [] then Done ((c4, h4), None)
         else multi_fallback S c4 h4 keyFunc f mapKeyType mapValueType dstValueT dstV missing expire))"
  proof (rule call_ok_skip)
    fix x
    assume x: "miss_loop (revert_key keyFunc xs) mapKeyType dstV (ValueOf cacheDst) h3 [] keys = Done x"
    obtain h4 missing where x': "x = (h4, missing)" by fastforce
    have "heap_ok T' h4 \<and> list_all (place_ok T' mapKeyType) missing"
      by (rule miss_loop_ok [OF x [unfolded x'] T'(2) rval_ok_extends [OF T'(1) dstV]
            ValueOf_ok [OF val_ok_extends [OF T'(1) cd]] _ rev]) simp
    then show "call_ok T' box_holds (case x of (h4, missing) \<Rightarrow>
         if missing = [] then Done ((c4, h4), None)
         else multi_fallback S c4 h4 keyFunc f mapKeyType mapValueType dstValueT dstV missing expire)"
      by (simp add: x' call_ok_Done c4 multi_fallback_ok f rval_ok_extends [OF T'(1) dstV])
  qed
  with T'(2) c4 show ?case by (simp add: go call_ok_Done)
qed

lemma cache_getMulti_ok:
  assumes "heap_ok T h" and "box_holds T c" and dst: "val_ok T dstMap" and ids: "val_ok T ids"
    and f: "typed_fallback_multi f"
  shows "call_ok T box_holds (cache_getMulti S take_av rit c h ids keyFunc f dstMap expire)"
  unfolding cache_getMulti_def
proof (rule call_ok_skip)
  fix x
  assume x: "map_dst (BoxErr ErrBadDstMapType) (BoxErr ErrBadDstMapValue) h dstMap = Done x"
  obtain h1 dstV err where x': "x = (h1, dstV, err)" by (cases x) auto
  from map_dst_ok [OF assms(1) dst x [unfolded x']] obtain T1
    where T1: "extends T T1" "heap_ok T1 h1" "rval_ok T1 dstV" by blast
  have c: "box_holds T1 c" by (rule holds_extends [OF T1(1) assms(2)])
  have xs: "val_ok T1 y" if "y \<in> set (slice_elems (ValueOf ids))" for y
    by (rule slice_elems_ok [OF ValueOf_ok [OF val_ok_extends [OF T1(1) ids]] that])
  note fin = call_ok_Done [OF T1(2), of box_holds c, OF c]
  have store: "call_ok T1 box_holds
      (obind (on_store c (st_GetMulti S h2 (c_store c) keys cacheDst)) (\<lambda>((c3, h3), err).
         let (c4, go) = (if err = None then (c3, True) else canFallbackWhenError take_av c3)
         in if \<not> go then Done ((c4, h3), err)
            else obind (miss_loop (revert_key keyFunc (slice_elems (ValueOf ids))) mapKeyType dstV
                (ValueOf cacheDst) h3 [] keys)
              (\<lambda>(h4, missing).
                 if missing = [] then Done ((c4, h4), None)
                 else multi_fallback S c4 h4 keyFunc f mapKeyType mapValueType dstValueT dstV
                        missing expire)))"
    if "MakeMap kt vt h1 = (h2, cacheDst)" for kt vt h2 cacheDst keys mapKeyType mapValueType dstValueT
  proof -
    from MakeMap_ok [OF T1(2) that] obtain T2
      where T2: "extends T1 T2" "heap_ok T2 h2" "val_ok T2 cacheDst" by blast
    show ?thesis
      by (rule call_ok_extends [OF T2(1)], rule getMulti_store_ok [OF T2(2) holds_extends [OF T2(1) c]
            rval_ok_extends [OF T2(1) T1(3)] T2(3) val_ok_extends [OF T2(1) xs] f])
  qed
  have skip_if: "call_ok T1 box_holds (obind (if b then type_elem t else Done t) g)"
    if "\<And>y. call_ok T1 box_holds (g y)" for b t g
    by (rule call_ok_skip) (rule that)
  show "call_ok T box_holds (case x of (h1, dstV, dstErr) \<Rightarrow>
     case dstErr of Some e \<Rightarrow> Done ((c, h1), Some e) | None \<Rightarrow>
     obind (TypeOf dstMap) (\<lambda>dmt.
     obind (type_key (rit dmt)) (\<lambda>mapKeyType.
     obind (type_elem (rit dmt)) (\<lambda>mapValueType.
     let idsV = ValueOf ids
     in if rkind idsV \<noteq> KSlice then Done ((c, h1), Some (BoxErr ErrBadSrcType))
     else
       let xs = slice_elems idsV
       in if xs = [] then Done ((c, h1), None)
       else obind (rtype idsV) (\<lambda>it. obind (type_elem it) (\<lambda>idT.
         if kind_of idT \<noteq> kind_of mapKeyType
         then Done ((c, h1), Some (BoxErr ErrDstFallbackTypeMismatch))
         else
           let keys = map keyFunc xs
           in obind (if rkind (ValueOf dstMap) = KPtr then type_elem dmt else Done dmt) (\<lambda>dvt.
              obind (type_elem dvt) (\<lambda>dstValueT.
                let (h2, cacheDst) = MakeMap TString dstValueT h1
                in obind (on_store c (st_GetMulti S h2 (c_store c) keys cacheDst))
                  (\<lambda>((c3, h3), err).
                    let (c4, go) = (if err = None then (c3, True)
                                    else canFallbackWhenError take_av c3)
                    in if \<not> go then Done ((c4, h3), err)
                    else obind (miss_loop (revert_key keyFunc xs) mapKeyType dstV
                                 (ValueOf cacheDst) h3 [] keys) (\<lambda>(h4, missing).
                      if missing = [] then Done ((c4, h4), None)
                      else multi_fallback S c4 h4 keyFunc f mapKeyType mapValueType
                             dstValueT dstV missing expire))))))))))"
    unfolding x' prod.case
    by (rule call_ok_extends [OF T1(1)]) (intro call_ok_walk call_ok_skips skip_if fin store; assumption)
qed

lemma refresh_fallback_ok:
  assumes h: "heap_ok T h" and c: "box_holds T c" and f: "typed_fallback_multi f" and ids: "val_ok T ids"
  shows "call_ok T box_holds (refresh_fallback S c h ids keyFunc f dstKeyT dstValT expire)"
proof -
  obtain h1 r where fh: "f ids h = (h1, r)" by fastforce
  obtain T1 where T1: "extends T T1" "heap_ok T1 h1" "\<And>v. r = Inr v \<Longrightarrow> val_ok T1 v"
    using f h ids fh unfolding typed_fallback_multi_def typed_result_def by (metis fst_conv snd_conv)
  have c1: "box_holds T1 c" by (rule holds_extends [OF T1(1) c])
  note fin = call_ok_Done [OF T1(2), of box_holds c, OF c1]
  show ?thesis
  proof (rule call_ok_extends [OF T1(1)], cases r)
    case (Inl err)
    then show "call_ok T1 box_holds (refresh_fallback S c h ids keyFunc f dstKeyT dstValT expire)"
      by (simp add: refresh_fallback_def fh fin)
  next
    case (Inr v)
    note v = ValueOf_ok [OF T1(3) [OF Inr]]
    have store: "call_ok T1 box_holds
        (obind (collect_loop keyFunc kt vt h1 (ValueOf v) ks) (\<lambda>kvs.
          on_store c (st_SetMulti S h1 (c_store c) (map fst kvs) (VSlice vt (map snd kvs)) expire)))"
      for kt vt ks
      by (rule call_ok_skip, rule on_store_ok, rule set_multi_ok [OF T1(2) c1])
        (unfold VSlice_ok, erule collect_loop_ok [OF _ T1(2) v])
    show "call_ok T1 box_holds (refresh_fallback S c h ids keyFunc f dstKeyT dstValT expire)"
      unfolding refresh_fallback_def fh Inr prod.case sum.case
      by (intro call_ok_walk call_ok_skips fin store)
  qed
qed

lemma cache_refreshMulti_ok:
  assumes h: "heap_ok T h" and c: "box_holds T c" and ids: "val_ok T ids" and f: "typed_fallback_multi f"
  shows "call_ok T box_holds (cache_refreshMulti S c h ids keyFunc f dst expire)"
proof -
  have store: "call_ok T box_holds (obind (on_store c (st_Delete S h (c_store c) keys))
      (\<lambda>((c1, h1), delErr). case delErr of
           None \<Rightarrow> refresh_fallback S c1 h1 ids keyFunc f kt vt expire
         | Some e \<Rightarrow> Done ((c1, h1), Some e)))" for keys kt vt
  proof (rule call_ok_bind [OF on_store_ok [OF delete_ok [OF h c]]], goal_cases)
    case (1 T' c1 h1 e)
    then show ?case
      by (simp add: call_ok_Done refresh_fallback_ok f val_ok_extends [OF 1(1) ids] split: option.split)
  qed
  have nil: "call_ok T box_holds (obind (rIsNil r) g)" if "\<And>b. call_ok T box_holds (g b)" for r g
    by (rule call_ok_skip) (rule that)
  note fin = call_ok_Done [OF h, of box_holds c, OF c]
  show ?thesis
    unfolding cache_refreshMulti_def
    by (intro call_ok_walk call_ok_skips nil fin store)
qed

end

section \<open>The two stores\<close>

text \<open>
  A gcache holds the values it was given: \<open>vals\<close> lists them, a lookup gives one of them, and only
  setting an entry adds one.
\<close>

definition gcache_keeps :: "'g gcache_ops \<Rightarrow> ('g \<Rightarrow> goval set) \<Rightarrow> bool" where
  "gcache_keeps G vals \<longleftrightarrow>
     (\<forall>g key g1 r. gc_Get G g key = (g1, r) \<longrightarrow> vals g1 \<subseteq> vals g \<and> (\<forall>v. r = Inr v \<longrightarrow> v \<in> vals g)) \<and>
     (\<forall>g key v ttl g1 e. gc_SetWithExpire G g key v ttl = (g1, e) \<longrightarrow> vals g1 \<subseteq> insert v (vals g)) \<and>
     (\<forall>g key. vals (gc_Remove G g key) \<subseteq> vals g)"

text \<open>Decoding through a pointer leaves a heap of the same types, with new cells and maps perhaps.\<close>

definition typed_serializer :: "serializer \<Rightarrow> bool" where
  "typed_serializer Z \<longleftrightarrow> (\<forall>T h b dst. heap_ok T h \<longrightarrow> val_ok T dst \<longrightarrow>
     (\<exists>T'. extends T T' \<and> heap_ok T' (fst (sz_decode Z h b dst))))"

definition all_ok :: "('g \<Rightarrow> goval set) \<Rightarrow> typing \<Rightarrow> 'g \<Rightarrow> bool" where
  "all_ok vals T g \<longleftrightarrow> (\<forall>v \<in> vals g. val_ok T v)"

lemma all_ok_extends: "extends T T' \<Longrightarrow> all_ok vals T g \<Longrightarrow> all_ok vals T' g"
  by (simp add: all_ok_def val_ok_extends)

lemma gcache_keeps_ok:
  assumes "gcache_keeps G vals" and "all_ok vals T g"
  shows "gc_Get G g key = (g1, r) \<Longrightarrow> all_ok vals T g1 \<and> (\<forall>v. r = Inr v \<longrightarrow> val_ok T v)"
    and "gc_SetWithExpire G g key v ttl = (g1, e) \<Longrightarrow> val_ok T v \<Longrightarrow> all_ok vals T g1"
    and "all_ok vals T (gc_Remove G g key)"
  using assms unfolding gcache_keeps_def all_ok_def by blast+

lemma local_Get_ok:
  assumes G: "gcache_keeps G vals" and h: "heap_ok T h" and g: "all_ok vals T g" and dst: "val_ok T dst"
  shows "call_ok T (all_ok vals) (local_Get G rit h g key dst)"
proof -
  obtain g1 r where get: "gc_Get G g key = (g1, r)" by fastforce
  note keep = gcache_keeps_ok(1) [OF G g get]
  have "call_ok T (all_ok vals) (obind (rSet h (Indirect h (ValueOf dst)) (Indirect h (ValueOf v)))
      (\<lambda>h1. Done ((g1, h1), None)))" if "r = Inr v" for v
    by (rule call_ok_skip, rule call_ok_Done)
      (use that keep in \<open>auto intro: rSet_ok [OF h] Indirect_ok [OF h] ValueOf_ok dst\<close>)
  then show ?thesis
    unfolding local_Get_def get
    by (cases r) (auto simp: Let_def call_ok_Done h g keep intro!: call_ok_skips call_ok_if)
qed

lemma local_get_loop_ok:
  assumes "gcache_keeps G vals" and "local_get_loop G dstV h g keys = Done (g1, h1)"
    and "heap_ok T h" and "all_ok vals T g" and "rval_ok T dstV"
  shows "heap_ok T h1 \<and> all_ok vals T g1"
  using assms
proof (induction G dstV h g keys rule: local_get_loop.induct)
  case (2 G dstV h g key keys)
  obtain g2 r where get: "gc_Get G g key = (g2, r)" by fastforce
  note keep = gcache_keeps_ok(1) [OF 2(3,6) get]
  show ?case
  proof (cases r)
    case (Inl e)
    show ?thesis
      by (rule 2(1) [OF get [symmetric] Inl 2(3) _ 2(5) conjunct1 [OF keep] 2(7)])
        (use 2(4) in \<open>simp add: get Inl\<close>)
  next
    case (Inr v)
    then obtain h2 where h2: "SetMapIndex h dstV (ValueOf (VStr key)) (ValueOf v) = Done h2"
        "local_get_loop G dstV h2 g2 keys = Done (g1, h1)"
      using 2(4) get by (auto simp: obind_Done_iff)
    have "heap_ok T h2"
      by (rule SetMapIndex_ok [OF 2(5) 2(7) _ _ h2(1)]) (use keep Inr in \<open>simp_all add: ValueOf_ok\<close>)
    then show ?thesis by (rule 2(2) [OF get [symmetric] Inr 2(3) h2(2) _ conjunct1 [OF keep] 2(7)])
  qed
qed simp

lemma local_GetMulti_ok:
  assumes G: "gcache_keeps G vals" and h: "heap_ok T h" and g: "all_ok vals T g" and dst: "val_ok T dst"
  shows "call_ok T (all_ok vals) (local_GetMulti G h g keys dst)"
  unfolding local_GetMulti_def
proof (rule call_ok_skip)
  fix x
  assume x: "map_dst (StoreErr StoreBadDstMapType) (StoreErr StoreBadDstMapValue) h dst = Done x"
  obtain h1 dstV err where x': "x = (h1, dstV, err)" by (cases x) auto
  from map_dst_ok [OF h dst x [unfolded x']] obtain T1
    where T1: "extends T T1" "heap_ok T1 h1" "rval_ok T1 dstV" by blast
  note g1 = all_ok_extends [OF T1(1) g]
  have loop: "call_ok T1 (all_ok vals) (obind (local_get_loop G dstV h1 g keys) (\<lambda>r. Done (r, None)))"
  proof (rule call_ok_skip)
    fix r assume "local_get_loop G dstV h1 g keys = Done r"
    then show "call_ok T1 (all_ok vals) (Done (r, None))"
      using local_get_loop_ok [OF G _ T1(2) g1 T1(3)] by (cases r) (simp add: call_ok_Done)
  qed
  show "call_ok T (all_ok vals) (case x of (h1, dstV, err) \<Rightarrow>
         case err of
           Some e \<Rightarrow> Done ((g, h1), Some e)
         | None \<Rightarrow> obind (local_get_loop G dstV h1 g keys) (\<lambda>r. Done (r, None)))"
    unfolding x' prod.case
    by (rule call_ok_extends [OF T1(1)]) (intro call_ok_walk loop call_ok_Done T1(2) g1)
qed

lemma local_set_loop_ok:
  assumes "gcache_keeps G vals"
  shows "heap_ok T h \<Longrightarrow> all_ok vals T g \<Longrightarrow> \<forall>kv \<in> set kvs. val_ok T (snd kv) \<Longrightarrow>
    call_ok T (all_ok vals) (local_set_loop G h g ttl kvs)"
proof (induction kvs arbitrary: g)
  case (Cons kv kvs)
  obtain key v g1 e where kv: "kv = (key, v)" and put: "gc_SetWithExpire G g key v ttl = (g1, e)"
    by (metis surj_pair)
  have g1: "all_ok vals T g1"
    by (rule gcache_keeps_ok(2) [OF assms Cons.prems(2) put]) (use Cons.prems(3) kv in simp)
  have "call_ok T (all_ok vals) (local_set_loop G h g1 ttl kvs)"
    by (rule Cons.IH [OF Cons.prems(1) g1]) (use Cons.prems(3) in simp)
  with g1 Cons.prems(1) show ?case
    by (simp add: kv local_Set_def put call_ok_Done split: option.split)
qed (simp add: call_ok_Done)

lemma local_SetMulti_ok:
  assumes G: "gcache_keeps G vals" and h: "heap_ok T h" and g: "all_ok vals T g" and vs: "val_ok T vs"
  shows "call_ok T (all_ok vals) (local_SetMulti G h g keys vs ttl)"
proof -
  have "val_ok T v" if "v \<in> set (slice_elems (Indirect h (ValueOf vs)))" for v
    by (rule slice_elems_ok [OF Indirect_ok [OF h ValueOf_ok [OF vs]] that])
  then have "\<forall>kv \<in> set (zip keys (slice_elems (Indirect h (ValueOf vs)))). val_ok T (snd kv)"
    by (auto dest: set_zip_rightD)
  from local_set_loop_ok [OF G h g this] show ?thesis
    by (simp add: local_SetMulti_def Let_def call_ok_Done h g)
qed

lemma local_Delete_ok:
  assumes G: "gcache_keeps G vals" and h: "heap_ok T h" and g: "all_ok vals T g"
  shows "call_ok T (all_ok vals) (local_Delete G h g keys)"
proof -
  have "all_ok vals T g \<Longrightarrow> all_ok vals T (foldl (gc_Remove G) g keys)" for g
    by (induction keys arbitrary: g) (simp_all add: gcache_keeps_ok(3) [OF G])
  with g h show ?thesis by (simp add: local_Delete_def call_ok_Done)
qed

text \<open>A gcache that keeps what it was given makes \<open>LocalStore\<close> a typed store.\<close>

locale typed_gcache =
  fixes G :: "'g gcache_ops" and vals :: "'g \<Rightarrow> goval set" and rit :: "gotype \<Rightarrow> gotype"
  assumes keeps: "gcache_keeps G vals"

sublocale typed_gcache \<subseteq> held: typed_store "LocalStore G rit" "all_ok vals"
proof unfold_locales
  show "call_ok T (all_ok vals) (st_Get (LocalStore G rit) h st key dst)"
    if "heap_ok T h" "all_ok vals T st" "val_ok T dst" for T h st key dst
    using that by (simp add: LocalStore_def local_Get_ok [OF keeps])
  show "call_ok T (all_ok vals) (st_GetMulti (LocalStore G rit) h st keys dst)"
    if "heap_ok T h" "all_ok vals T st" "val_ok T dst" for T h st keys dst
    using that by (simp add: LocalStore_def local_GetMulti_ok [OF keeps])
  show "call_ok T (all_ok vals) (st_Set (LocalStore G rit) h st key v ttl)"
    if "heap_ok T h" "all_ok vals T st" "val_ok T v" for T h st key v ttl
    using local_set_loop_ok [OF keeps that(1,2), of "[(key, v)]" ttl] that
    by (simp add: LocalStore_def local_Set_def call_ok_Done gcache_keeps_ok(2) [OF keeps] split: prod.split)
  show "call_ok T (all_ok vals) (st_SetMulti (LocalStore G rit) h st keys vs ttl)"
    if "heap_ok T h" "all_ok vals T st" "val_ok T vs" for T h st keys vs ttl
    using that by (simp add: LocalStore_def local_SetMulti_ok [OF keeps])
  show "call_ok T (all_ok vals) (st_Delete (LocalStore G rit) h st keys)"
    if "heap_ok T h" "all_ok vals T st" for T h st keys
    using that by (simp add: LocalStore_def local_Delete_ok [OF keeps])
qed (rule all_ok_extends)

context typed_gcache
begin

lemmas calls_ok =
  held.cache_get_ok held.cache_getMulti_ok held.cache_refresh_ok held.cache_refreshMulti_ok

end

lemma decode_ok:
  assumes "typed_serializer Z" and "heap_ok T h" and "val_ok T dst" and "sz_decode Z h b dst = (h1, e)"
  shows "\<exists>T'. extends T T' \<and> heap_ok T' h1"
  using assms unfolding typed_serializer_def by (metis fst_conv)

lemma redis_Get_ok:
  assumes Z: "typed_serializer Z" and h: "heap_ok T h" and dst: "val_ok T dst"
  shows "call_ok T (\<lambda>T r. True) (redis_Get R Z h r key dst)"
proof -
  obtain r1 v where get: "rd_Get R r key = (r1, v)" by fastforce
  have "call_ok T (\<lambda>T r. True) (let (h1, err) = sz_decode Z h b dst in Done ((r1, h1), err))" for b
  proof -
    obtain h1 e where d: "sz_decode Z h b dst = (h1, e)" by fastforce
    from decode_ok [OF Z h dst d] obtain T' where T': "extends T T'" "heap_ok T' h1" by blast
    show ?thesis
      unfolding d Let_def prod.case by (rule call_ok_extends [OF T'(1) call_ok_Done [OF T'(2)]]) simp
  qed
  then show ?thesis
    unfolding redis_Get_def get
    by (cases v) (auto simp: call_ok_Done h intro!: call_ok_skips call_ok_if)
qed

lemma redis_get_loop_ok:
  assumes "typed_serializer Z" and "redis_get_loop Z dstV h kvs = Done (h1, e)"
    and "heap_ok T h" and "rval_ok T dstV"
  shows "\<exists>T'. extends T T' \<and> heap_ok T' h1"
  using assms
proof (induction Z dstV h kvs arbitrary: T rule: redis_get_loop.induct)
  case (1 Z dstV h)
  then show ?case by (simp add: heap_ok_stays)
next
  case (2 Z dstV h key kvs)
  then show ?case by simp
next
  case (3 Z dstV h key val kvs)
  obtain t vt where t: "rtype dstV = Done t" "type_elem t = Done vt"
    using 3(3) by (auto simp: obind_Done_iff)
  obtain h2 v where new: "rNew vt h = (h2, v)" by fastforce
  from rNew_ok [OF 3(4) new] obtain T1 where T1: "extends T T1" "heap_ok T1 h2" "val_ok T1 v" by blast
  obtain h3 err where dec: "sz_decode Z h2 val v = (h3, err)" by fastforce
  from decode_ok [OF 3(2) T1(2,3) dec] obtain T2 where T2: "extends T1 T2" "heap_ok T2 h3" by blast
  note ext = extends_trans [OF T1(1) T2(1)]
  show ?case
  proof (cases err)
    case (Some x)
    with 3(3) t new dec have "h1 = h3" by (simp add: Let_def)
    with ext T2(2) show ?thesis by blast
  next
    case None
    let ?x = "Indirect h3 (ValueOf v)"
    obtain h4 where h4: "SetMapIndex h3 dstV (ValueOf (VStr key)) ?x = Done h4"
        "redis_get_loop Z dstV h4 kvs = Done (h1, e)"
      using 3(3) t new dec None by (auto simp: Let_def obind_Done_iff)
    have d: "rval_ok T2 dstV" by (rule rval_ok_extends [OF ext 3(5)])
    have "heap_ok T2 h4"
      by (rule SetMapIndex_ok [OF T2(2) d ValueOf_ok Indirect_ok [OF T2(2) ValueOf_ok] h4(1)])
        (simp_all add: val_ok_extends [OF T2(1) T1(3)])
    from 3(1) [OF new [symmetric] refl dec [symmetric] refl None 3(2) h4(2) this d]
    show ?thesis using ext extends_trans by blast
  qed
qed

lemma redis_GetMulti_ok:
  assumes Z: "typed_serializer Z" and h: "heap_ok T h" and dst: "val_ok T dst"
  shows "call_ok T (\<lambda>T r. True) (redis_GetMulti R Z h r keys dst)"
  unfolding redis_GetMulti_def
proof (rule call_ok_skip)
  fix x
  assume x: "map_dst (StoreErr StoreBadDstMapType) (StoreErr StoreBadDstMapValue) h dst = Done x"
  obtain h1 dstV err where x': "x = (h1, dstV, err)" by (cases x) auto
  from map_dst_ok [OF h dst x [unfolded x']] obtain T1
    where T1: "extends T T1" "heap_ok T1 h1" "rval_ok T1 dstV" by blast
  have loop: "call_ok T1 (\<lambda>T r. True) (obind (redis_get_loop Z dstV h1 kvs) (\<lambda>(h2, e). Done ((r1, h2), e)))"
    for kvs and r1 :: 'a
  proof (rule call_ok_skip)
    fix y assume y: "redis_get_loop Z dstV h1 kvs = Done y"
    obtain h2 e where y': "y = (h2, e)" by fastforce
    from redis_get_loop_ok [OF Z y [unfolded y'] T1(2,3)] obtain T2
      where T2: "extends T1 T2" "heap_ok T2 h2" by blast
    show "call_ok T1 (\<lambda>T r. True) (case y of (h2, e) \<Rightarrow> Done ((r1, h2), e))"
      unfolding y' prod.case by (rule call_ok_extends [OF T2(1) call_ok_Done [OF T2(2)]]) simp
  qed
  show "call_ok T (\<lambda>T r. True) (case x of (h1, dstV, err) \<Rightarrow>
         case err of
           Some e \<Rightarrow> Done ((r, h1), Some e)
         | None \<Rightarrow>
             (case rd_MGet R r keys of
                (r1, Inl e) \<Rightarrow> Done ((r1, h1), Some e)
              | (r1, Inr vals) \<Rightarrow>
                  obind (redis_get_loop Z dstV h1 (zip keys vals)) (\<lambda>(h2, e).
                    Done ((r1, h2), e))))"
    unfolding x' prod.case
    by (rule call_ok_extends [OF T1(1)])
      (auto simp: call_ok_Done T1(2) loop split: option.split prod.split sum.split)
qed

text \<open>
  A serializer that respects types makes \<open>RedisStore\<close> a typed store, whatever redis holds, and the
  JSON serializer respects types when the decoder of the library does.
\<close>

locale typed_codec =
  fixes R :: "'r redis_ops" and Z :: serializer
  assumes typed: "typed_serializer Z"

sublocale typed_codec \<subseteq> remote: typed_store "RedisStore R Z" "\<lambda>T r. True"
proof unfold_locales
  show "call_ok T (\<lambda>T r. True) (st_Get (RedisStore R Z) h st key dst)"
    if "heap_ok T h" "val_ok T dst" for T h st key dst
    using that by (simp add: RedisStore_def redis_Get_ok [OF typed])
  show "call_ok T (\<lambda>T r. True) (st_GetMulti (RedisStore R Z) h st keys dst)"
    if "heap_ok T h" "val_ok T dst" for T h st keys dst
    using that by (simp add: RedisStore_def redis_GetMulti_ok [OF typed])
  show "call_ok T (\<lambda>T r. True) (st_Set (RedisStore R Z) h st key v ttl)"
    if "heap_ok T h" for T h st key v ttl
    using that by (simp add: RedisStore_def redis_Set_def call_ok_Done split: sum.split prod.split)
  show "call_ok T (\<lambda>T r. True) (st_SetMulti (RedisStore R Z) h st keys vs ttl)"
    if "heap_ok T h" for T h st keys vs ttl
    using that by (simp add: RedisStore_def redis_SetMulti_def Let_def call_ok_Done split: sum.split prod.split)
  show "call_ok T (\<lambda>T r. True) (st_Delete (RedisStore R Z) h st keys)"
    if "heap_ok T h" for T h st keys
    using that by (simp add: RedisStore_def redis_Delete_def call_ok_Done split: prod.split)
qed simp_all

context typed_codec
begin

lemmas calls_ok =
  remote.cache_get_ok remote.cache_getMulti_ok remote.cache_refresh_ok remote.cache_refreshMulti_ok

end

definition typed_json :: "json_ops \<Rightarrow> bool" where
  "typed_json J \<longleftrightarrow> (\<forall>T h b dst. heap_ok T h \<longrightarrow> val_ok T dst \<longrightarrow>
     (\<exists>T'. extends T T' \<and> heap_ok T' (fst (js_Unmarshal J h b dst))) \<and>
     (\<exists>T'. extends T T' \<and> heap_ok T' (fst (js_Decode J h b dst))))"

lemma JsonSerializer_typed: "typed_json J \<Longrightarrow> typed_serializer (JsonSerializer J j)"
  unfolding typed_serializer_def
proof (intro allI impI)
  fix T h b dst
  assume "typed_json J" and h: "heap_ok T h" and "val_ok T dst"
  then show "\<exists>T'. extends T T' \<and> heap_ok T' (fst (sz_decode (JsonSerializer J j) h b dst))"
    unfolding typed_json_def JsonSerializer_def json_decode_def
    by (auto simp: heap_ok_stays split: sum.split)
qed

section \<open>Type safety of a cache\<close>



section \<open>Instances\<close>

text \<open>
  A variable that holds a nil map from numbers to numbers; a fallback that returns such a map, and
  one that builds a map with an entry.
\<close>

definition map_heap :: heap where
  "map_heap = \<lparr>h_cells = [0 \<mapsto> VMap TInt TInt None], h_maps = Map.empty, h_next = 1\<rparr>"

definition map_types :: typing where
  "map_types = \<lparr>ty_cell = [0 \<mapsto> TMap TInt TInt], ty_map = Map.empty\<rparr>"

definition give_nil :: fallback_fn where
  "give_nil h = (h, Inr (VMap TInt TInt None))"

definition give_entry :: fallback_multi_fn where
  "give_entry ids h = (put_map (h_next h) [(VInt 1, VInt 2)] (fst (MakeMap TInt TInt h)),
     Inr (VMap TInt TInt (Some (h_next h))))"

lemma map_heap_ok: "heap_ok map_types map_heap"
  by (simp add: heap_ok_def map_types_def map_heap_def place_ok_def fits_def)

lemma give_nil_typed: "typed_fallback give_nil"
  by (simp add: typed_fallback_def typed_result_def give_nil_def heap_ok_stays)

lemma give_entry_typed: "typed_fallback_multi give_entry"
  unfolding typed_fallback_multi_def
proof (intro allI impI)
  fix T h ids
  assume h: "heap_ok T h"
  obtain h1 v where mk: "MakeMap TInt TInt h = (h1, v)" by fastforce
  then have v: "v = VMap TInt TInt (Some (h_next h))" by (simp add: MakeMap_def)
  from MakeMap_ok [OF h mk] obtain T' where T': "extends T T'" "heap_ok T' h1" "val_ok T' v" by blast
  have "heap_ok T' (put_map (h_next h) [(VInt 1, VInt 2)] h1)"
    by (rule heap_ok_put_map [OF T'(2), where kv = "(TInt, TInt)"]) (use T'(3) in \<open>simp_all add: v entries_ok_def place_ok_def fits_def\<close>)
  with T'(1,3) show "typed_result T (give_entry ids h)"
    unfolding typed_result_def give_entry_def by (auto simp: mk v intro!: exI [of _ T'])
qed

lemma map_gcache_keeps: "gcache_keeps map_gcache ran"
  by (auto simp: gcache_keeps_def map_gcache_def ran_def split: option.splits if_splits)

interpretation map_typed: typed_gcache map_gcache ran strip_pointers
  by unfold_locales (rule map_gcache_keeps)

text \<open>A serializer of numbers that looks at the type it decodes into.\<close>

definition int_serializer :: serializer where
  "int_serializer =
     \<lparr>sz_decode = (\<lambda>h b dst. case dst of
        VPtr TInt (Some c) \<Rightarrow> (h\<lparr>h_cells := (h_cells h)(c \<mapsto> VInt (int (length b)))\<rparr>, None)
      | _ \<Rightarrow> (h, Some (OtherErr ''json: InvalidUnmarshalError''))),
      sz_encode = sz_encode unary_serializer\<rparr>"

lemma int_serializer_typed: "typed_serializer int_serializer"
  by (auto simp: typed_serializer_def int_serializer_def heap_ok_stays place_ok_def fits_def
      intro!: heap_ok_stays heap_ok_write split: goval.split gotype.split option.split)

interpretation int_codec: typed_codec map_redis int_serializer
  by unfold_locales (rule int_serializer_typed)



end
