(* ===== verification/Store_Spec.thy ===== *)
theory Store_Spec
  imports Cache_Redis
begin

text \<open>
  What a store promises, as an abstract machine: a finite map from keys to values. Both stores
  implement it as long as their libraries do not lose entries, and so a program that keeps values of
  one plain type in a store cannot tell which of the two it has.
\<close>

section \<open>The abstract store\<close>

text \<open>
  The operations with the cell that a \<open>Get\<close> fills, and what their caller sees. The two not-found
  errors of the libraries count as one answer, as they do in the cache.
\<close>

datatype store_op =
    OpGet string nat
  | OpSet string goval int
  | OpSetMulti "string list" goval int
  | OpDelete "string list"
  | OpExists string
  | OpExistsMulti "string list"

datatype store_res = Ok | Miss | Err cache_error | Found bool | FoundAll "bool list"

type_synonym kv = "string \<rightharpoonup> goval"

definition set_cell :: "nat \<Rightarrow> goval \<Rightarrow> heap \<Rightarrow> heap" where
  "set_cell a v h = h\<lparr>h_cells := (h_cells h)(a \<mapsto> v)\<rparr>"

fun spec_step :: "store_op \<Rightarrow> kv \<times> heap \<Rightarrow> (kv \<times> heap) \<times> store_res" where
  "spec_step (OpGet key a) (m, h) =
     (case m key of None \<Rightarrow> ((m, h), Miss) | Some v \<Rightarrow> ((m, set_cell a v h), Ok))"
| "spec_step (OpSet key v ttl) (m, h) = ((m(key \<mapsto> v), h), Ok)"
| "spec_step (OpSetMulti keys vs ttl) (m, h) =
     (case vs of
        VSlice t xs \<Rightarrow>
          if length xs \<noteq> length keys then ((m, h), Err (StoreErr StoreKeysLengthNotMatch))
          else ((m(keys [\<mapsto>] xs), h), Ok)
      | _ \<Rightarrow> ((m, h), Err (StoreErr StoreBadSrcType)))"
| "spec_step (OpDelete keys) (m, h) = ((m |` (- set keys), h), Ok)"
| "spec_step (OpExists key) (m, h) = ((m, h), Found (m key \<noteq> None))"
| "spec_step (OpExistsMulti keys) (m, h) = ((m, h), FoundAll (map (\<lambda>key. m key \<noteq> None) keys))"

fun spec_run :: "store_op list \<Rightarrow> kv \<times> heap \<Rightarrow> (kv \<times> heap) \<times> store_res list" where
  "spec_run [] mh = (mh, [])"
| "spec_run (op # ops) mh =
     (let (mh1, r) = spec_step op mh; (mh2, rs) = spec_run ops mh1 in (mh2, r # rs))"

section \<open>A store at work\<close>

fun res_of :: "cache_error option \<Rightarrow> store_res" where
  "res_of None = Ok"
| "res_of (Some e) = (if e = RedisNil \<or> e = KeyNotFoundError then Miss else Err e)"

definition answer :: "'st call \<Rightarrow> (('st \<times> heap) \<times> store_res) outcome" where
  "answer r = obind r (\<lambda>(sh, e). Done (sh, res_of e))"

text \<open>Values of type \<open>t\<close> are stored, and read into cells of that type.\<close>

fun store_step ::
  "'st store_ops \<Rightarrow> gotype \<Rightarrow> store_op \<Rightarrow> 'st \<times> heap \<Rightarrow> (('st \<times> heap) \<times> store_res) outcome" where
  "store_step S t (OpGet key a) (st, h) = answer (st_Get S h st key (VPtr t (Some a)))"
| "store_step S t (OpSet key v ttl) (st, h) = answer (st_Set S h st key v ttl)"
| "store_step S t (OpSetMulti keys vs ttl) (st, h) = answer (st_SetMulti S h st keys vs ttl)"
| "store_step S t (OpDelete keys) (st, h) = answer (st_Delete S h st keys)"
| "store_step S t (OpExists key) (st, h) =
     (case st_Exists S st key of
        (st1, b, None) \<Rightarrow> Done ((st1, h), Found b) | (st1, b, Some e) \<Rightarrow> Done ((st1, h), res_of (Some e)))"
| "store_step S t (OpExistsMulti keys) (st, h) =
     (case st_ExistsMulti S st keys of
        (st1, bs, None) \<Rightarrow> Done ((st1, h), FoundAll bs)
      | (st1, bs, Some e) \<Rightarrow> Done ((st1, h), res_of (Some e)))"

fun store_run ::
  "'st store_ops \<Rightarrow> gotype \<Rightarrow> store_op list \<Rightarrow> 'st \<times> heap \<Rightarrow>
     (('st \<times> heap) \<times> store_res list) outcome" where
  "store_run S t [] sh = Done (sh, [])"
| "store_run S t (op # ops) sh =
     obind (store_step S t op sh) (\<lambda>(sh1, r).
       obind (store_run S t ops sh1) (\<lambda>(sh2, rs). Done (sh2, r # rs)))"

definition of_type :: "gotype \<Rightarrow> goval \<Rightarrow> bool" where
  "of_type t v \<longleftrightarrow> v \<noteq> VNil \<and> typeof v = t"

text \<open>The operations that keep to the type; \<open>SetMulti\<close> may be given anything but a pointer.\<close>

fun op_ok :: "gotype \<Rightarrow> heap \<Rightarrow> store_op \<Rightarrow> bool" where
  "op_ok t h (OpGet key a) = (h_cells h a \<noteq> None)"
| "op_ok t h (OpSet key v ttl) = of_type t v"
| "op_ok t h (OpSetMulti keys vs ttl) =
     (case vs of VSlice t' xs \<Rightarrow> list_all (of_type t) xs | VPtr t' p \<Rightarrow> False | _ \<Rightarrow> True)"
| "op_ok t h op = True"

lemma op_ok_cells: "(\<And>a. (h_cells h1 a = None) = (h_cells h a = None)) \<Longrightarrow> op_ok t h1 op = op_ok t h op"
  by (cases op) simp_all

lemma spec_step_cells:
  assumes "op_ok t h op" and "spec_step op (m, h) = ((m1, h1), r)"
  shows "(h_cells h1 a = None) = (h_cells h a = None)"
  using assms by (cases op) (auto simp: set_cell_def split: option.splits goval.splits if_splits)

section \<open>The contract\<close>

locale kv_store =
  fixes S :: "'st store_ops" and t :: gotype and rel :: "'st \<Rightarrow> kv \<Rightarrow> bool"
  assumes simulates: "rel st m \<Longrightarrow> op_ok t h op \<Longrightarrow> spec_step op (m, h) = ((m1, h1), r) \<Longrightarrow>
    \<exists>st1. store_step S t op (st, h) = Done ((st1, h1), r) \<and> rel st1 m1"
begin

lemma run_simulates:
  "rel st m \<Longrightarrow> list_all (op_ok t h) ops \<Longrightarrow> spec_run ops (m, h) = ((m1, h1), rs) \<Longrightarrow>
     \<exists>st1. store_run S t ops (st, h) = Done ((st1, h1), rs) \<and> rel st1 m1"
proof (induction ops arbitrary: st m h rs)
  case (Cons op ops)
  obtain m2 h2 r where step: "spec_step op (m, h) = ((m2, h2), r)" by (metis surj_pair)
  obtain rs2 where rest: "spec_run ops (m2, h2) = ((m1, h1), rs2)" and rs: "rs = r # rs2"
    using Cons.prems(3) by (auto simp: step split: prod.splits)
  have op: "op_ok t h op" "list_all (op_ok t h) ops" using Cons.prems(2) by simp_all
  from simulates [OF Cons.prems(1) op(1) step] obtain st2
    where st2: "store_step S t op (st, h) = Done ((st2, h2), r)" "rel st2 m2" by blast
  have "list_all (op_ok t h2) ops"
    using op(2) op_ok_cells [OF spec_step_cells [OF op(1) step]] by (simp add: list_all_iff)
  from Cons.IH [OF st2(2) this rest] obtain st1
    where "store_run S t ops (st2, h2) = Done ((st1, h1), rs2)" "rel st1 m1" by blast
  with st2(1) rs show ?case by simp
qed simp

end

section \<open>The two stores\<close>

text \<open>
  A gcache and a redis that lose nothing: \<open>look\<close> is what they hold. A serializer of a plain type
  encodes every value of it, whatever the heap, and decodes it again.
\<close>

definition gcache_map :: "'g gcache_ops \<Rightarrow> ('g \<Rightarrow> kv) \<Rightarrow> bool" where
  "gcache_map G look \<longleftrightarrow>
     (\<forall>g key. look (fst (gc_Get G g key)) = look g \<and>
        snd (gc_Get G g key) = (case look g key of None \<Rightarrow> Inl KeyNotFoundError | Some v \<Rightarrow> Inr v)) \<and>
     (\<forall>g key v ttl. \<exists>g1. gc_SetWithExpire G g key v ttl = (g1, None) \<and> look g1 = (look g)(key \<mapsto> v)) \<and>
     (\<forall>g key. look (fst (gc_Has G g key)) = look g \<and> snd (gc_Has G g key) = (look g key \<noteq> None)) \<and>
     (\<forall>g key. look (gc_Remove G g key) = (look g)(key := None))"

definition redis_map :: "'r redis_ops \<Rightarrow> ('r \<Rightarrow> string \<rightharpoonup> bytes) \<Rightarrow> bool" where
  "redis_map R look \<longleftrightarrow>
     (\<forall>r key. look (fst (rd_Get R r key)) = look r \<and>
        snd (rd_Get R r key) = (case look r key of None \<Rightarrow> Inl RedisNil | Some b \<Rightarrow> Inr b)) \<and>
     (\<forall>r key b ttl. \<exists>r1. rd_Set R r key b ttl = (r1, None) \<and> look r1 = (look r)(key \<mapsto> b)) \<and>
     (\<forall>r keys. \<exists>r1. rd_Del R r keys = (r1, None) \<and> look r1 = look r |` (- set keys)) \<and>
     (\<forall>r key. \<exists>r1. rd_Exists R r key = (r1, if look r key = None then 0 else 1, None) \<and> look r1 = look r) \<and>
     (\<forall>r keys. \<exists>r1. rd_Exec R r (map CmdExists keys)
        = (r1, map (\<lambda>key. if look r key = None then 0 else 1) keys, None) \<and> look r1 = look r) \<and>
     (\<forall>r kbs ttl. \<exists>r1 ns. rd_Exec R r (map (\<lambda>(key, b). CmdSet key b ttl) kbs) = (r1, ns, None) \<and>
        look r1 = look r ++ map_of (rev kbs))"

definition codec_of :: "serializer \<Rightarrow> gotype \<Rightarrow> (goval \<Rightarrow> bytes) \<Rightarrow> bool" where
  "codec_of Z t enc \<longleftrightarrow> (\<forall>v. of_type t v \<longrightarrow> (\<forall>h. sz_encode Z h v = Inr (enc v)) \<and>
     (\<forall>h c. h_cells h c \<noteq> None \<longrightarrow>
        sz_decode Z h (enc v) (VPtr t (Some c)) = (set_cell c v h, None)))"

lemma ran_upds: "ran (m(keys [\<mapsto>] xs)) \<subseteq> ran m \<union> set xs"
  by (force simp: ran_def map_upds_def map_add_Some_iff dest!: map_of_SomeD dest: set_zip_rightD)

lemma ValueOf_of_type: "of_type t v \<Longrightarrow> ValueOf v = RVal t v None"
  by (auto simp: of_type_def ValueOf_def)

lemma Indirect_of_type: "of_type t v \<Longrightarrow> kind_of t \<noteq> KPtr \<Longrightarrow> Indirect h (ValueOf v) = RVal t v None"
  by (simp add: ValueOf_of_type)

text \<open>What \<open>SetMulti\<close> finds behind its argument.\<close>

lemma Indirect_slice [simp]: "Indirect h (ValueOf (VSlice t xs)) = RVal (TSlice t) (VSlice t xs) None"
  by (simp add: ValueOf_def Indirect_def)

lemma Indirect_no_slice:
  assumes "case v of VPtr t p \<Rightarrow> False | VSlice t xs \<Rightarrow> False | _ \<Rightarrow> True"
  shows "rkind (Indirect h (ValueOf v)) \<noteq> KSlice"
  using assms by (cases v) (simp_all add: ValueOf_def Indirect_def)

subsection \<open>The local store\<close>

locale local_kv =
  fixes G :: "'g gcache_ops" and look :: "'g \<Rightarrow> kv" and rit :: "gotype \<Rightarrow> gotype" and t :: gotype
  assumes gcache: "gcache_map G look" and plain: "kind_of t \<noteq> KPtr"
begin

definition rel :: "'g \<Rightarrow> kv \<Rightarrow> bool" where
  "rel g m \<longleftrightarrow> look g = m \<and> (\<forall>v \<in> ran m. of_type t v)"

lemma get_sim:
  assumes "rel g m" and "h_cells h a \<noteq> None"
  shows "\<exists>g1. rel g1 m \<and> store_step (LocalStore G rit) t (OpGet key a) (g, h) =
    Done ((g1, snd (fst (spec_step (OpGet key a) (m, h)))), snd (spec_step (OpGet key a) (m, h)))"
proof -
  obtain g1 r where get: "gc_Get G g key = (g1, r)" by fastforce
  then have g1: "look g1 = m" "r = (case m key of None \<Rightarrow> Inl KeyNotFoundError | Some v \<Rightarrow> Inr v)"
    using gcache assms(1) unfolding gcache_map_def rel_def by (metis fst_conv, metis snd_conv)
  obtain old where old: "h_cells h a = Some old" using assms(2) by blast
  have "rel g1 m" using assms(1) g1(1) by (simp add: rel_def)
  moreover have "of_type t v" if "m key = Some v" for v
    using assms(1) that by (auto simp: rel_def intro: ranI)
  ultimately show ?thesis
    using get g1(2) old
    by (cases "m key") (auto simp: LocalStore_def local_Get_def answer_def TypeOf_def Indirect_of_type plain
        rSet_def set_cell_def Let_def)
qed

lemma set_loop_sim:
  "rel g m \<Longrightarrow> list_all (of_type t) xs \<Longrightarrow> length xs = length keys \<Longrightarrow>
     \<exists>g1. local_set_loop G h g ttl (zip keys xs) = Done ((g1, h), None) \<and> rel g1 (m(keys [\<mapsto>] xs))"
proof (induction keys arbitrary: g m xs)
  case (Cons key keys)
  then obtain x ys where xs: "xs = x # ys" "list_all (of_type t) ys" "length ys = length keys" "of_type t x"
    by (cases xs) auto
  obtain g1 where g1: "gc_SetWithExpire G g key x ttl = (g1, None)" "look g1 = (look g)(key \<mapsto> x)"
    using gcache unfolding gcache_map_def by blast
  have "rel g1 (m(key \<mapsto> x))"
    using Cons.prems(1) g1(2) xs(4) by (auto simp: rel_def ran_def split: if_splits)
  from Cons.IH [OF this xs(2,3)] obtain g2
    where "local_set_loop G h g1 ttl (zip keys ys) = Done ((g2, h), None)"
      and "rel g2 (m(key \<mapsto> x, keys [\<mapsto>] ys))" by blast
  with g1(1) show ?case by (intro exI [of _ g2]) (simp add: xs(1) local_Set_def)
qed simp

lemma delete_sim: "look (foldl (gc_Remove G) g keys) = look g |` (- set keys)"
proof (induction keys arbitrary: g)
  case (Cons key keys)
  have "look (gc_Remove G g key) = (look g)(key := None)" using gcache unfolding gcache_map_def by blast
  with Cons show ?case by (auto simp: restrict_map_def fun_eq_iff)
qed (simp add: restrict_map_def)

lemma exists_sim:
  obtains g1 where "gc_Has G g key = (g1, look g key \<noteq> None)" "look g1 = look g"
proof (rule that)
  show "look (fst (gc_Has G g key)) = look g" using gcache unfolding gcache_map_def by blast
  have "snd (gc_Has G g key) = (look g key \<noteq> None)" using gcache unfolding gcache_map_def by blast
  then show "gc_Has G g key = (fst (gc_Has G g key), look g key \<noteq> None)" by (simp add: prod_eq_iff)
qed

lemma exists_loop_sim:
  "\<exists>g1. local_exists_loop G g keys = (g1, map (\<lambda>key. look g key \<noteq> None) keys, None) \<and> look g1 = look g"
proof (induction keys arbitrary: g)
  case (Cons key keys)
  obtain g1 where g1: "gc_Has G g key = (g1, look g key \<noteq> None)" "look g1 = look g" by (rule exists_sim)
  with Cons [of g1] show ?case by (auto simp: local_Exists_def)
qed simp

lemma local_simulates:
  assumes rel: "rel g m" and op: "op_ok t h op" and step: "spec_step op (m, h) = ((m1, h1), r)"
  shows "\<exists>g1. store_step (LocalStore G rit) t op (g, h) = Done ((g1, h1), r) \<and> rel g1 m1"
proof (cases op)
  case (OpGet key a)
  with get_sim [OF rel, of h a key] op step show ?thesis by (cases "m key") auto
next
  case (OpSet key v ttl)
  with set_loop_sim [OF rel, of "[v]" "[key]" h ttl] op step show ?thesis
    by (auto simp: LocalStore_def local_Set_def answer_def obind_Done_iff split: prod.splits option.splits)
next
  case (OpSetMulti keys vs ttl)
  show ?thesis
  proof (cases "case vs of VPtr t p \<Rightarrow> False | VSlice t xs \<Rightarrow> False | _ \<Rightarrow> True")
    case True
    from Indirect_no_slice [OF True, of h] True OpSetMulti step rel show ?thesis
      by (auto simp: LocalStore_def local_SetMulti_def answer_def Let_def split: goval.splits)
  next
    case False
    then obtain t' xs where vs: "vs = VSlice t' xs"
      using op OpSetMulti by (cases vs) simp_all
    show ?thesis
    proof (cases "length xs = length keys")
      case True
      with set_loop_sim [OF rel, of xs keys h ttl] op OpSetMulti step show ?thesis
        by (auto simp: vs LocalStore_def local_SetMulti_def answer_def)
    next
      case False
      with OpSetMulti step rel show ?thesis
        by (auto simp: vs LocalStore_def local_SetMulti_def answer_def)
    qed
  qed
next
  case (OpDelete keys)
  have "rel (foldl (gc_Remove G) g keys) (m |` (- set keys))"
    using rel delete_sim [of g keys] by (auto simp: rel_def ran_def restrict_map_def split: if_splits)
  with OpDelete step show ?thesis by (auto simp: LocalStore_def local_Delete_def answer_def)
next
  case (OpExists key)
  obtain g1 where "gc_Has G g key = (g1, look g key \<noteq> None)" "look g1 = look g" by (rule exists_sim)
  with OpExists step rel show ?thesis by (auto simp: LocalStore_def local_Exists_def rel_def)
next
  case (OpExistsMulti keys)
  show ?thesis
  proof (cases "keys = []")
    case True
    with OpExistsMulti step rel show ?thesis by (auto simp: LocalStore_def local_ExistsMulti_def)
  next
    case False
    with exists_loop_sim [of g keys] OpExistsMulti step rel show ?thesis
      by (auto simp: LocalStore_def local_ExistsMulti_def rel_def)
  qed
qed

end

sublocale local_kv \<subseteq> held: kv_store "LocalStore G rit" t rel
  by unfold_locales (rule local_simulates)

context local_kv
begin

lemmas runs = held.run_simulates

end

subsection \<open>The redis store\<close>

locale redis_kv =
  fixes R :: "'r redis_ops" and look :: "'r \<Rightarrow> string \<rightharpoonup> bytes" and Z :: serializer and t :: gotype
    and enc :: "goval \<Rightarrow> bytes"
  assumes redis: "redis_map R look" and codec: "codec_of Z t enc"
begin

definition rel :: "'r \<Rightarrow> kv \<Rightarrow> bool" where
  "rel r m \<longleftrightarrow> (\<forall>key. look r key = map_option enc (m key)) \<and> (\<forall>v \<in> ran m. of_type t v)"

lemma rel_None: "rel r m \<Longrightarrow> (look r key = None) = (m key = None)"
  by (simp add: rel_def)

lemma rel_same: "rel r m \<Longrightarrow> look r1 = look r \<Longrightarrow> rel r1 m"
  by (simp add: rel_def)

lemma encodes: "of_type t v \<Longrightarrow> sz_encode Z h v = Inr (enc v)"
  using codec unfolding codec_of_def by blast

lemma decodes:
  "of_type t v \<Longrightarrow> h_cells h c \<noteq> None \<Longrightarrow> sz_decode Z h (enc v) (VPtr t (Some c)) = (set_cell c v h, None)"
  using codec unfolding codec_of_def by blast

lemma get_sim:
  assumes "rel r m" and "h_cells h a \<noteq> None"
  shows "\<exists>r1. rel r1 m \<and> store_step (RedisStore R Z) t (OpGet key a) (r, h) =
    Done ((r1, snd (fst (spec_step (OpGet key a) (m, h)))), snd (spec_step (OpGet key a) (m, h)))"
proof -
  obtain r1 x where get: "rd_Get R r key = (r1, x)" by fastforce
  have law: "look (fst (rd_Get R r key)) = look r \<and>
      snd (rd_Get R r key) = (case look r key of None \<Rightarrow> Inl RedisNil | Some b \<Rightarrow> Inr b)"
    using redis unfolding redis_map_def by blast
  then have r1: "rel r1 m" and x: "x = (case look r key of None \<Rightarrow> Inl RedisNil | Some b \<Rightarrow> Inr b)"
    using get rel_same [OF assms(1)] by simp_all
  have key: "look r key = map_option enc (m key)" using assms(1) by (simp add: rel_def)
  show ?thesis
  proof (cases "m key")
    case None
    with r1 x key get show ?thesis
      by (auto simp: RedisStore_def redis_Get_def answer_def TypeOf_def)
  next
    case (Some v)
    then have "of_type t v" using assms(1) by (auto simp: rel_def intro: ranI)
    with Some r1 x key get decodes [OF _ assms(2)] show ?thesis
      by (auto simp: RedisStore_def redis_Get_def answer_def TypeOf_def)
  qed
qed

lemma queue_sim:
  "list_all (of_type t) xs \<Longrightarrow> length xs = length keys \<Longrightarrow>
     redis_set_queue Z h ttl (zip keys xs)
       = Inr (map (\<lambda>(key, b). CmdSet key b ttl) (zip keys (map enc xs)))"
proof (induction keys arbitrary: xs)
  case (Cons key keys)
  then obtain x ys where xs: "xs = x # ys" "list_all (of_type t) ys" "length ys = length keys" "of_type t x"
    by (cases xs) auto
  from Cons.IH [OF xs(2,3)] encodes [OF xs(4)] show ?case by (simp add: xs(1))
qed simp

lemma rel_upds:
  assumes "rel r m" and "list_all (of_type t) xs" and "length xs = length keys"
    and "look r1 = look r ++ map_of (rev (zip keys (map enc xs)))"
  shows "rel r1 (m(keys [\<mapsto>] xs))"
proof -
  have "zip keys (map enc xs) = map (\<lambda>(key, v). (key, enc v)) (zip keys xs)"
    by (simp add: zip_map2)
  then have "map_of (rev (zip keys (map enc xs))) key = map_option enc (map_of (rev (zip keys xs)) key)" for key
    by (simp add: rev_map map_of_map)
  then have "look r1 key = map_option enc ((m(keys [\<mapsto>] xs)) key)" for key
    using assms(1,4) by (auto simp: rel_def map_upds_def map_add_def split: option.split)
  moreover have "\<forall>v \<in> ran (m(keys [\<mapsto>] xs)). of_type t v"
    using ran_upds [of m keys xs] assms(1,2) by (auto simp: rel_def list_all_iff)
  ultimately show ?thesis by (simp add: rel_def)
qed

lemma redis_simulates:
  assumes rel: "rel r m" and op: "op_ok t h op" and step: "spec_step op (m, h) = ((m1, h1), res)"
  shows "\<exists>r1. store_step (RedisStore R Z) t op (r, h) = Done ((r1, h1), res) \<and> rel r1 m1"
proof (cases op)
  case (OpGet key a)
  with get_sim [OF rel, of h a key] op step show ?thesis by (cases "m key") auto
next
  case (OpSet key v ttl)
  have v: "of_type t v" using op OpSet by simp
  obtain r1 where r1: "rd_Set R r key (enc v) ttl = (r1, None)" "look r1 = (look r)(key \<mapsto> enc v)"
    using redis unfolding redis_map_def by blast
  have "rel r1 (m(key \<mapsto> v))"
    using rel_upds [OF rel, of "[v]" "[key]" r1] v r1(2) by simp
  with OpSet step r1(1) encodes [OF v] show ?thesis
    by (auto simp: RedisStore_def redis_Set_def answer_def)
next
  case (OpSetMulti keys vs ttl)
  show ?thesis
  proof (cases "case vs of VPtr t p \<Rightarrow> False | VSlice t xs \<Rightarrow> False | _ \<Rightarrow> True")
    case True
    from Indirect_no_slice [OF True, of h] True OpSetMulti step rel show ?thesis
      by (auto simp: RedisStore_def redis_SetMulti_def answer_def Let_def split: goval.splits)
  next
    case False
    then obtain t' xs where vs: "vs = VSlice t' xs"
      using op OpSetMulti by (cases vs) simp_all
    have xs: "list_all (of_type t) xs" using op OpSetMulti by (simp add: vs)
    show ?thesis
    proof (cases "length xs = length keys")
      case True
      let ?kbs = "zip keys (map enc xs)"
      obtain r1 ns where r1: "rd_Exec R r (map (\<lambda>(key, b). CmdSet key b ttl) ?kbs) = (r1, ns, None)"
          "look r1 = look r ++ map_of (rev ?kbs)"
        using redis unfolding redis_map_def by blast
      with rel_upds [OF rel xs True r1(2)] queue_sim [OF xs True] True OpSetMulti step show ?thesis
        by (auto simp: vs RedisStore_def redis_SetMulti_def answer_def)
    next
      case False
      with OpSetMulti step rel show ?thesis
        by (auto simp: vs RedisStore_def redis_SetMulti_def answer_def)
    qed
  qed
next
  case (OpDelete keys)
  obtain r1 where r1: "rd_Del R r keys = (r1, None)" "look r1 = look r |` (- set keys)"
    using redis unfolding redis_map_def by blast
  have "rel r1 (m |` (- set keys))"
    using rel r1(2) by (auto simp: rel_def ran_def restrict_map_def split: if_splits)
  moreover have "m |` (- set []) = m" by (simp add: restrict_map_def)
  ultimately show ?thesis
    using OpDelete step r1(1) rel
    by (cases "keys = []") (auto simp: RedisStore_def redis_Delete_def answer_def)
next
  case (OpExists key)
  obtain r1 where "rd_Exists R r key = (r1, if look r key = None then 0 else 1, None)" "look r1 = look r"
    using redis unfolding redis_map_def by blast
  with OpExists step rel_same [OF rel] rel_None [OF rel] show ?thesis
    by (auto simp: RedisStore_def redis_Exists_def)
next
  case (OpExistsMulti keys)
  obtain r1 where r1: "rd_Exec R r (map CmdExists keys)
      = (r1, map (\<lambda>key. if look r key = None then 0 else 1) keys, None)" "look r1 = look r"
    using redis unfolding redis_map_def by blast
  show ?thesis
  proof (cases "keys = []")
    case True
    with OpExistsMulti step rel show ?thesis by (auto simp: RedisStore_def redis_ExistsMulti_def)
  next
    case False
    have "map (\<lambda>n. n \<noteq> 0) (map (\<lambda>key. if look r key = None then 0 else 1 :: int) keys)
        = map (\<lambda>key. m key \<noteq> None) keys"
      by (simp add: rel_None [OF rel])
    with False OpExistsMulti step r1 rel_same [OF rel r1(2)] show ?thesis
      by (auto simp: RedisStore_def redis_ExistsMulti_def)
  qed
qed

end

sublocale redis_kv \<subseteq> remote: kv_store "RedisStore R Z" t rel
  by unfold_locales (rule redis_simulates)

context redis_kv
begin

lemmas runs = remote.run_simulates

end

section \<open>Both stores implement the map\<close>


text \<open>Instances: the map stores, and a serializer of numbers with a sign.\<close>

definition signed_text :: "goval \<Rightarrow> bytes" where
  "signed_text v = (case v of
     VInt n \<Rightarrow> (if n < 0 then CHR ''-'' # replicate (nat (- n)) CHR ''1'' else replicate (nat n) CHR ''1'')
   | _ \<Rightarrow> [])"

definition unsigned_text :: "bytes \<Rightarrow> int" where
  "unsigned_text b = (case b of [] \<Rightarrow> 0 | c # cs \<Rightarrow> if c = CHR ''-'' then - int (length cs) else int (length b))"

definition signed_serializer :: serializer where
  "signed_serializer =
     \<lparr>sz_decode = (\<lambda>h b dst. case dst of
        VPtr t (Some c) \<Rightarrow> (set_cell c (VInt (unsigned_text b)) h, None)
      | _ \<Rightarrow> (h, Some (OtherErr ''json: InvalidUnmarshalError''))),
      sz_encode = (\<lambda>h v. Inr (signed_text v))\<rparr>"

lemma unsigned_signed: "unsigned_text (signed_text (VInt n)) = n"
proof (cases "n \<le> 0")
  case True
  then show ?thesis by (auto simp: signed_text_def unsigned_text_def)
next
  case False
  then obtain k where "nat n = Suc k" "n = int (Suc k)" by (metis not_le nat_eq_iff zero_less_nat_eq not0_implies_Suc less_not_refl int_nat_eq less_le)
  then show ?thesis by (simp add: signed_text_def unsigned_text_def)
qed

lemma signed_codec: "codec_of signed_serializer TInt signed_text"
  unfolding codec_of_def
proof (intro allI impI)
  fix v assume "of_type TInt v"
  then obtain n where "v = VInt n" by (cases v) (simp_all add: of_type_def)
  then show "(\<forall>h. sz_encode signed_serializer h v = Inr (signed_text v)) \<and>
     (\<forall>h c. h_cells h c \<noteq> None \<longrightarrow>
        sz_decode signed_serializer h (signed_text v) (VPtr TInt (Some c)) = (set_cell c v h, None))"
    by (simp add: signed_serializer_def unsigned_signed)
qed

lemma map_gcache_map: "gcache_map map_gcache (\<lambda>g. g)"
  by (simp add: gcache_map_def map_gcache_def)

lemma exec_sets:
  "foldl (\<lambda>r cmd. case cmd of CmdSet k b ttl \<Rightarrow> r(k \<mapsto> b) | CmdExists k \<Rightarrow> r) r
     (map (\<lambda>(key, b). CmdSet key b ttl) kbs) = r ++ map_of (rev kbs)"
  by (induction kbs arbitrary: r) (auto simp: map_add_def fun_eq_iff split: option.splits)

lemma map_redis_map: "redis_map map_redis (\<lambda>r. r)"
proof -
  have "foldl (\<lambda>r cmd. case cmd of CmdSet k b ttl \<Rightarrow> r(k \<mapsto> b) | CmdExists k \<Rightarrow> r) r (map CmdExists keys) = r"
    for r :: "string \<rightharpoonup> bytes" and keys
    by (induction keys) simp_all
  moreover have "(\<lambda>k. if k \<in> set keys then None else r k) = r |` (- set keys)"
    for r :: "string \<rightharpoonup> bytes" and keys
    by (auto simp: restrict_map_def)
  ultimately show ?thesis by (simp add: redis_map_def map_redis_def exec_sets)
qed

interpretation local_ints: local_kv map_gcache "\<lambda>g. g" strip_pointers TInt
  by unfold_locales (simp_all add: map_gcache_map)

interpretation redis_ints: redis_kv map_redis "\<lambda>r. r" signed_serializer TInt signed_text
  by unfold_locales (simp_all add: map_redis_map signed_codec)

definition demo_ops :: "store_op list" where
  "demo_ops = [OpSet ''a'' (VInt (- 2)) 60, OpSetMulti [''b'', ''c''] (VSlice TInt [VInt 1, VInt 2]) 60,
     OpDelete [''b''], OpExistsMulti [''a'', ''b''], OpGet ''a'' 0, OpGet ''b'' 1]"


end
