(* ===== verification/Cache_System.thy ===== *)
theory Cache_System
  imports Store_Spec Cache_Multi
begin

text \<open>
  The cache, its redis and the database behind it, used by many goroutines at once. A \<open>Get\<close> that
  misses reads the database and fills the entry later, and so do \<open>GetMulti\<close> and, after they have deleted
  the entries, \<open>Refresh\<close> and \<open>RefreshMulti\<close>; between the two parts of a call anything can happen.
  The calls are split there, the events of the system are the parts, and the lemmas of the locale
  say what each part does over a redis that may lose entries and fail.
\<close>

section \<open>The two parts of a call\<close>

datatype lookup = Hit | Missed | Failed cache_error

text \<open>Up to the fallback, which runs when the outcome is \<open>Missed\<close>.\<close>

definition get_lookup ::
  "'st store_ops \<Rightarrow> 'l limiter \<Rightarrow> ('st, 'l) cache \<Rightarrow> heap \<Rightarrow> string \<Rightarrow> goval \<Rightarrow>
     ((('st, 'l) cache \<times> heap) \<times> lookup) outcome" where
  "get_lookup S TakeAvailable c h key dst =
     (if rkind (ValueOf dst) \<noteq> KPtr then Done ((c, h), Failed (BoxErr ErrBadDstType))
      else obind (on_store c (st_Get S h (c_store c) key dst)) (\<lambda>((c1, h1), err).
        case err of
          None \<Rightarrow> Done ((c1, h1), Hit)
        | Some e \<Rightarrow>
            if e = RedisNil \<or> e = KeyNotFoundError then Done ((c1, h1), Missed)
            else let (c2, can) = canFallbackWhenError TakeAvailable c1
                 in Done ((c2, h1), if can then Missed else Failed e)))"

lemma cache_get_split:
  "cache_get S TakeAvailable rit c h key f dst expire =
     obind (get_lookup S TakeAvailable c h key dst) (\<lambda>((c1, h1), l).
       case l of Hit \<Rightarrow> Done ((c1, h1), None)
               | Failed e \<Rightarrow> Done ((c1, h1), Some e)
               | Missed \<Rightarrow> cache_fallback S rit c1 h1 key f dst expire)"
  by (cases "on_store c (st_Get S h (c_store c) key dst)")
    (auto simp: cache_get_def get_lookup_def split: option.splits prod.splits)

text \<open>The same of a \<open>GetMulti\<close> of ids of type \<open>kt\<close> into a map with values of type \<open>t\<close>.\<close>

definition getmulti_lookup ::
  "'st store_ops \<Rightarrow> 'l limiter \<Rightarrow> ('st, 'l) cache \<Rightarrow> heap \<Rightarrow> gotype \<Rightarrow> gotype \<Rightarrow> goval list \<Rightarrow>
     (goval \<Rightarrow> string) \<Rightarrow> nat \<Rightarrow> ((('st, 'l) cache \<times> heap) \<times> goval list \<times> cache_error option) outcome" where
  "getmulti_lookup S TakeAvailable c h kt t ids keyFunc m =
     (let keys = map keyFunc ids; (h2, cacheDst) = MakeMap TString t h
      in obind (on_store c (st_GetMulti S h2 (c_store c) keys cacheDst)) (\<lambda>((c3, h3), err).
           let (c4, go) = (if err = None then (c3, True) else canFallbackWhenError TakeAvailable c3)
           in if \<not> go then Done ((c4, h3), [], err)
              else obind (miss_loop (revert_key keyFunc ids) kt (map_val kt t m) (ValueOf cacheDst) h3 [] keys)
                (\<lambda>(h4, missing). Done ((c4, h4), missing, None))))"

lemma cache_getMulti_split:
  assumes "strips_pointers rit" and "ids \<noteq> []"
  shows "cache_getMulti S TakeAvailable rit c h (VSlice kt ids) keyFunc f (VMap kt t (Some m)) expire =
    obind (getmulti_lookup S TakeAvailable c h kt t ids keyFunc m) (\<lambda>((c1, h1), missing, err).
      if missing = [] then Done ((c1, h1), err)
      else multi_fallback S c1 h1 keyFunc f kt t t (map_val kt t m) missing expire)"
proof -
  have rit: "rit (TMap kt t) = TMap kt t" using assms(1) by (simp add: strips_pointers_def)
  obtain h2 d where mk: "MakeMap TString t h = (h2, d)" by fastforce
  show ?thesis
  proof (cases "on_store c (st_GetMulti S h2 (c_store c) (map keyFunc ids) d)")
    case (Done x)
    obtain c3 h3 err where x: "x = ((c3, h3), err)" by (metis prod.collapse)
    obtain c4 go where go: "(if err = None then (c3, True) else canFallbackWhenError TakeAvailable c3) = (c4, go)"
      by fastforce
    show ?thesis
      using assms(2) rit mk Done x go
      by (cases "miss_loop (revert_key keyFunc ids) kt (map_val kt t m) (ValueOf d) h3 [] (map keyFunc ids)")
        (auto simp: cache_getMulti_def getmulti_lookup_def TypeOf_def ValueOf_def Let_def)
  qed (use assms(2) rit mk in \<open>simp_all add: cache_getMulti_def getmulti_lookup_def TypeOf_def ValueOf_def\<close>)
qed

section \<open>The system\<close>

text \<open>
  \<open>cs_filling\<close>: the \<open>Get\<close>s that have read a value from the database and have still to store it, each
  with the cell of its caller; \<open>cs_renewing\<close> and \<open>cs_many\<close>: the calls of \<open>Refresh\<close> and of \<open>RefreshMulti\<close> in
  the same position, the latter with the type of the ids, the function from ids to keys, and the values
  by id; \<open>cs_gathering\<close>: the calls of \<open>GetMulti\<close>, with the ids and the map of the caller too, which holds
  what the store had. \<open>cs_answers\<close> are the keys and values that the last step handed to a caller.
\<close>

type_synonym many = "gotype \<times> (goval \<Rightarrow> string) \<times> (goval \<times> goval) list"

type_synonym gather = "gotype \<times> (goval \<Rightarrow> string) \<times> goval list \<times> nat \<times> (goval \<times> goval) list"

record ('r, 'l) coherence =
  cs_cache :: "('r, 'l) cache"
  cs_heap :: heap
  cs_db :: kv
  cs_filling :: "(string \<times> goval \<times> nat) list"
  cs_renewing :: "(string \<times> goval) list"
  cs_many :: "many list"
  cs_gathering :: "gather list"
  cs_answers :: "(string \<times> goval) list"

datatype cache_event =
    Write string "goval option"
  | GetBegin string nat
  | GetEnd "string \<times> goval \<times> nat"
  | EvictKey string
  | EvictIds goval "goval \<Rightarrow> string"
  | RefreshBegin string
  | RefreshEnd "string \<times> goval"
  | RefreshManyBegin gotype "goval list" "goval \<Rightarrow> string"
  | RefreshManyEnd many
  | GetManyBegin gotype "goval list" "goval \<Rightarrow> string" nat
  | GetManyEnd gather

text \<open>What a caller finds in its cell, and in its map for the ids it asked for.\<close>

definition told :: "string \<Rightarrow> nat \<Rightarrow> heap \<Rightarrow> (string \<times> goval) list" where
  "told key a h = (case h_cells h a of None \<Rightarrow> [] | Some v \<Rightarrow> [(key, v)])"

definition map_at :: "heap \<Rightarrow> nat \<Rightarrow> goval \<Rightarrow> goval option" where
  "map_at h m x = (case h_maps h m of None \<Rightarrow> None | Some es \<Rightarrow> map_of es x)"

definition told_many :: "(goval \<Rightarrow> string) \<Rightarrow> goval list \<Rightarrow> nat \<Rightarrow> heap \<Rightarrow> (string \<times> goval) list" where
  "told_many keyFunc ids m h = List.map_filter (\<lambda>x. map_option (Pair (keyFunc x)) (map_at h m x)) ids"

fun gather_map :: "gather \<Rightarrow> nat" where
  "gather_map (kt, keyFunc, ids, m, kvs) = m"

text \<open>The part of a call that deletes, and the keys it deletes.\<close>

fun evict_call :: "'r store_ops \<Rightarrow> ('r, 'l) coherence \<Rightarrow> cache_event \<Rightarrow> ('r, 'l) box_call" where
  "evict_call S s (EvictKey key) = cache_Evict S (cs_cache s) (cs_heap s) key"
| "evict_call S s (EvictIds ids keyFunc) = cache_EvictMulti S (cs_cache s) (cs_heap s) ids keyFunc"
| "evict_call S s (RefreshBegin key) =
     on_store (cs_cache s) (st_Delete S (cs_heap s) (c_store (cs_cache s)) [key])"
| "evict_call S s (RefreshManyBegin kt ids keyFunc) =
     (if ids = [] then Done ((cs_cache s, cs_heap s), None)
      else on_store (cs_cache s) (st_Delete S (cs_heap s) (c_store (cs_cache s)) (map keyFunc ids)))"
| "evict_call S s e = Done ((cs_cache s, cs_heap s), None)"

fun deleted_by :: "cache_event \<Rightarrow> string list" where
  "deleted_by (EvictKey key) = [key]"
| "deleted_by (EvictIds ids keyFunc) = map keyFunc (slice_elems (ValueOf ids))"
| "deleted_by (RefreshBegin key) = [key]"
| "deleted_by (RefreshManyBegin kt ids keyFunc) = map keyFunc ids"
| "deleted_by e = []"

text \<open>The two parts of a \<open>RefreshMulti\<close> with arguments of the right types.\<close>

lemma cache_refreshMulti_split:
  "cache_refreshMulti S (cs_cache s) (cs_heap s) (VSlice kt ids) keyFunc f (VMap kt t (Some m)) expire =
     (if ids = [] then Done ((cs_cache s, cs_heap s), None)
      else obind (evict_call S s (RefreshManyBegin kt ids keyFunc)) (\<lambda>((c1, h1), err).
        case err of
          Some e \<Rightarrow> Done ((c1, h1), Some e)
        | None \<Rightarrow> refresh_fallback S c1 h1 (VSlice kt ids) keyFunc f kt t expire))"
  by (simp add: cache_refreshMulti_def ValueOf_def)

text \<open>What the application's fallback for many ids reads, and the map it makes of it.\<close>

definition read_many :: "kv \<Rightarrow> (goval \<Rightarrow> string) \<Rightarrow> goval list \<Rightarrow> (goval \<times> goval) list" where
  "read_many db keyFunc ids =
     List.map_filter (\<lambda>x. map_option (Pair x) (db (keyFunc x))) (remdups ids)"

definition give_many :: "gotype \<Rightarrow> gotype \<Rightarrow> (goval \<times> goval) list \<Rightarrow> fallback_multi_fn" where
  "give_many kt t kvs ids h = (let (h1, m) = MakeMap kt t h in (put_map (h_next h) kvs h1, Inr m))"

text \<open>
  \<open>t\<close> is the type of the values, \<open>ttl\<close> the lifetime of the entries. A database without the record gives
  an error, and nothing is filled. Each event stands for what one goroutine does without
  interruption by the others: a call of the store, or of the database. A \<open>GetMulti\<close> is called with ids
  of one type with keys of their own, and with an empty map that no other call uses.
\<close>

fun cs_step ::
  "'r store_ops \<Rightarrow> 'l limiter \<Rightarrow> (gotype \<Rightarrow> gotype) \<Rightarrow> gotype \<Rightarrow> int \<Rightarrow> ('r, 'l) coherence \<Rightarrow> cache_event \<Rightarrow>
     ('r, 'l) coherence option" where
  "cs_step S take_av rit t ttl s (Write key v) =
     (if (case v of None \<Rightarrow> True | Some x \<Rightarrow> of_type t x)
      then Some (s\<lparr>cs_db := (cs_db s)(key := v), cs_answers := []\<rparr>) else None)"
| "cs_step S take_av rit t ttl s (GetBegin key a) =
     (if h_cells (cs_heap s) a = None then None
      else case get_lookup S take_av (cs_cache s) (cs_heap s) key (VPtr t (Some a)) of
        Done ((c, h), l) \<Rightarrow>
          (let s1 = s\<lparr>cs_cache := c, cs_heap := h, cs_answers := []\<rparr>
           in case l of
                Hit \<Rightarrow> Some (s1\<lparr>cs_answers := told key a h\<rparr>)
              | Failed e \<Rightarrow> Some s1
              | Missed \<Rightarrow>
                  (case cs_db s key of
                     None \<Rightarrow> Some s1
                   | Some v \<Rightarrow> Some (s1\<lparr>cs_filling := (key, v, a) # cs_filling s\<rparr>)))
      | _ \<Rightarrow> None)"
| "cs_step S take_av rit t ttl s (GetEnd x) =
     (if x \<notin> set (cs_filling s) then None
      else case x of (key, v, a) \<Rightarrow>
        (case cache_fallback S rit (cs_cache s) (cs_heap s) key (\<lambda>h. (h, Inr v)) (VPtr t (Some a)) ttl of
           Done ((c, h), err) \<Rightarrow>
             Some (s\<lparr>cs_cache := c, cs_heap := h, cs_filling := remove1 x (cs_filling s),
                     cs_answers := (if err = None then told key a h else [])\<rparr>)
         | _ \<Rightarrow> None))"
| "cs_step S take_av rit t ttl s (EvictKey key) =
     (case evict_call S s (EvictKey key) of
        Done ((c, h), err) \<Rightarrow> Some (s\<lparr>cs_cache := c, cs_heap := h, cs_answers := []\<rparr>)
      | _ \<Rightarrow> None)"
| "cs_step S take_av rit t ttl s (EvictIds ids keyFunc) =
     (case evict_call S s (EvictIds ids keyFunc) of
        Done ((c, h), err) \<Rightarrow> Some (s\<lparr>cs_cache := c, cs_heap := h, cs_answers := []\<rparr>)
      | _ \<Rightarrow> None)"
| "cs_step S take_av rit t ttl s (RefreshBegin key) =
     (case evict_call S s (RefreshBegin key) of
        Done ((c, h), err) \<Rightarrow>
          (let s1 = s\<lparr>cs_cache := c, cs_heap := h, cs_answers := []\<rparr>
           in case (err, cs_db s key) of
                (None, Some v) \<Rightarrow> Some (s1\<lparr>cs_renewing := (key, v) # cs_renewing s\<rparr>)
              | _ \<Rightarrow> Some s1)
      | _ \<Rightarrow> None)"
| "cs_step S take_av rit t ttl s (RefreshEnd x) =
     (if x \<notin> set (cs_renewing s) then None
      else case x of (key, v) \<Rightarrow>
        (case cache_refill S (cs_cache s) (cs_heap s) key (\<lambda>h. (h, Inr v)) (Some t) ttl of
           Done ((c, h), err) \<Rightarrow>
             Some (s\<lparr>cs_cache := c, cs_heap := h, cs_renewing := remove1 x (cs_renewing s), cs_answers := []\<rparr>)
         | _ \<Rightarrow> None))"
| "cs_step S take_av rit t ttl s (RefreshManyBegin kt ids keyFunc) =
     (case evict_call S s (RefreshManyBegin kt ids keyFunc) of
        Done ((c, h), err) \<Rightarrow>
          (let s1 = s\<lparr>cs_cache := c, cs_heap := h, cs_answers := []\<rparr>
           in if err = None \<and> ids \<noteq> []
              then Some (s1\<lparr>cs_many := (kt, keyFunc, read_many (cs_db s) keyFunc ids) # cs_many s\<rparr>)
              else Some s1)
      | _ \<Rightarrow> None)"
| "cs_step S take_av rit t ttl s (RefreshManyEnd x) =
     (if x \<notin> set (cs_many s) then None
      else case x of (kt, keyFunc, kvs) \<Rightarrow>
        (case refresh_fallback S (cs_cache s) (cs_heap s) (VSlice kt (map fst kvs)) keyFunc
                (give_many kt t kvs) kt t ttl of
           Done ((c, h), err) \<Rightarrow>
             Some (s\<lparr>cs_cache := c, cs_heap := h, cs_many := remove1 x (cs_many s), cs_answers := []\<rparr>)
         | _ \<Rightarrow> None))"
| "cs_step S take_av rit t ttl s (GetManyBegin kt ids keyFunc m) =
     (if ids = [] \<or> \<not> list_all (id_of_type kt) ids \<or> \<not> inj_on keyFunc (set ids) \<or> h_maps (cs_heap s) m \<noteq> Some [] \<or>
         h_next (cs_heap s) \<le> m \<or> m \<in> set (map gather_map (cs_gathering s)) then None
      else case getmulti_lookup S take_av (cs_cache s) (cs_heap s) kt t ids keyFunc m of
        Done ((c, h), missing, err) \<Rightarrow>
          (let s1 = s\<lparr>cs_cache := c, cs_heap := h, cs_answers := []\<rparr>
           in if err \<noteq> None then Some s1
              else if missing = [] then Some (s1\<lparr>cs_answers := told_many keyFunc ids m h\<rparr>)
              else Some (s1\<lparr>cs_gathering :=
                (kt, keyFunc, ids, m, read_many (cs_db s) keyFunc missing) # cs_gathering s\<rparr>))
      | _ \<Rightarrow> None)"
| "cs_step S take_av rit t ttl s (GetManyEnd x) =
     (if x \<notin> set (cs_gathering s) then None
      else case x of (kt, keyFunc, ids, m, kvs) \<Rightarrow>
        (case multi_fallback S (cs_cache s) (cs_heap s) keyFunc (give_many kt t kvs) kt t t (map_val kt t m)
                (map fst kvs) ttl of
           Done ((c, h), err) \<Rightarrow>
             Some (s\<lparr>cs_cache := c, cs_heap := h, cs_gathering := remove1 x (cs_gathering s),
                     cs_answers := (if err = None then told_many keyFunc ids m h else [])\<rparr>)
         | _ \<Rightarrow> None))"

text \<open>The values of a key on their way from the database to the store, or to a caller.\<close>

fun many_values :: "string \<Rightarrow> many \<Rightarrow> goval set" where
  "many_values key (kt, keyFunc, kvs) = {v. \<exists>x. (x, v) \<in> set kvs \<and> keyFunc x = key}"

fun gather_values :: "string \<Rightarrow> heap \<Rightarrow> gather \<Rightarrow> goval set" where
  "gather_values key h (kt, keyFunc, ids, m, kvs) =
     {v. \<exists>x. keyFunc x = key \<and> ((x, v) \<in> set kvs \<or> x \<in> set ids \<and> map_at h m x = Some v)}"

definition promised :: "string \<Rightarrow> many list \<Rightarrow> goval set" where
  "promised key ms = (\<Union>x \<in> set ms. many_values key x)"

definition gathered :: "string \<Rightarrow> heap \<Rightarrow> gather list \<Rightarrow> goval set" where
  "gathered key h gs = (\<Union>x \<in> set gs. gather_values key h x)"

lemma gathered_simps [simp]:
  "promised key [] = {}" "promised key (x # ms) = many_values key x \<union> promised key ms"
  "gathered key h [] = {}" "gathered key h (g # gs) = gather_values key h g \<union> gathered key h gs"
  by (simp_all add: promised_def gathered_def)

definition pending :: "string \<Rightarrow> ('r, 'l) coherence \<Rightarrow> goval set" where
  "pending key s = {v. \<exists>a. (key, v, a) \<in> set (cs_filling s)} \<union> {v. (key, v) \<in> set (cs_renewing s)} \<union>
     promised key (cs_many s) \<union> gathered key (cs_heap s) (cs_gathering s)"

lemma read_many_db: "(x, v) \<in> set (read_many db keyFunc ids) \<Longrightarrow> x \<in> set ids \<and> db (keyFunc x) = Some v"
  by (auto simp: read_many_def map_filter_def)

lemma read_many_distinct: "distinct (map fst (read_many db keyFunc ids))"
proof -
  have "map fst (List.map_filter (\<lambda>x. map_option (Pair x) (db (keyFunc x))) xs)
      = filter (\<lambda>x. db (keyFunc x) \<noteq> None) xs" for xs
    by (induction xs) (auto simp: map_filter_simps split: option.split)
  then show ?thesis by (simp add: read_many_def)
qed

lemma told_many_iff:
  "(key, v) \<in> set (told_many keyFunc ids m h) \<longleftrightarrow> (\<exists>x \<in> set ids. keyFunc x = key \<and> map_at h m x = Some v)"
  by (force simp: told_many_def map_filter_def)

text \<open>
  Nothing happens to the cells in use, nor to the maps that are allocated, but to those of \<open>M\<close>.
\<close>

definition frame :: "nat set \<Rightarrow> heap \<Rightarrow> heap \<Rightarrow> bool" where
  "frame M h h1 \<longleftrightarrow> h_next h \<le> h_next h1 \<and> (\<forall>a. h_cells h a \<noteq> None \<longrightarrow> h_cells h1 a \<noteq> None) \<and>
     (\<forall>a < h_next h. a \<notin> M \<longrightarrow> h_maps h1 a = h_maps h a)"

lemma frame_refl [simp]: "frame M h h"
  by (simp add: frame_def)

lemma frame_set_cell [simp]: "frame M h (set_cell a v h)"
  by (simp add: frame_def set_cell_def)

lemma frame_trans: "frame M h1 h2 \<Longrightarrow> frame M h2 h3 \<Longrightarrow> frame M h1 h3"
  by (auto simp: frame_def)

text \<open>At first nothing is on its way, and what is stored anywhere is of the type.\<close>

definition cs_init ::
  "('r \<Rightarrow> string \<rightharpoonup> bytes) \<Rightarrow> (goval \<Rightarrow> bytes) \<Rightarrow> gotype \<Rightarrow> ('r, 'l) coherence \<Rightarrow> bool" where
  "cs_init look enc t s \<longleftrightarrow> cs_filling s = [] \<and> cs_renewing s = [] \<and> cs_many s = [] \<and> cs_gathering s = [] \<and>
     (\<forall>b \<in> ran (look (c_store (cs_cache s))). \<exists>v. of_type t v \<and> b = enc v) \<and>
     (\<forall>v \<in> ran (cs_db s). of_type t v)"

lemma told_iff: "(key, v) \<in> set (told k a h) \<longleftrightarrow> k = key \<and> h_cells h a = Some v"
  by (auto simp: told_def split: option.split)

lemma set_cell_apply: "h_cells (set_cell a v h) b = (if b = a then Some v else h_cells h b)"
  by (simp add: set_cell_def)

section \<open>What the server and the codec promise\<close>

text \<open>
  The server may lose an entry at any time, by expiry or to make room, and any command may fail and
  then have been carried out or not; but it makes up no entries, and a \<open>DEL\<close> that succeeded has deleted.
  The codec encodes a pointer as the value behind it.
\<close>

definition redis_lossy :: "'r redis_ops \<Rightarrow> ('r \<Rightarrow> string \<rightharpoonup> bytes) \<Rightarrow> bool" where
  "redis_lossy R look \<longleftrightarrow>
     (\<forall>r key r1 x. rd_Get R r key = (r1, x) \<longrightarrow> look r1 \<subseteq>\<^sub>m look r \<and> (\<forall>b. x = Inr b \<longrightarrow> look r key = Some b)) \<and>
     (\<forall>r keys r1 x. rd_MGet R r keys = (r1, x) \<longrightarrow> look r1 \<subseteq>\<^sub>m look r \<and>
        (\<forall>vals. x = Inr vals \<longrightarrow> (\<forall>(key, b) \<in> set (zip keys vals). b \<noteq> None \<longrightarrow> look r key = b))) \<and>
     (\<forall>r key b ttl r1 e. rd_Set R r key b ttl = (r1, e) \<longrightarrow>
        look r1 \<subseteq>\<^sub>m look r \<or> look r1 \<subseteq>\<^sub>m (look r)(key \<mapsto> b)) \<and>
     (\<forall>r keys r1 e. rd_Del R r keys = (r1, e) \<longrightarrow>
        look r1 \<subseteq>\<^sub>m look r \<and> (e = None \<longrightarrow> (\<forall>key \<in> set keys. look r1 key = None))) \<and>
     (\<forall>r cmds r1 ns e key b. rd_Exec R r cmds = (r1, ns, e) \<longrightarrow> look r1 key = Some b \<longrightarrow>
        look r key = Some b \<or> (\<exists>ttl. CmdSet key b ttl \<in> set cmds))"

definition codec_through :: "serializer \<Rightarrow> gotype \<Rightarrow> (goval \<Rightarrow> bytes) \<Rightarrow> bool" where
  "codec_through Z t enc \<longleftrightarrow> codec_of Z t enc \<and> kind_of t \<noteq> KPtr \<and>
     (\<forall>h a v. h_cells h a = Some v \<longrightarrow> of_type t v \<longrightarrow> sz_encode Z h (VPtr t (Some a)) = Inr (enc v))"

lemma nil_result_of_type: "kind_of t \<noteq> KPtr \<Longrightarrow> nil_result (RVal t v None) = Done False"
  by (simp add: nil_result_def)

lemma give_many:
  obtains h1 where "give_many kt t kvs ids h = (h1, Inr (VMap kt t (Some (h_next h))))" "h_maps h1 (h_next h) = Some kvs"
    "frame {} h h1" "h_next h < h_next h1"
proof -
  let ?h1 = "put_map (h_next h) kvs (fst (MakeMap kt t h))"
  have "give_many kt t kvs ids h = (?h1, Inr (VMap kt t (Some (h_next h))))"
    by (simp add: give_many_def MakeMap_def)
  then show thesis by (rule that) (simp_all add: frame_def MakeMap_def put_map_def)
qed

lemma map_le_SomeD: "m1 \<subseteq>\<^sub>m m \<Longrightarrow> m1 k = Some v \<Longrightarrow> m k = Some v"
  unfolding map_le_def by (metis domI)

locale lossy_redis =
  fixes R :: "'r redis_ops" and look :: "'r \<Rightarrow> string \<rightharpoonup> bytes" and Z :: serializer and t :: gotype
    and enc :: "goval \<Rightarrow> bytes"
  assumes redis: "redis_lossy R look" and codec: "codec_through Z t enc"
begin

lemma get_law: "rd_Get R r key = (r1, x) \<Longrightarrow> look r1 \<subseteq>\<^sub>m look r \<and> (\<forall>b. x = Inr b \<longrightarrow> look r key = Some b)"
  using redis [unfolded redis_lossy_def, THEN conjunct1] by blast

lemma mget_law:
  "rd_MGet R r keys = (r1, x) \<Longrightarrow> look r1 \<subseteq>\<^sub>m look r \<and>
     (\<forall>vals. x = Inr vals \<longrightarrow> (\<forall>(key, b) \<in> set (zip keys vals). b \<noteq> None \<longrightarrow> look r key = b))"
  by (rule redis [unfolded redis_lossy_def, THEN conjunct2, THEN conjunct1, THEN spec, THEN spec,
      THEN spec, THEN spec, THEN mp])

lemma set_law: "rd_Set R r key b ttl = (r1, e) \<Longrightarrow> look r1 \<subseteq>\<^sub>m look r \<or> look r1 \<subseteq>\<^sub>m (look r)(key \<mapsto> b)"
  using redis [unfolded redis_lossy_def, THEN conjunct2, THEN conjunct2, THEN conjunct1] by blast

lemma del_law:
  "rd_Del R r keys = (r1, e) \<Longrightarrow>
     look r1 \<subseteq>\<^sub>m look r \<and> (e = None \<longrightarrow> (\<forall>key \<in> set keys. look r1 key = None))"
  using redis [unfolded redis_lossy_def, THEN conjunct2, THEN conjunct2, THEN conjunct2, THEN conjunct1] by blast

lemma exec_law:
  "rd_Exec R r cmds = (r1, ns, e) \<Longrightarrow> look r1 key = Some b \<Longrightarrow>
     look r key = Some b \<or> (\<exists>ttl. CmdSet key b ttl \<in> set cmds)"
  using redis [unfolded redis_lossy_def, THEN conjunct2, THEN conjunct2, THEN conjunct2, THEN conjunct2] by blast

lemma plain: "kind_of t \<noteq> KPtr"
  using codec by (simp add: codec_through_def)

lemma encodes: "of_type t v \<Longrightarrow> sz_encode Z h v = Inr (enc v)"
  using codec unfolding codec_through_def codec_of_def by blast

lemma encodes_cell: "h_cells h a = Some v \<Longrightarrow> of_type t v \<Longrightarrow> sz_encode Z h (VPtr t (Some a)) = Inr (enc v)"
  using codec unfolding codec_through_def by blast

lemma decodes:
  "of_type t v \<Longrightarrow> h_cells h c \<noteq> None \<Longrightarrow> sz_decode Z h (enc v) (VPtr t (Some c)) = (set_cell c v h, None)"
  using codec unfolding codec_through_def codec_of_def by blast

text \<open>The pieces of the cache over this store, with values of the type.\<close>

lemma lookup_cases:
  assumes "get_lookup (RedisStore R Z) take_av c h key (VPtr t (Some a)) = Done ((c1, h1), l)"
    and "h_cells h a \<noteq> None" and "\<And>b. look (c_store c) key = Some b \<Longrightarrow> \<exists>v \<in> V. of_type t v \<and> b = enc v"
  shows "look (c_store c1) \<subseteq>\<^sub>m look (c_store c) \<and>
    (case l of Hit \<Rightarrow> \<exists>v \<in> V. h1 = set_cell a v h | _ \<Rightarrow> h1 = h)"
proof -
  obtain r1 x where get: "rd_Get R (c_store c) key = (r1, x)" by fastforce
  note law = get_law [OF get]
  show ?thesis
  proof (cases x)
    case (Inl e)
    obtain c2 can where can: "canFallbackWhenError take_av (c\<lparr>c_store := r1\<rparr>) = (c2, can)" by fastforce
    then have "c_store c2 = r1" using canFallback_store [of take_av "c\<lparr>c_store := r1\<rparr>"] by simp
    with assms(1) get Inl law can show ?thesis
      by (auto simp: get_lookup_def on_store_def RedisStore_def redis_Get_def TypeOf_def ValueOf_def
          split: if_splits)
  next
    case (Inr b)
    with law assms(3) obtain v where v: "v \<in> V" "of_type t v" "b = enc v" by blast
    with assms(1) get Inr law decodes [OF v(2) assms(2)] show ?thesis
      by (auto simp: get_lookup_def on_store_def RedisStore_def redis_Get_def TypeOf_def ValueOf_def)
  qed
qed

lemma fill:
  assumes "of_type t v" and "h_cells h a \<noteq> None"
  obtains r1 e where "rd_Set R (c_store c) key (enc v) ttl = (r1, e)"
    "cache_fallback (RedisStore R Z) rit c h key (\<lambda>h. (h, Inr v)) (VPtr t (Some a)) ttl
       = Done ((c\<lparr>c_store := r1\<rparr>, set_cell a v h), None)"
proof -
  obtain r1 e where set: "rd_Set R (c_store c) key (enc v) ttl = (r1, e)" by fastforce
  obtain old where old: "h_cells h a = Some old" using assms(2) by blast
  have enc: "sz_encode Z (set_cell a v h) (VPtr t (Some a)) = Inr (enc v)"
    by (rule encodes_cell [OF _ assms(1)]) (simp add: set_cell_def)
  then have "cache_fallback (RedisStore R Z) rit c h key (\<lambda>h. (h, Inr v)) (VPtr t (Some a)) ttl
       = Done ((c\<lparr>c_store := r1\<rparr>, set_cell a v h), None)"
    using assms(1) set enc plain old
    by (simp add: cache_fallback_def nil_result_of_type ValueOf_of_type rSet_def on_store_def RedisStore_def
        redis_Set_def set_cell_def Let_def)
  with set that show thesis by blast
qed

lemma refill:
  assumes "of_type t v"
  obtains r1 e where "rd_Set R (c_store c) key (enc v) ttl = (r1, e)"
    "cache_refill (RedisStore R Z) c h key (\<lambda>h. (h, Inr v)) (Some t) ttl = Done ((c\<lparr>c_store := r1\<rparr>, h), e)"
proof -
  obtain r1 e where set: "rd_Set R (c_store c) key (enc v) ttl = (r1, e)" by fastforce
  with assms encodes [OF assms] plain that show thesis
    by (simp add: cache_refill_def nil_result_of_type ValueOf_of_type on_store_def RedisStore_def redis_Set_def
        Let_def)
qed

lemma evict:
  obtains r1 err where "evict_call (RedisStore R Z) s e = Done (((cs_cache s)\<lparr>c_store := r1\<rparr>, cs_heap s), err)"
    "look r1 \<subseteq>\<^sub>m look (c_store (cs_cache s))" "err = None \<Longrightarrow> key \<in> set (deleted_by e) \<Longrightarrow> look r1 key = None"
proof -
  let ?r = "c_store (cs_cache s)" and ?keys = "deleted_by e"
  obtain r1 err where d: "redis_Delete R (cs_heap s) ?r ?keys = Done ((r1, cs_heap s), err)"
      "look r1 \<subseteq>\<^sub>m look ?r" "err = None \<longrightarrow> (\<forall>key \<in> set ?keys. look r1 key = None)"
  proof (cases "?keys = []")
    case True
    then show thesis by (intro that [of ?r None]) (simp_all add: redis_Delete_def)
  next
    case False
    obtain r1 err where "rd_Del R ?r ?keys = (r1, err)" by fastforce
    with False del_law [OF this] that [of r1 err] show thesis by (simp add: redis_Delete_def)
  qed
  have "evict_call (RedisStore R Z) s e = on_store (cs_cache s) (redis_Delete R (cs_heap s) ?r ?keys)
      \<or> ?keys = [] \<and> (\<exists>err. evict_call (RedisStore R Z) s e = Done ((cs_cache s, cs_heap s), err))"
  proof (cases e)
    case (EvictIds ids f)
    then show ?thesis by (cases ids) (auto simp: cache_EvictMulti_def RedisStore_def ValueOf_def)
  qed (auto simp: cache_Evict_def RedisStore_def)
  then consider "evict_call (RedisStore R Z) s e = on_store (cs_cache s) (redis_Delete R (cs_heap s) ?r ?keys)"
    | err where "?keys = []" "evict_call (RedisStore R Z) s e = Done ((cs_cache s, cs_heap s), err)"
    by blast
  then show thesis
  proof cases
    case 1
    with d show thesis by (intro that [of r1 err]) (simp_all add: on_store_def)
  next
    case (2 err')
    then show thesis by (intro that [of ?r err']) simp_all
  qed
qed

lemma set_queue:
  "\<forall>(k, v) \<in> set kvs. of_type t v \<Longrightarrow>
     redis_set_queue Z h ttl kvs = Inr (map (\<lambda>(k, v). CmdSet k (enc v) ttl) kvs)"
  by (induction kvs) (auto simp: encodes)

lemma collect_give:
  assumes "h_maps h m = Some kvs" and "set ks \<subseteq> fst ` set kvs"
  obtains xs where "collect_loop keyFunc kt t h (RVal (TMap kt t) (VMap kt t (Some m)) None) ks = Done xs"
    "\<forall>(k, v) \<in> set xs. \<exists>x. (x, v) \<in> set kvs \<and> k = keyFunc x"
  using assms(2)
proof (induction ks arbitrary: thesis)
  case (Cons x ks)
  obtain xs where xs: "collect_loop keyFunc kt t h (RVal (TMap kt t) (VMap kt t (Some m)) None) ks = Done xs"
      "\<forall>(k, v) \<in> set xs. \<exists>x. (x, v) \<in> set kvs \<and> k = keyFunc x"
    using Cons.IH Cons.prems(2) by auto
  obtain v where v: "map_of kvs x = Some v"
    using Cons.prems(2) by (metis insert_subset list.simps(15) map_of_eq_None_iff option.exhaust)
  then have "(x, v) \<in> set kvs" by (rule map_of_SomeD)
  with xs v assms(1) show ?case
    by (intro Cons.prems(1) [of "(keyFunc x, v) # xs"]) (auto simp: MapIndex_def map_entries_def)
qed simp

lemma refill_many:
  assumes "\<forall>(x, v) \<in> set kvs. of_type t v"
  obtains r1 h1 e where "refresh_fallback (RedisStore R Z) c h ids keyFunc (give_many kt t kvs) kt t ttl
      = Done ((c\<lparr>c_store := r1\<rparr>, h1), e)" "frame {} h h1"
    "\<And>key b. look r1 key = Some b \<Longrightarrow> look (c_store c) key = Some b \<or>
       (\<exists>x v. (x, v) \<in> set kvs \<and> keyFunc x = key \<and> b = enc v)"
proof -
  let ?m = "VMap kt t (Some (h_next h))"
  obtain h1 where h1: "give_many kt t kvs ids h = (h1, Inr ?m)" "h_maps h1 (h_next h) = Some kvs" "frame {} h h1"
    by (rule give_many)
  then have entries: "map_entries h1 (ValueOf ?m) = kvs" by (simp add: map_entries_def ValueOf_def)
  show thesis
  proof (cases "kvs = []")
    case True
    with h1 entries show thesis
      by (intro that [of "c_store c" h1 None]) (simp_all add: refresh_fallback_def ValueOf_def)
  next
    case False
    obtain xs where xs: "collect_loop keyFunc kt t h1 (RVal (TMap kt t) ?m None) (map fst kvs) = Done xs"
        "\<forall>(k, v) \<in> set xs. \<exists>x. (x, v) \<in> set kvs \<and> k = keyFunc x"
      by (rule collect_give [OF h1(2), of "map fst kvs" keyFunc kt]) auto
    let ?cmds = "map (\<lambda>(k, v). CmdSet k (enc v) ttl) xs"
    have typed: "\<forall>(k, v) \<in> set xs. of_type t v" using xs(2) assms by fastforce
    obtain r1 ns e where exec: "rd_Exec R (c_store c) ?cmds = (r1, ns, e)" by (metis prod.exhaust)
    have zip: "zip (map fst xs) (map snd xs) = xs" by (rule zip_map_fst_snd)
    have "refresh_fallback (RedisStore R Z) c h ids keyFunc (give_many kt t kvs) kt t ttl
        = Done ((c\<lparr>c_store := r1\<rparr>, h1), e)"
      using False h1 entries xs(1) exec set_queue [OF typed, of h1 ttl]
      by (simp add: refresh_fallback_def MapKeys_def ValueOf_def on_store_def RedisStore_def redis_SetMulti_def
          zip Let_def)
    moreover have "\<exists>x v. (x, v) \<in> set kvs \<and> keyFunc x = key \<and> b = enc v" if "CmdSet key b ttl' \<in> set ?cmds" for key b ttl'
      using that xs(2) by fastforce
    ultimately show thesis using h1(3) exec_law [OF exec] by (intro that [of r1 h1 e]) blast+
  qed
qed

text \<open>
  A \<open>GetMulti\<close>. The values that the store may have under a key are those of \<open>P key\<close>; then so is what
  the caller's map has after the first part.
\<close>

lemma mget_loop:
  assumes "\<forall>(key, x) \<in> set kvs. \<forall>b. x = Some b \<longrightarrow> (\<exists>v \<in> P key. of_type t v \<and> b = enc v)"
    and "h_maps h d = Some es" and "d < h_next h" and "\<forall>key v. map_of es (VStr key) = Some v \<longrightarrow> v \<in> P key"
  shows "\<exists>h1 es1. redis_get_loop Z (map_val TString t d) h kvs = Done (h1, None) \<and> frame {d} h h1 \<and>
    h_maps h1 d = Some es1 \<and> (\<forall>key v. map_of es1 (VStr key) = Some v \<longrightarrow> v \<in> P key)"
  using assms
proof (induction kvs arbitrary: h es)
  case (Cons kv kvs)
  obtain key x where kv: "kv = (key, x)" by fastforce
  show ?case
  proof (cases x)
    case None
    with Cons.IH [OF _ Cons.prems(2-4)] Cons.prems(1) kv show ?thesis by simp
  next
    case (Some b)
    then obtain v where v: "v \<in> P key" "of_type t v" "b = enc v" using Cons.prems(1) kv by auto
    let ?c = "h_next h" and ?es = "AList.update (VStr key) v es"
    obtain h1 where new: "rNew t h = (h1, VPtr t (Some ?c))" and h1: "h_cells h1 ?c \<noteq> None" "h_maps h1 = h_maps h"
        "h_next h1 = Suc ?c" "frame {d} h h1"
      by (simp add: rNew_def frame_def)
    let ?h2 = "set_cell ?c v h1" let ?h3 = "put_map d ?es ?h2"
    have ind: "Indirect ?h2 (ValueOf (VPtr t (Some ?c))) = RVal t v (Some ?c)" by (simp add: set_cell_def)
    have maps: "h_maps ?h2 d = Some es" using h1(2) Cons.prems(2) by (simp add: set_cell_def)
    have setm: "SetMapIndex ?h2 (map_val TString t d) (ValueOf (VStr key)) (RVal t v (Some ?c)) = Done ?h3"
      using maps by (simp add: SetMapIndex_def map_entries_def ValueOf_def)
    have step: "redis_get_loop Z (map_val TString t d) h (kv # kvs) = redis_get_loop Z (map_val TString t d) ?h3 kvs"
      using kv Some v new decodes [OF v(2) h1(1)] ind setm by simp
    have f: "frame {d} h ?h3" using h1(3,4) by (auto simp: frame_def set_cell_def)
    have "d < h_next ?h3" using Cons.prems(3) h1(3) by (simp add: set_cell_def)
    moreover have "\<forall>key v. map_of ?es (VStr key) = Some v \<longrightarrow> v \<in> P key"
      using Cons.prems(4) v(1) by (auto simp: update_conv')
    moreover have "\<forall>(key, x) \<in> set kvs. \<forall>b. x = Some b \<longrightarrow> (\<exists>v \<in> P key. of_type t v \<and> b = enc v)"
      using Cons.prems(1) by simp
    ultimately obtain h4 es1 where "redis_get_loop Z (map_val TString t d) ?h3 kvs = Done (h4, None)" "frame {d} ?h3 h4"
        "h_maps h4 d = Some es1" "\<forall>key v. map_of es1 (VStr key) = Some v \<longrightarrow> v \<in> P key"
      using Cons.IH [of ?h3 ?es] by auto
    with step frame_trans [OF f] show ?thesis by auto
  qed
qed auto

lemma mget:
  assumes "\<forall>key b. look (c_store c) key = Some b \<longrightarrow> (\<exists>v \<in> P key. of_type t v \<and> b = enc v)"
  obtains r1 h1 err cached where "on_store c (st_GetMulti (RedisStore R Z) (fst (MakeMap TString t h)) (c_store c) keys
      (VMap TString t (Some (h_next h)))) = Done ((c\<lparr>c_store := r1\<rparr>, h1), err)"
    "look r1 \<subseteq>\<^sub>m look (c_store c)" "frame {} h h1" "h_maps h1 (h_next h) = Some cached" "h_next h < h_next h1"
    "\<forall>key v. map_of cached (VStr key) = Some v \<longrightarrow> v \<in> P key"
proof -
  let ?h = "fst (MakeMap TString t h)" and ?d = "h_next h"
  have h: "h_maps ?h ?d = Some []" "?d < h_next ?h" "frame {} h ?h" by (simp_all add: MakeMap_def frame_def)
  obtain r1 x where get: "rd_MGet R (c_store c) keys = (r1, x)" by fastforce
  note law = mget_law [OF get]
  show thesis
  proof (cases x)
    case (Inl e)
    with get h law show thesis
      by (intro that [of r1 ?h "Some e" "[]"]) (simp_all add: on_store_def RedisStore_def redis_GetMulti_def)
  next
    case (Inr vals)
    have "\<forall>(key, x) \<in> set (zip keys vals). \<forall>b. x = Some b \<longrightarrow> (\<exists>v \<in> P key. of_type t v \<and> b = enc v)"
      using law Inr assms by fastforce
    then obtain h1 es1 where "redis_get_loop Z (map_val TString t ?d) ?h (zip keys vals) = Done (h1, None)"
        "frame {?d} ?h h1" "h_maps h1 ?d = Some es1" "\<forall>key v. map_of es1 (VStr key) = Some v \<longrightarrow> v \<in> P key"
      using mget_loop [of "zip keys vals" P ?h ?d "[]"] h by auto
    moreover from this h have "frame {} h h1" "?d < h_next h1" by (auto simp: frame_def MakeMap_def)
    ultimately show thesis
      using get Inr law
      by (intro that [of r1 h1 None es1]) (simp_all add: on_store_def RedisStore_def redis_GetMulti_def)
  qed
qed

lemma lookup_many:
  assumes look: "getmulti_lookup (RedisStore R Z) take_av c h kt t ids f m = Done ((c1, h1), missing, err)"
    and ids: "list_all (id_of_type kt) ids" "inj_on f (set ids)" and m: "h_maps h m = Some []" "m < h_next h"
    and P: "\<forall>key b. look (c_store c) key = Some b \<longrightarrow> (\<exists>v \<in> P key. of_type t v \<and> b = enc v)"
  shows "look (c_store c1) \<subseteq>\<^sub>m look (c_store c) \<and> frame {m} h h1 \<and> h_maps h1 m \<noteq> None \<and>
    (\<forall>x v. map_at h1 m x = Some v \<longrightarrow> v \<in> P (f x)) \<and> set missing \<subseteq> set ids"
proof -
  obtain r1 h3 e cached where get: "on_store c (st_GetMulti (RedisStore R Z) (fst (MakeMap TString t h)) (c_store c)
      (map f ids) (VMap TString t (Some (h_next h)))) = Done ((c\<lparr>c_store := r1\<rparr>, h3), e)"
    and r1: "look r1 \<subseteq>\<^sub>m look (c_store c)" and h3: "frame {} h h3" "h_maps h3 (h_next h) = Some cached"
    and cached: "\<forall>key v. map_of cached (VStr key) = Some v \<longrightarrow> v \<in> P key"
    by (rule mget [OF P, of h "map f ids"])
  obtain c4 go where go: "(if e = None then (c\<lparr>c_store := r1\<rparr>, True)
      else canFallbackWhenError take_av (c\<lparr>c_store := r1\<rparr>)) = (c4, go)" by fastforce
  have "c_store (fst (if e = None then (c\<lparr>c_store := r1\<rparr>, True)
      else canFallbackWhenError take_av (c\<lparr>c_store := r1\<rparr>))) = r1" by simp
  then have c4: "c_store c4 = r1" unfolding go by simp
  have m3: "h_maps h3 m = Some []" using h3(1) m by (simp add: frame_def)
  have mk: "MakeMap TString t h = (fst (MakeMap TString t h), VMap TString t (Some (h_next h)))"
    by (simp add: MakeMap_def)
  show ?thesis
  proof (cases go)
    case False
    have "c1 = c4" "h1 = h3" "missing = []"
      using look get go False mk by (auto simp: getmulti_lookup_def Let_def split: prod.splits)
    with r1 c4 h3(1) m3 show ?thesis by (auto simp: frame_def map_at_def)
  next
    case True
    have "\<forall>x \<in> set ids. id_of_type kt x \<and> revert_key f ids (f x) = x"
      using ids revert_key_inj [OF ids(2)] by (auto simp: list_all_iff)
    from miss_loop_spec [OF _ h3(2) m3 this, of t "[]"] m(2) obtain es1 where
      miss: "miss_loop (revert_key f ids) kt (map_val kt t m) (map_val TString t (h_next h)) h3 [] (map f ids)
        = Done (put_map m es1 h3, filter (\<lambda>x. found_in cached f x = None) ids)"
      and es1: "\<forall>k. map_of es1 k = (if k \<in> set ids \<and> found_in cached f k \<noteq> None then found_in cached f k else None)"
      by auto
    have "c1 = c4" "h1 = put_map m es1 h3" "missing = filter (\<lambda>x. found_in cached f x = None) ids"
      using look get go True mk miss by (auto simp: getmulti_lookup_def Let_def ValueOf_def split: prod.splits)
    moreover have "v \<in> P (f x)" if "map_of es1 x = Some v" for x v
      using that es1 cached by (auto simp: found_in_def split: if_splits)
    ultimately show ?thesis
      using r1 c4 h3(1) by (auto simp: frame_def map_at_def)
  qed
qed

lemma fill_many:
  assumes kvs: "\<forall>(x, v) \<in> set kvs. id_of_type kt x \<and> of_type t v" "distinct (map fst kvs)"
    and m: "h_maps h m \<noteq> None" "m < h_next h"
  obtains r1 h1 where "multi_fallback (RedisStore R Z) c h f (give_many kt t kvs) kt t t (map_val kt t m) missing ttl
      = Done ((c\<lparr>c_store := r1\<rparr>, h1), None)" "frame {m} h h1" "h_maps h1 m \<noteq> None"
    "\<And>x. map_at h1 m x = (case map_of kvs x of None \<Rightarrow> map_at h m x | Some v \<Rightarrow> Some v)"
    "\<And>key b. look r1 key = Some b \<Longrightarrow> look (c_store c) key = Some b \<or>
       (\<exists>x v. (x, v) \<in> set kvs \<and> f x = key \<and> b = enc v)"
proof -
  let ?r = "h_next h"
  obtain h1 where h1: "give_many kt t kvs (VSlice kt missing) h = (h1, Inr (VMap kt t (Some ?r)))"
      "h_maps h1 ?r = Some kvs" "frame {} h h1"
    by (rule give_many)
  obtain es where es: "h_maps h m = Some es" using m(1) by blast
  with h1(3) m(2) have es1: "h_maps h1 m = Some es" by (simp add: frame_def)
  have entries: "map_entries h1 (map_val kt t ?r) = kvs" using h1(2) by (simp add: map_entries_def)
  show thesis
  proof (cases "kvs = []")
    case True
    with h1 entries es es1 show thesis
      by (intro that [of "c_store c" h1]) (simp_all add: multi_fallback_def ValueOf_def map_at_def frame_def)
  next
    case False
    have "\<forall>(k, v) \<in> set kvs. id_of_type kt k \<and> result_value t v \<and> map_of kvs k = Some v"
      using kvs plain by (auto simp: result_value_def of_type_def)
    from fill_loop_spec [OF _ h1(2) es1 this kvs(2), of f "[]"] m(2) obtain es2 where
      loop: "fill_loop f kt t (map_val kt t m) (map_val kt t ?r) h1 [] (map fst kvs)
        = Done (put_map m es2 h1, map (\<lambda>(k, v). (f k, v)) kvs)"
      and es2: "map_of es2 = map_of es ++ map_of kvs" by auto
    let ?found = "map (\<lambda>(k, v). (f k, v)) kvs" and ?h2 = "put_map m es2 h1"
    let ?cmds = "map (\<lambda>(k, v). CmdSet k (enc v) ttl) ?found"
    have typed: "\<forall>(k, v) \<in> set ?found. of_type t v" using kvs(1) by auto
    obtain r1 ns e where exec: "rd_Exec R (c_store c) ?cmds = (r1, ns, e)" by (metis prod.exhaust)
    have "multi_fallback (RedisStore R Z) c h f (give_many kt t kvs) kt t t (map_val kt t m) missing ttl
      = Done ((c\<lparr>c_store := r1\<rparr>, ?h2), None)"
      using False h1(1) entries loop exec set_queue [OF typed, of ?h2 ttl]
      by (simp add: multi_fallback_def ValueOf_def MapKeys_def on_store_def RedisStore_def redis_SetMulti_def
          zip_map_fst_snd Let_def del: map_map)
    moreover have "\<exists>x v. (x, v) \<in> set kvs \<and> f x = key \<and> b = enc v" if "CmdSet key b ttl' \<in> set ?cmds" for key b ttl'
      using that by fastforce
    moreover have "frame {m} h ?h2" using h1(3) by (auto simp: frame_def)
    moreover have "map_at ?h2 m x = (case map_of kvs x of None \<Rightarrow> map_at h m x | Some v \<Rightarrow> Some v)" for x
      using es es2 by (simp add: map_at_def map_add_def split: option.split)
    ultimately show thesis using exec_law [OF exec] by (intro that [of r1 ?h2]) (simp, simp, simp, simp, blast)
  qed
qed

end

end
