(* ===== verification/Cache_Coherence.thy ===== *)
theory Cache_Coherence
  imports Cache_System
begin

text \<open>
  What a \<open>Get\<close> or a \<open>GetMulti\<close> of the system of Cache_System may return when the database changes: the
  invariant on the values that are stored or on their way, one lemma for each kind of step, and the
  bound on how old a value can be, with the run that reaches it.
\<close>

lemma distinct_remove1_maps:
  "distinct (map g xs) \<Longrightarrow> x \<in> set xs \<Longrightarrow> distinct (map g (remove1 x xs)) \<and> g x \<notin> g ` set (remove1 x xs)"
proof (induction xs)
  case (Cons y ys)
  show ?case
  proof (cases "x = y")
    case False
    then have "x \<in> set ys" using Cons.prems(2) by simp
    moreover from this have "g x \<noteq> g y" using Cons.prems(1) by (metis distinct.simps(2) imageI list.set_map list.simps(9))
    ultimately show ?thesis
      using Cons False set_remove1_subset [of x ys] by auto
  qed (use Cons.prems in auto)
qed simp

section \<open>The values of a key\<close>

context lossy_redis
begin

text \<open>
  \<open>within key V s\<close>: every value that the entry of the key, a pending fill of it, or the database has,
  is in \<open>V\<close>. A \<open>Get\<close> of the key then answers from \<open>V\<close>, and the steps keep it so, up to what is written.
\<close>

definition entry_in :: "goval set \<Rightarrow> string \<Rightarrow> 'r \<Rightarrow> bool" where
  "entry_in V key r \<longleftrightarrow> (\<forall>b. look r key = Some b \<longrightarrow> (\<exists>v \<in> V. of_type t v \<and> b = enc v))"

definition within :: "string \<Rightarrow> goval set \<Rightarrow> ('r, 'l) coherence \<Rightarrow> bool" where
  "within key V s \<longleftrightarrow> entry_in V key (c_store (cs_cache s)) \<and> pending key s \<subseteq> V \<and>
     (\<forall>v. cs_db s key = Some v \<longrightarrow> v \<in> V)"

text \<open>The cells and the maps of the calls in flight are there, and each has a map of its own.\<close>

fun gather_ok :: "heap \<Rightarrow> gather \<Rightarrow> bool" where
  "gather_ok h (kt, f, ids, m, kvs) \<longleftrightarrow> m < h_next h \<and> h_maps h m \<noteq> None \<and> distinct (map fst kvs) \<and>
     (\<forall>x \<in> fst ` set kvs. x \<in> set ids \<and> id_of_type kt x)"

definition cs_wf :: "('r, 'l) coherence \<Rightarrow> bool" where
  "cs_wf s \<longleftrightarrow> (\<forall>x \<in> set (cs_filling s). h_cells (cs_heap s) (snd (snd x)) \<noteq> None) \<and>
     (\<forall>x \<in> set (cs_gathering s). gather_ok (cs_heap s) x) \<and> distinct (map gather_map (cs_gathering s))"

definition cs_inv :: "('r, 'l) coherence \<Rightarrow> bool" where
  "cs_inv s \<longleftrightarrow> (\<forall>key. within key (Collect (of_type t)) s) \<and> cs_wf s"

text \<open>What a step has to do: nothing to the calls in flight, and all values of the key from \<open>V\<close>.\<close>

lemma gather_frame:
  assumes "frame M h h1" and "gather_ok h x" and "gather_map x \<notin> M"
  shows "gather_ok h1 x \<and> gather_values key h1 x = gather_values key h x"
proof -
  obtain kt f ids m kvs where x: "x = (kt, f, ids, m, kvs)" by (metis prod.collapse)
  have "h_maps h1 m = h_maps h m" using assms by (simp add: x frame_def)
  with assms show ?thesis by (auto simp: x map_at_def frame_def)
qed

lemma wf_frame:
  assumes "cs_wf s" and "frame M (cs_heap s) (cs_heap s1)"
    and "\<forall>x \<in> set (cs_filling s1). x \<in> set (cs_filling s) \<or> h_cells (cs_heap s) (snd (snd x)) \<noteq> None"
    and "set (cs_gathering s1) \<subseteq> set (cs_gathering s)" and "distinct (map gather_map (cs_gathering s1))"
    and "\<forall>x \<in> set (cs_gathering s1). gather_map x \<notin> M"
  shows "cs_wf s1 \<and> gathered key (cs_heap s1) (cs_gathering s1) \<subseteq> gathered key (cs_heap s) (cs_gathering s)"
proof
  have ok: "gather_ok (cs_heap s1) x \<and> gather_values key (cs_heap s1) x = gather_values key (cs_heap s) x"
    if "x \<in> set (cs_gathering s1)" for x
  proof (rule gather_frame [OF assms(2)])
    show "gather_ok (cs_heap s) x" using assms(1,4) that unfolding cs_wf_def by blast
    show "gather_map x \<notin> M" using assms(6) that by blast
  qed
  show "cs_wf s1"
    unfolding cs_wf_def
  proof (intro conjI ballI)
    fix x assume "x \<in> set (cs_filling s1)"
    then have "h_cells (cs_heap s) (snd (snd x)) \<noteq> None" using assms(1,3) unfolding cs_wf_def by blast
    then show "h_cells (cs_heap s1) (snd (snd x)) \<noteq> None" using assms(2) unfolding frame_def by blast
  next
    fix x assume "x \<in> set (cs_gathering s1)"
    with ok show "gather_ok (cs_heap s1) x" by blast
  qed (rule assms(5))
  have "gathered key (cs_heap s1) (cs_gathering s1) = (\<Union>x \<in> set (cs_gathering s1). gather_values key (cs_heap s) x)"
    unfolding gathered_def using ok by (intro SUP_cong) blast+
  also have "\<dots> \<subseteq> gathered key (cs_heap s) (cs_gathering s)"
    unfolding gathered_def using assms(4) by blast
  finally show "gathered key (cs_heap s1) (cs_gathering s1) \<subseteq> gathered key (cs_heap s) (cs_gathering s)" .
qed

lemma wf_heap:
  assumes "cs_wf s" and "frame {} (cs_heap s) (cs_heap s1)"
    and "\<forall>x \<in> set (cs_filling s1). x \<in> set (cs_filling s) \<or> h_cells (cs_heap s) (snd (snd x)) \<noteq> None"
    and "cs_gathering s1 = cs_gathering s"
  shows "cs_wf s1 \<and> gathered key (cs_heap s1) (cs_gathering s1) \<subseteq> gathered key (cs_heap s) (cs_gathering s)"
  by (rule wf_frame [OF assms(1-3)]) (use assms in \<open>auto simp: cs_wf_def\<close>)

lemma pendingD:
  "(k, v, a) \<in> set (cs_filling s) \<Longrightarrow> v \<in> pending k s"
  "(k, v) \<in> set (cs_renewing s) \<Longrightarrow> v \<in> pending k s"
  by (auto simp: pending_def)

lemma pending_manyD:
  "(kt, f, kvs) \<in> set (cs_many s) \<Longrightarrow> (x, v) \<in> set kvs \<Longrightarrow> v \<in> pending (f x) s"
proof -
  assume "(kt, f, kvs) \<in> set (cs_many s)" and "(x, v) \<in> set kvs"
  moreover from this(2) have "v \<in> many_values (f x) (kt, f, kvs)" by auto
  ultimately show ?thesis unfolding pending_def promised_def by blast
qed

lemma pending_gatherD:
  "(kt, f, ids, m, kvs) \<in> set (cs_gathering s) \<Longrightarrow> (x, v) \<in> set kvs \<or> x \<in> set ids \<and> map_at (cs_heap s) m x = Some v \<Longrightarrow>
     v \<in> pending (f x) s"
proof -
  assume g: "(kt, f, ids, m, kvs) \<in> set (cs_gathering s)"
    and "(x, v) \<in> set kvs \<or> x \<in> set ids \<and> map_at (cs_heap s) m x = Some v"
  then have "v \<in> gather_values (f x) (cs_heap s) (kt, f, ids, m, kvs)" by auto
  with g show ?thesis unfolding pending_def gathered_def by blast
qed

text \<open>What one step keeps.\<close>

definition keeps :: "string \<Rightarrow> goval set \<Rightarrow> ('r, 'l) coherence \<Rightarrow> bool" where
  "keeps key V s1 \<longleftrightarrow> within key V s1 \<and> cs_wf s1 \<and> (\<forall>v. (key, v) \<in> set (cs_answers s1) \<longrightarrow> v \<in> V)"

lemma keepsI:
  assumes inv: "cs_inv s" and key: "within key V s" and db: "cs_db s1 = cs_db s"
    and frame: "frame {} (cs_heap s) (cs_heap s1)"
    and filling: "\<forall>x \<in> set (cs_filling s1). x \<in> set (cs_filling s) \<or>
        h_cells (cs_heap s) (snd (snd x)) \<noteq> None \<and> (fst x = key \<longrightarrow> fst (snd x) \<in> V)"
    and renewing: "\<forall>x \<in> set (cs_renewing s1). x \<in> set (cs_renewing s) \<or> (fst x = key \<longrightarrow> snd x \<in> V)"
    and many: "\<forall>x \<in> set (cs_many s1). x \<in> set (cs_many s) \<or> many_values key x \<subseteq> V"
    and gathering: "cs_gathering s1 = cs_gathering s"
    and entry: "entry_in V key (c_store (cs_cache s1))"
    and answers: "\<forall>v. (key, v) \<in> set (cs_answers s1) \<longrightarrow> v \<in> V"
  shows "keeps key V s1"
proof -
  have wf: "cs_wf s" using inv by (simp add: cs_inv_def)
  have f: "\<forall>x \<in> set (cs_filling s1). x \<in> set (cs_filling s) \<or> h_cells (cs_heap s) (snd (snd x)) \<noteq> None"
    using filling by blast
  note g = wf_heap [OF wf frame f gathering, of key]
  have V: "pending key s \<subseteq> V" using key by (simp add: within_def)
  have "v \<in> V" if "(key, v, a) \<in> set (cs_filling s1)" for v a
    using bspec [OF filling that] pendingD(1) [of key v a s] V by auto
  then have "{v. \<exists>a. (key, v, a) \<in> set (cs_filling s1)} \<subseteq> V" by blast
  moreover have "v \<in> V" if "(key, v) \<in> set (cs_renewing s1)" for v
    using bspec [OF renewing that] pendingD(2) [of key v s] V by auto
  then have "{v. (key, v) \<in> set (cs_renewing s1)} \<subseteq> V" by blast
  moreover have "many_values key x \<subseteq> V" if "x \<in> set (cs_many s1)" for x
    using bspec [OF many that] V unfolding pending_def promised_def by blast
  then have "promised key (cs_many s1) \<subseteq> V" unfolding promised_def by blast
  moreover have "gathered key (cs_heap s1) (cs_gathering s1) \<subseteq> V"
    using g V unfolding pending_def by blast
  ultimately have "pending key s1 \<subseteq> V" unfolding pending_def by (intro Un_least)
  with g key db entry answers show ?thesis by (simp add: keeps_def within_def)
qed

lemma entry_in_less: "entry_in V key r \<Longrightarrow> look r1 \<subseteq>\<^sub>m look r \<Longrightarrow> entry_in V key r1"
  unfolding entry_in_def by (metis map_le_SomeD)

lemma entry_in_set:
  assumes "rd_Set R r k (enc v) ttl = (r1, e)" and "entry_in V key r" and "of_type t v" and "k = key \<Longrightarrow> v \<in> V"
  shows "entry_in V key r1"
  using set_law [OF assms(1)]
proof
  assume less: "look r1 \<subseteq>\<^sub>m (look r)(k \<mapsto> enc v)"
  show ?thesis
    unfolding entry_in_def
  proof (intro allI impI)
    fix b assume "look r1 key = Some b"
    from map_le_SomeD [OF less this] have "if key = k then b = enc v else look r key = Some b"
      by (simp split: if_splits)
    then show "\<exists>v \<in> V. of_type t v \<and> b = enc v"
      using assms(2-4) by (cases "key = k") (auto simp: entry_in_def)
  qed
qed (rule entry_in_less [OF assms(2)])

lemma within_mono: "within key V s \<Longrightarrow> V \<subseteq> V' \<Longrightarrow> within key V' s"
  unfolding within_def entry_in_def by blast

lemma within_Un: "within key V s \<Longrightarrow> within key (V \<union> V') s"
  by (erule within_mono) simp

text \<open>The steps, one by one.\<close>

lemma pending_ok:
  assumes "cs_inv s" and "within key V s" and "v \<in> pending k s"
  shows "of_type t v" and "k = key \<Longrightarrow> v \<in> V"
  using assms unfolding cs_inv_def within_def by blast+

lemma stored_ok:
  assumes "cs_inv s" and "within key V s" and "look (c_store (cs_cache s)) k = Some b"
  shows "\<exists>v \<in> (if k = key then V else Collect (of_type t)). of_type t v \<and> b = enc v"
  using assms unfolding cs_inv_def within_def entry_in_def by auto

lemma get_begin_step:
  assumes inv: "cs_inv s" and key: "within key V s"
    and step: "cs_step (RedisStore R Z) take_av rit t ttl s (GetBegin k a) = Some s1"
  shows "keeps key V s1"
proof -
  let ?V = "if k = key then V else Collect (of_type t)"
  have a: "h_cells (cs_heap s) a \<noteq> None" using step by (auto split: if_splits)
  obtain c h l where look: "get_lookup (RedisStore R Z) take_av (cs_cache s) (cs_heap s) k (VPtr t (Some a)) = Done ((c, h), l)"
    using step a by (auto split: outcome.splits prod.splits)
  from lookup_cases [OF look a stored_ok [OF inv key]] have less: "look (c_store c) \<subseteq>\<^sub>m look (c_store (cs_cache s))"
    and h: "case l of Hit \<Rightarrow> \<exists>v \<in> ?V. h = set_cell a v (cs_heap s) | _ \<Rightarrow> h = cs_heap s" by auto
  have entry: "entry_in V key (c_store c)"
    using key entry_in_less [OF _ less] by (auto simp: within_def)
  show ?thesis
  proof (cases l)
    case Hit
    with h obtain v where v: "v \<in> ?V" "h = set_cell a v (cs_heap s)" by auto
    have "s1 = s\<lparr>cs_cache := c, cs_heap := h, cs_answers := told k a h\<rparr>"
      using step a look Hit by (simp add: Let_def)
    with v entry show ?thesis
      by (intro keepsI [OF inv key]) (auto simp: told_iff set_cell_apply split: if_splits)
  next
    case Missed
    with h have h: "h = cs_heap s" by simp
    have "s1 = s\<lparr>cs_cache := c, cs_heap := h, cs_answers := [],
        cs_filling := (case cs_db s k of None \<Rightarrow> [] | Some v \<Rightarrow> [(k, v, a)]) @ cs_filling s\<rparr>"
      using step a look Missed by (auto simp: Let_def split: option.splits)
    with h key entry a show ?thesis
      by (intro keepsI [OF inv key]) (auto simp: within_def split: option.splits)
  next
    case (Failed e)
    with h have h: "h = cs_heap s" by simp
    have "s1 = s\<lparr>cs_cache := c, cs_heap := h, cs_answers := []\<rparr>"
      using step a look Failed by (simp add: Let_def)
    with h entry show ?thesis by (intro keepsI [OF inv key]) auto
  qed
qed

lemma get_end_step:
  assumes inv: "cs_inv s" and key: "within key V s"
    and step: "cs_step (RedisStore R Z) take_av rit t ttl s (GetEnd (k, v, a)) = Some s1"
  shows "keeps key V s1"
proof -
  have mem: "(k, v, a) \<in> set (cs_filling s)" using step by (auto split: if_splits)
  note v = pending_ok [OF inv key pendingD(1) [OF mem]]
  have a: "h_cells (cs_heap s) a \<noteq> None" using inv mem unfolding cs_inv_def cs_wf_def by fastforce
  obtain r1 e where set: "rd_Set R (c_store (cs_cache s)) k (enc v) ttl = (r1, e)"
    and fill1: "cache_fallback (RedisStore R Z) rit (cs_cache s) (cs_heap s) k (\<lambda>h. (h, Inr v)) (VPtr t (Some a)) ttl
       = Done (((cs_cache s)\<lparr>c_store := r1\<rparr>, set_cell a v (cs_heap s)), None)"
    by (rule fill [OF v(1) a])
  have s1: "s1 = s\<lparr>cs_cache := (cs_cache s)\<lparr>c_store := r1\<rparr>, cs_heap := set_cell a v (cs_heap s),
      cs_filling := remove1 (k, v, a) (cs_filling s), cs_answers := told k a (set_cell a v (cs_heap s))\<rparr>"
    using step mem fill1 by simp
  have "entry_in V key r1" using key entry_in_set [OF set _ v] by (auto simp: within_def)
  with v(2) show ?thesis
    by (intro keepsI [OF inv key]) (auto simp: s1 told_iff set_cell_apply dest: subsetD [OF set_remove1_subset])
qed

lemma refresh_end_step:
  assumes inv: "cs_inv s" and key: "within key V s"
    and step: "cs_step (RedisStore R Z) take_av rit t ttl s (RefreshEnd (k, v)) = Some s1"
  shows "keeps key V s1"
proof -
  have mem: "(k, v) \<in> set (cs_renewing s)" using step by (auto split: if_splits)
  note v = pending_ok [OF inv key pendingD(2) [OF mem]]
  obtain r1 e where set: "rd_Set R (c_store (cs_cache s)) k (enc v) ttl = (r1, e)"
    and fill1: "cache_refill (RedisStore R Z) (cs_cache s) (cs_heap s) k (\<lambda>h. (h, Inr v)) (Some t) ttl
       = Done (((cs_cache s)\<lparr>c_store := r1\<rparr>, cs_heap s), e)"
    by (rule refill [OF v(1)])
  have s1: "s1 = s\<lparr>cs_cache := (cs_cache s)\<lparr>c_store := r1\<rparr>, cs_renewing := remove1 (k, v) (cs_renewing s),
      cs_answers := []\<rparr>"
    using step mem fill1 by simp
  have "entry_in V key r1" using key entry_in_set [OF set _ v] by (auto simp: within_def)
  then show ?thesis
    by (intro keepsI [OF inv key]) (auto simp: s1 dest: subsetD [OF set_remove1_subset])
qed

text \<open>Many values are stored at once.\<close>

lemma entry_in_many:
  assumes "entry_in V key r"
    and "\<forall>b. look r1 key = Some b \<longrightarrow> look r key = Some b \<or> (\<exists>x v. (x, v) \<in> set kvs \<and> f x = key \<and> b = enc v)"
    and "\<forall>(x, v) \<in> set kvs. of_type t v \<and> (f x = key \<longrightarrow> v \<in> V)"
  shows "entry_in V key r1"
  using assms unfolding entry_in_def by blast

lemma refresh_many_end_step:
  assumes inv: "cs_inv s" and key: "within key V s"
    and step: "cs_step (RedisStore R Z) take_av rit t ttl s (RefreshManyEnd (kt, f, kvs)) = Some s1"
  shows "keeps key V s1"
proof -
  have mem: "(kt, f, kvs) \<in> set (cs_many s)" using step by (auto split: if_splits)
  have v: "of_type t v" "f x = key \<Longrightarrow> v \<in> V" if "(x, v) \<in> set kvs" for x v
    using pending_ok [OF inv key pending_manyD [OF mem that]] by auto
  then have "\<forall>(x, v) \<in> set kvs. of_type t v" by blast
  then obtain r1 h1 e where fill1: "refresh_fallback (RedisStore R Z) (cs_cache s) (cs_heap s) (VSlice kt (map fst kvs))
        f (give_many kt t kvs) kt t ttl = Done (((cs_cache s)\<lparr>c_store := r1\<rparr>, h1), e)"
      "frame {} (cs_heap s) h1"
    and stored: "\<And>key b. look r1 key = Some b \<Longrightarrow> look (c_store (cs_cache s)) key = Some b \<or>
         (\<exists>x v. (x, v) \<in> set kvs \<and> f x = key \<and> b = enc v)"
    by (rule refill_many [where c = "cs_cache s" and h = "cs_heap s" and ids = "VSlice kt (map fst kvs)"
        and keyFunc = f and kt = kt and ttl = ttl]) blast
  have s1: "s1 = s\<lparr>cs_cache := (cs_cache s)\<lparr>c_store := r1\<rparr>, cs_heap := h1,
      cs_many := remove1 (kt, f, kvs) (cs_many s), cs_answers := []\<rparr>"
    using step mem fill1(1) by simp
  have "entry_in V key (c_store (cs_cache s))" using key by (simp add: within_def)
  then have "entry_in V key r1"
    by (rule entry_in_many [where kvs = kvs and f = f]) (use stored v in blast)+
  with fill1(2) show ?thesis
    by (intro keepsI [OF inv key]) (auto simp: s1 dest: subsetD [OF set_remove1_subset])
qed

lemma get_many_begin_step:
  assumes inv: "cs_inv s" and key: "within key V s"
    and step: "cs_step (RedisStore R Z) take_av rit t ttl s (GetManyBegin kt ids f m) = Some s1"
  shows "keeps key V s1"
proof -
  let ?P = "\<lambda>k. if k = key then V else Collect (of_type t)"
  have guard: "list_all (id_of_type kt) ids" "inj_on f (set ids)" "h_maps (cs_heap s) m = Some []"
      "m < h_next (cs_heap s)" "m \<notin> set (map gather_map (cs_gathering s))" "ids \<noteq> []"
    using step by (auto split: if_splits)
  obtain c h missing err where look: "getmulti_lookup (RedisStore R Z) take_av (cs_cache s) (cs_heap s) kt t ids f m
      = Done ((c, h), missing, err)"
    using step guard by (auto split: outcome.splits prod.splits)
  have P: "\<forall>k b. look (c_store (cs_cache s)) k = Some b \<longrightarrow> (\<exists>v \<in> ?P k. of_type t v \<and> b = enc v)"
    using stored_ok [OF inv key] by blast
  note l = lookup_many [OF look guard(1-4) P]
  have wf: "cs_wf s" and V: "pending key s \<subseteq> V" using inv key by (auto simp: cs_inv_def within_def)
  let ?g = "(kt, f, ids, m, read_many (cs_db s) f missing)"
  let ?s = "s\<lparr>cs_cache := c, cs_heap := h, cs_answers := []\<rparr>"
  have other: "\<forall>x \<in> set (cs_gathering s). gather_map x \<notin> {m}" using guard(5) by auto
  have f: "frame {m} (cs_heap s) h" using l by blast
  have u: "cs_wf ?s \<and> gathered key h (cs_gathering s) \<subseteq> gathered key (cs_heap s) (cs_gathering s)"
    using wf_frame [OF wf, of "{m}" ?s key] f other wf by (simp add: cs_wf_def)
  have entry: "entry_in V key (c_store c)" using key l entry_in_less by (auto simp: within_def)
  have base: "within key V ?s"
    using key u V entry by (auto simp: within_def pending_def)
  have found: "v \<in> V" if "map_at h m x = Some v" "f x = key" for x v
    using l that by (metis (full_types))
  consider "s1 = ?s" | "s1 = ?s\<lparr>cs_answers := told_many f ids m h\<rparr>" | "s1 = ?s\<lparr>cs_gathering := ?g # cs_gathering s\<rparr>"
    using step guard look by (auto simp: Let_def split: if_splits)
  then show ?thesis
  proof cases
    case 1
    with base u show ?thesis by (simp add: keeps_def)
  next
    case 2
    with base u found show ?thesis
      by (auto simp: keeps_def told_many_iff within_def pending_def cs_wf_def)
  next
    case 3
    have new: "gather_values key h ?g \<subseteq> V"
      using found key read_many_db [of _ _ "cs_db s" f missing] by (fastforce simp: within_def)
    have ok: "gather_ok h ?g"
      using l f guard(1,4) read_many_db [of _ _ "cs_db s" f missing] read_many_distinct
      by (fastforce simp: frame_def list_all_iff)
    have "cs_wf s1" using u ok guard(5) 3 by (simp add: cs_wf_def)
    moreover have "within key V s1" using base new 3 by (simp add: within_def pending_def)
    ultimately show ?thesis using 3 by (simp add: keeps_def)
  qed
qed

lemma get_many_end_step:
  assumes inv: "cs_inv s" and key: "within key V s"
    and step: "cs_step (RedisStore R Z) take_av rit t ttl s (GetManyEnd (kt, f, ids, m, kvs)) = Some s1"
  shows "keeps key V s1"
proof -
  let ?g = "(kt, f, ids, m, kvs)"
  have mem: "?g \<in> set (cs_gathering s)" using step by (auto split: if_splits)
  have wf: "cs_wf s" and V: "pending key s \<subseteq> V" using inv key by (auto simp: cs_inv_def within_def)
  have ok: "gather_ok (cs_heap s) ?g" using wf mem unfolding cs_wf_def by blast
  have v: "of_type t v" "f x = key \<Longrightarrow> v \<in> V" if "(x, v) \<in> set kvs" for x v
    using pending_ok [OF inv key pending_gatherD [OF mem disjI1 [OF that]]] by auto
  have "\<forall>(x, v) \<in> set kvs. id_of_type kt x \<and> of_type t v" using v(1) ok by force
  then obtain r1 h1 where fill1: "multi_fallback (RedisStore R Z) (cs_cache s) (cs_heap s) f (give_many kt t kvs) kt t t
        (map_val kt t m) (map fst kvs) ttl = Done (((cs_cache s)\<lparr>c_store := r1\<rparr>, h1), None)"
      "frame {m} (cs_heap s) h1"
    and at: "\<And>x. map_at h1 m x = (case map_of kvs x of None \<Rightarrow> map_at (cs_heap s) m x | Some v \<Rightarrow> Some v)"
    and stored: "\<And>key b. look r1 key = Some b \<Longrightarrow> look (c_store (cs_cache s)) key = Some b \<or>
         (\<exists>x v. (x, v) \<in> set kvs \<and> f x = key \<and> b = enc v)"
    using ok by (auto elim: fill_many [where c = "cs_cache s" and h = "cs_heap s" and m = m and f = f
          and missing = "map fst kvs" and ttl = ttl])
  have s1: "s1 = s\<lparr>cs_cache := (cs_cache s)\<lparr>c_store := r1\<rparr>, cs_heap := h1,
      cs_gathering := remove1 ?g (cs_gathering s), cs_answers := told_many f ids m h1\<rparr>"
    using step mem fill1(1) by simp
  have "entry_in V key (c_store (cs_cache s))" using key by (simp add: within_def)
  then have entry: "entry_in V key r1"
    by (rule entry_in_many [where kvs = kvs and f = f]) (use stored v in blast)+
  have d: "distinct (map gather_map (remove1 ?g (cs_gathering s)))" "\<forall>x \<in> set (remove1 ?g (cs_gathering s)). gather_map x \<notin> {m}"
    using wf mem distinct_remove1_maps [of gather_map "cs_gathering s" ?g] by (auto simp: cs_wf_def)
  have u: "cs_wf s1 \<and> gathered key (cs_heap s1) (cs_gathering s1) \<subseteq> gathered key (cs_heap s) (cs_gathering s)"
    by (rule wf_frame [OF wf, of "{m}"]) (use fill1(2) d in \<open>auto simp: s1 set_remove1_subset\<close>)
  then have "within key V s1" using key V entry by (auto simp: s1 within_def pending_def)
  moreover have "w \<in> V" if "map_at h1 m x = Some w" "x \<in> set ids" "f x = key" for x w
  proof (cases "map_of kvs x")
    case None
    with that at pending_ok [OF inv key pending_gatherD [OF mem disjI2 [OF conjI [OF that(2)]]]] show ?thesis by simp
  next
    case (Some w')
    with that at v(2) [OF map_of_SomeD [OF Some]] show ?thesis by simp
  qed
  ultimately show ?thesis using u by (auto simp: s1 keeps_def told_many_iff)
qed

lemma delete_step:
  assumes step: "cs_step (RedisStore R Z) take_av rit t ttl s e = Some s1"
    and e: "e \<in> {EvictKey k, EvictIds ys f, RefreshBegin k, RefreshManyBegin kt ids f}"
  obtains r1 err where "evict_call (RedisStore R Z) s e = Done (((cs_cache s)\<lparr>c_store := r1\<rparr>, cs_heap s), err)"
    "look r1 \<subseteq>\<^sub>m look (c_store (cs_cache s))" "err = None \<Longrightarrow> key \<in> set (deleted_by e) \<Longrightarrow> look r1 key = None"
    "c_store (cs_cache s1) = r1" "cs_heap s1 = cs_heap s" "cs_db s1 = cs_db s" "cs_answers s1 = []"
    "cs_filling s1 = cs_filling s" "cs_gathering s1 = cs_gathering s"
    "\<forall>x \<in> set (cs_renewing s1). x \<in> set (cs_renewing s) \<or> cs_db s (fst x) = Some (snd x)"
    "\<forall>x \<in> set (cs_many s1). x \<in> set (cs_many s) \<or> many_values key x \<subseteq> {v. cs_db s key = Some v}"
proof -
  obtain r1 err where d: "evict_call (RedisStore R Z) s e = Done (((cs_cache s)\<lparr>c_store := r1\<rparr>, cs_heap s), err)"
    "look r1 \<subseteq>\<^sub>m look (c_store (cs_cache s))" "err = None \<Longrightarrow> key \<in> set (deleted_by e) \<Longrightarrow> look r1 key = None"
    by (rule evict [where s = s and e = e and key = key]) blast
  let ?s = "s\<lparr>cs_cache := (cs_cache s)\<lparr>c_store := r1\<rparr>, cs_answers := []\<rparr>"
  consider "s1 = ?s" | v where "cs_db s k = Some v" "s1 = ?s\<lparr>cs_renewing := (k, v) # cs_renewing s\<rparr>"
    | "s1 = ?s\<lparr>cs_many := (kt, f, read_many (cs_db s) f ids) # cs_many s\<rparr>"
    using step e d(1) by (auto simp: Let_def split: option.splits if_splits)
  then show thesis
  proof cases
    case 3
    with d show thesis by (intro that [OF d]) (auto dest: read_many_db)
  qed (use d in \<open>intro that [OF d]; simp\<close>)+
qed

lemma delete_keeps:
  assumes inv: "cs_inv s" and key: "within key V s" and step: "cs_step (RedisStore R Z) take_av rit t ttl s e = Some s1"
    and e: "e \<in> {EvictKey k, EvictIds ys f, RefreshBegin k, RefreshManyBegin kt ids f}"
  shows "keeps key V s1"
proof -
  from step e obtain r1 where d: "look r1 \<subseteq>\<^sub>m look (c_store (cs_cache s))" "c_store (cs_cache s1) = r1"
      "cs_heap s1 = cs_heap s" "cs_db s1 = cs_db s" "cs_answers s1 = []" "cs_filling s1 = cs_filling s"
      "cs_gathering s1 = cs_gathering s"
      "\<forall>x \<in> set (cs_renewing s1). x \<in> set (cs_renewing s) \<or> cs_db s (fst x) = Some (snd x)"
      "\<forall>x \<in> set (cs_many s1). x \<in> set (cs_many s) \<or> many_values key x \<subseteq> {v. cs_db s key = Some v}"
    by (rule delete_step [where key = key]) blast
  have db: "{v. cs_db s key = Some v} \<subseteq> V" using key by (auto simp: within_def)
  have "entry_in V key r1" using key entry_in_less [OF _ d(1)] by (auto simp: within_def)
  with d(2-7) show ?thesis
    by (intro keepsI [OF inv key]) (use d(8,9) db in \<open>simp_all\<close>, fastforce, blast)
qed

text \<open>A delete that succeeds leaves only what the database has and what is on its way.\<close>

lemma delete_success:
  assumes inv: "cs_inv s" and step: "cs_step (RedisStore R Z) take_av rit t ttl s e = Some s1"
    and e: "key \<in> set (deleted_by e)" and ok: "evict_call (RedisStore R Z) s e = Done (ch, None)"
  shows "within key ({v. cs_db s key = Some v} \<union> pending key s) s1 \<and> cs_answers s1 = [] \<and> cs_db s1 = cs_db s"
proof -
  obtain k ys f kt ids where "e \<in> {EvictKey k, EvictIds ys f, RefreshBegin k, RefreshManyBegin kt ids f}"
    using e by (cases e) auto
  with step obtain r1 err where d: "evict_call (RedisStore R Z) s e = Done (((cs_cache s)\<lparr>c_store := r1\<rparr>, cs_heap s), err)"
      "err = None \<Longrightarrow> key \<in> set (deleted_by e) \<Longrightarrow> look r1 key = None" "c_store (cs_cache s1) = r1"
      "cs_heap s1 = cs_heap s" "cs_db s1 = cs_db s" "cs_answers s1 = []" "cs_filling s1 = cs_filling s"
      "cs_gathering s1 = cs_gathering s"
      "\<forall>x \<in> set (cs_renewing s1). x \<in> set (cs_renewing s) \<or> cs_db s (fst x) = Some (snd x)"
      "\<forall>x \<in> set (cs_many s1). x \<in> set (cs_many s) \<or> many_values key x \<subseteq> {v. cs_db s key = Some v}"
    by (rule delete_step [where key = key]) blast
  have "look r1 key = None" using d(1,2) e ok by simp
  moreover have "pending key s1 \<subseteq> {v. cs_db s key = Some v} \<union> pending key s"
  proof -
    let ?W = "{v. cs_db s key = Some v} \<union> pending key s"
    have "{v. \<exists>a. (key, v, a) \<in> set (cs_filling s1)} \<subseteq> ?W" using d(7) by (auto dest: pendingD)
    moreover have "{v. (key, v) \<in> set (cs_renewing s1)} \<subseteq> ?W"
      using d(9) pendingD(2) [of key _ s] by fastforce
    moreover have "many_values key x \<subseteq> ?W" if "x \<in> set (cs_many s1)" for x
      using bspec [OF d(10) that] unfolding pending_def promised_def by blast
    then have "promised key (cs_many s1) \<subseteq> ?W" unfolding promised_def by blast
    moreover have "gathered key (cs_heap s1) (cs_gathering s1) \<subseteq> ?W"
      using d(4,8) by (auto simp: pending_def)
    ultimately show ?thesis unfolding pending_def [of key s1] by (intro Un_least)
  qed
  ultimately show ?thesis using d(3,5,6) by (auto simp: within_def entry_in_def)
qed

text \<open>Any step.\<close>

lemma keeps_Un: "keeps key V s1 \<Longrightarrow> within key (V \<union> V') s1 \<and> cs_wf s1 \<and> (\<forall>v. (key, v) \<in> set (cs_answers s1) \<longrightarrow> v \<in> V)"
  by (simp add: keeps_def within_Un)

lemma step_within:
  assumes inv: "cs_inv s" and key: "within key V s" and step: "cs_step (RedisStore R Z) take_av rit t ttl s e = Some s1"
  shows "within key (V \<union> {v. e = Write key (Some v)}) s1 \<and> cs_wf s1 \<and> (\<forall>v. (key, v) \<in> set (cs_answers s1) \<longrightarrow> v \<in> V)"
proof (cases e)
  case (Write k v)
  with step have s1: "s1 = s\<lparr>cs_db := (cs_db s)(k := v), cs_answers := []\<rparr>" by (auto split: if_splits)
  then have "cs_wf s1" using inv by (simp add: cs_inv_def cs_wf_def)
  with s1 Write within_Un [OF key, of "{v. e = Write key (Some v)}"] show ?thesis
    by (auto simp: within_def pending_def)
next
  case (GetBegin k a)
  show ?thesis by (rule keeps_Un [OF get_begin_step [OF inv key step [unfolded GetBegin]]])
next
  case (GetEnd x)
  obtain k v a where x: "x = (k, v, a)" by (rule prod_cases3)
  show ?thesis by (rule keeps_Un [OF get_end_step [OF inv key step [unfolded GetEnd x]]])
next
  case (EvictKey k)
  show ?thesis by (rule keeps_Un [OF delete_keeps [OF inv key step, of k]]) (simp add: EvictKey)
next
  case (EvictIds ys f)
  show ?thesis by (rule keeps_Un [OF delete_keeps [OF inv key step, of _ ys f]]) (simp add: EvictIds)
next
  case (RefreshBegin k)
  show ?thesis by (rule keeps_Un [OF delete_keeps [OF inv key step, of k]]) (simp add: RefreshBegin)
next
  case (RefreshEnd x)
  obtain k v where x: "x = (k, v)" by fastforce
  show ?thesis by (rule keeps_Un [OF refresh_end_step [OF inv key step [unfolded RefreshEnd x]]])
next
  case (RefreshManyBegin kt ids f)
  show ?thesis by (rule keeps_Un [OF delete_keeps [OF inv key step, of _ _ f kt ids]]) (simp add: RefreshManyBegin)
next
  case (RefreshManyEnd x)
  obtain kt f kvs where x: "x = (kt, f, kvs)" by (rule prod_cases3)
  show ?thesis by (rule keeps_Un [OF refresh_many_end_step [OF inv key step [unfolded RefreshManyEnd x]]])
next
  case (GetManyBegin kt ids f m)
  show ?thesis by (rule keeps_Un [OF get_many_begin_step [OF inv key step [unfolded GetManyBegin]]])
next
  case (GetManyEnd x)
  obtain kt f ids m kvs where x: "x = (kt, f, ids, m, kvs)" by (metis prod.collapse)
  show ?thesis by (rule keeps_Un [OF get_many_end_step [OF inv key step [unfolded GetManyEnd x]]])
qed

lemma step_inv:
  assumes inv: "cs_inv s" and step: "cs_step (RedisStore R Z) take_av rit t ttl s e = Some s1"
  shows "cs_inv s1"
proof -
  have "{v. e = Write key (Some v)} \<subseteq> Collect (of_type t)" for key
    using step by (auto split: if_splits)
  then have "within key (Collect (of_type t)) s1 \<and> cs_wf s1" for key
    using step_within [OF inv _ step, of key "Collect (of_type t)"] inv
    by (metis cs_inv_def sup.absorb1)
  then show ?thesis by (simp add: cs_inv_def)
qed

lemma run_within:
  assumes "cs_inv s" and "within key V s" and "\<forall>v. (key, v) \<in> set (cs_answers s) \<longrightarrow> v \<in> V"
    and "run (cs_step (RedisStore R Z) take_av rit t ttl) s es = Some s1"
  shows "within key (V \<union> {v. Write key (Some v) \<in> set es}) s1 \<and>
    (\<forall>v. (key, v) \<in> set (cs_answers s1) \<longrightarrow> v \<in> V \<union> {v. Write key (Some v) \<in> set es})"
  using assms
proof (induction es arbitrary: s V)
  case (Cons e es)
  then obtain u where u: "cs_step (RedisStore R Z) take_av rit t ttl s e = Some u"
      "run (cs_step (RedisStore R Z) take_av rit t ttl) u es = Some s1"
    by (auto split: option.splits)
  note w = step_within [OF Cons.prems(1,2) u(1)]
  have "\<forall>v. (key, v) \<in> set (cs_answers u) \<longrightarrow> v \<in> V \<union> {v. e = Write key (Some v)}" using w by blast
  from Cons.IH [OF step_inv [OF Cons.prems(1) u(1)] _ this u(2)] w
  have IH: "within key (V \<union> {v. e = Write key (Some v)} \<union> {v. Write key (Some v) \<in> set es}) s1 \<and>
    (\<forall>v. (key, v) \<in> set (cs_answers s1) \<longrightarrow> v \<in> V \<union> {v. e = Write key (Some v)} \<union> {v. Write key (Some v) \<in> set es})"
    by blast
  have "V \<union> {v. e = Write key (Some v)} \<union> {v. Write key (Some v) \<in> set es}
      = V \<union> {v. Write key (Some v) \<in> set (e # es)}" by auto
  with IH show ?case by simp
qed auto

lemma init_inv: "cs_init look enc t s \<Longrightarrow> cs_inv s"
  by (auto simp: cs_init_def cs_inv_def cs_wf_def within_def entry_in_def pending_def ran_def)

text \<open>The database where nothing is written.\<close>

lemma db_kept:
  assumes "cs_step S take_av rit t' ttl s e = Some s1" and "\<forall>v. e \<noteq> Write key v"
  shows "cs_db s1 key = cs_db s key"
  using assms by (cases e) (auto simp: Let_def split: if_splits outcome.splits prod.splits lookup.splits option.splits)

lemma run_db_kept:
  "run (cs_step S take_av rit t' ttl) s es = Some s1 \<Longrightarrow> \<forall>v. Write key v \<notin> set es \<Longrightarrow> cs_db s1 key = cs_db s key"
proof (induction es arbitrary: s)
  case (Cons e es)
  then obtain u where u: "cs_step S take_av rit t' ttl s e = Some u" "run (cs_step S take_av rit t' ttl) u es = Some s1"
    by (auto split: option.splits)
  have "\<forall>v. e \<noteq> Write key v" using Cons.prems(2) by (metis list.set_intros(1))
  then have "cs_db u key = cs_db s key" by (rule db_kept [OF u(1)])
  with Cons.IH [OF u(2)] Cons.prems(2) show ?case by simp
qed simp

end

sublocale lossy_redis \<subseteq> coherent: inv_system "cs_init look enc t" "cs_step (RedisStore R Z) take_av rit t ttl" cs_inv
  for take_av rit ttl
  by unfold_locales (rule init_inv step_inv, assumption+)+

context lossy_redis
begin

lemmas reach_inv = coherent.reach_inv

end

section \<open>An instance\<close>

text \<open>The serializer of numbers with a sign, which looks through pointers.\<close>

definition deref_serializer :: serializer where
  "deref_serializer =
     \<lparr>sz_decode = sz_decode signed_serializer,
      sz_encode = (\<lambda>h v. Inr (signed_text (case Indirect h (ValueOf v) of RVal u w a \<Rightarrow> w | _ \<Rightarrow> v)))\<rparr>"

lemma deref_codec: "codec_through deref_serializer TInt signed_text"
proof -
  have "codec_of deref_serializer TInt signed_text"
    using signed_codec by (auto simp: codec_of_def deref_serializer_def Indirect_of_type)
  then show ?thesis by (simp add: codec_through_def deref_serializer_def)
qed

lemma map_redis_exec:
  "foldl (\<lambda>r cmd. case cmd of CmdSet k b ttl \<Rightarrow> r(k \<mapsto> b) | CmdExists k \<Rightarrow> r) r cmds key = Some b \<Longrightarrow>
     r key = Some b \<or> (\<exists>ttl. CmdSet key b ttl \<in> set cmds)"
proof (induction cmds arbitrary: r)
  case (Cons cmd cmds)
  then show ?case by (cases cmd) (fastforce split: if_splits)+
qed simp

lemma map_redis_lossy: "redis_lossy map_redis (\<lambda>r. r)"
  unfolding redis_lossy_def
proof (intro conjI)
  show "\<forall>r keys r1 x. rd_MGet map_redis r keys = (r1, x) \<longrightarrow> r1 \<subseteq>\<^sub>m r \<and>
      (\<forall>vals. x = Inr vals \<longrightarrow> (\<forall>(key, b) \<in> set (zip keys vals). b \<noteq> None \<longrightarrow> r key = b))"
    by (auto simp: map_redis_def set_zip)
  show "\<forall>r cmds r1 ns e key b. rd_Exec map_redis r cmds = (r1, ns, e) \<longrightarrow> r1 key = Some b \<longrightarrow>
      r key = Some b \<or> (\<exists>ttl. CmdSet key b ttl \<in> set cmds)"
    using map_redis_exec by (auto simp: map_redis_def)
qed (auto simp: map_redis_def map_le_def split: option.splits)

interpretation lossy_ints: lossy_redis map_redis "\<lambda>r. r" deref_serializer TInt signed_text
  by unfold_locales (rule map_redis_lossy deref_codec)+

section \<open>Properties\<close>

text \<open>
  C20. Bounded staleness. Let any number of goroutines call \<open>Get\<close>, \<open>GetMulti\<close>, \<open>Evict\<close>, \<open>EvictMulti\<close>, \<open>Refresh\<close>
  and \<open>RefreshMulti\<close> on one cache over a redis that may lose entries and fail at any command, while the
  database is written. After an \<open>Evict\<close> or \<open>EvictMulti\<close> of a key (or the delete that begins a \<open>Refresh\<close>
  or a \<open>RefreshMulti\<close>) has succeeded, a \<open>Get\<close> or \<open>GetMulti\<close> of
  that key returns only a value that the database had then or was given since, or one that a call
  under way then had read, from the database or the store, and had not stored or returned yet. If there is no such call and the key is not
  written again, it returns exactly what the database has.
\<close>

theorem cache_get_bounded_staleness:
  assumes "redis_lossy R look" and "codec_through Z t enc"
    and "reach (cs_init look enc t) (cs_step (RedisStore R Z) take_av rit t ttl) s"
    and "cs_step (RedisStore R Z) take_av rit t ttl s e = Some s1" and "key \<in> set (deleted_by e)"
    and "evict_call (RedisStore R Z) s e = Done (ch, None)"
    and "run (cs_step (RedisStore R Z) take_av rit t ttl) s1 es = Some s2" and "(key, v) \<in> set (cs_answers s2)"
  shows "(cs_db s key = Some v \<or> v \<in> pending key s \<or> Write key (Some v) \<in> set es) \<and>
    (pending key s = {} \<and> (\<forall>x. Write key x \<notin> set es) \<longrightarrow> cs_db s2 key = Some v)"
proof -
  have L: "lossy_redis R look Z t enc" using assms(1,2) by (rule lossy_redis.intro)
  note inv = lossy_redis.reach_inv [OF L assms(3)]
  note del = lossy_redis.delete_success [OF L inv assms(4-6)]
  have "v \<in> {v. cs_db s key = Some v} \<union> pending key s \<union> {v. Write key (Some v) \<in> set es}"
    using lossy_redis.run_within [OF L lossy_redis.step_inv [OF L inv assms(4)] _ _ assms(7)] del assms(8) by auto
  moreover have "cs_db s2 key = cs_db s key" if "\<forall>x. Write key x \<notin> set es"
    using lossy_redis.run_db_kept [OF L assms(7) that] del by simp
  ultimately show ?thesis by auto
qed

text \<open>A heap with an empty map for the ids of a \<open>GetMulti\<close>.\<close>

definition busy_heap :: heap where
  "busy_heap = int_heap\<lparr>h_maps := [1 \<mapsto> []]\<rparr>"

definition busy_cache :: "((string \<rightharpoonup> bytes), nat) coherence" where
  "busy_cache = \<lparr>cs_cache = redis_cache, cs_heap = busy_heap, cs_db = [''k'' \<mapsto> VInt 1], cs_filling = [],
     cs_renewing = [], cs_many = [], cs_gathering = [], cs_answers = []\<rparr>"

definition busy_events :: "cache_event list" where
  "busy_events = [GetBegin ''k'' 0, GetEnd (''k'', VInt 1, 0), Write ''k'' (Some (VInt 2))]"

definition busy_ids :: goval where
  "busy_ids = VSlice TInt [VInt 7, VInt 8]"

definition busy_key :: "goval \<Rightarrow> string" where
  "busy_key x = (if x = VInt 7 then ''k'' else ''other'')"

abbreviation busy_step :: "((string \<rightharpoonup> bytes), nat) coherence \<Rightarrow> cache_event \<Rightarrow> ((string \<rightharpoonup> bytes), nat) coherence option" where
  "busy_step \<equiv> cs_step (RedisStore map_redis deref_serializer) no_tokens strip_pointers TInt 60"

lemmas busy_defs = RedisStore_def redis_Get_def redis_Set_def redis_Delete_def map_redis_def deref_serializer_def
  get_lookup_def cache_fallback_def cache_Evict_def on_store_def TypeOf_def ValueOf_def nil_result_def rSet_def
  told_def busy_ids_def busy_key_def of_type_def signed_text_def unsigned_text_def set_cell_def signed_serializer_def

lemmas busy_multi_defs = getmulti_lookup_def redis_GetMulti_def MakeMap_def revert_key_def revert_keys_def id_of_type_def
  MapIndex_def map_entries_def rAppend_def multi_fallback_def give_many_def MapKeys_def SetMapIndex_def read_many_def
  map_filter_simps redis_SetMulti_def told_many_def map_at_def

lemma busy_prefix:
  obtains s where "run busy_step busy_cache busy_events = Some s" "pending ''k'' s = {}"
    "c_store (cs_cache s) = [''k'' \<mapsto> ''1'']" "cs_db s = [''k'' \<mapsto> VInt 2]" "cs_heap s = set_cell 0 (VInt 1) busy_heap"
    "cs_filling s = []" "cs_renewing s = []" "cs_many s = []" "cs_gathering s = []"
  by (simp add: busy_events_def busy_cache_def redis_cache_def busy_heap_def int_heap_def busy_defs pending_def Indirect_def)

theorem cache_get_bounded_staleness_witness:
  "\<exists>s s1 s2. run busy_step busy_cache busy_events = Some s \<and> busy_step s (EvictIds busy_ids busy_key) = Some s1 \<and>
     run busy_step s1 [GetManyBegin TInt [VInt 7, VInt 8] busy_key 1,
        GetManyEnd (TInt, busy_key, [VInt 7, VInt 8], 1, [(VInt 7, VInt 2)])] = Some s2 \<and>
     cs_answers s2 = [(''k'', VInt 2)] \<and> cs_db s2 ''k'' = Some (VInt 2)"
proof -
  obtain s where s: "run busy_step busy_cache busy_events = Some s" "pending ''k'' s = {}"
    "c_store (cs_cache s) = [''k'' \<mapsto> ''1'']" "cs_db s = [''k'' \<mapsto> VInt 2]" "cs_heap s = set_cell 0 (VInt 1) busy_heap"
    "cs_filling s = []" "cs_renewing s = []" "cs_many s = []" "cs_gathering s = []"
    by (rule busy_prefix)
  have init: "cs_init (\<lambda>r. r) signed_text TInt busy_cache"
    by (simp add: cs_init_def busy_cache_def redis_cache_def of_type_def)
  have r: "reach (cs_init (\<lambda>r. r) signed_text TInt) busy_step s"
    by (rule run_from_init [where s = busy_cache, OF _ s(1)]) (rule init)
  obtain ch where ev: "evict_call (RedisStore map_redis deref_serializer) s (EvictIds busy_ids busy_key) = Done (ch, None)"
    by (simp add: busy_defs cache_EvictMulti_def)
  have k: "''k'' \<in> set (deleted_by (EvictIds busy_ids busy_key))"
    by (simp add: busy_defs)
  obtain s1 where s1: "busy_step s (EvictIds busy_ids busy_key) = Some s1" "c_store (cs_cache s1) = Map.empty"
      "cs_db s1 = [''k'' \<mapsto> VInt 2]" "cs_heap s1 = set_cell 0 (VInt 1) busy_heap" "cs_filling s1 = []" "cs_gathering s1 = []"
    using s(3-) by (simp add: busy_defs cache_EvictMulti_def fun_eq_iff)
  obtain s2 where s2: "run busy_step s1 [GetManyBegin TInt [VInt 7, VInt 8] busy_key 1,
        GetManyEnd (TInt, busy_key, [VInt 7, VInt 8], 1, [(VInt 7, VInt 2)])] = Some s2"
      "cs_answers s2 = [(''k'', VInt 2)]"
    using s1(2-) by (simp add: busy_heap_def int_heap_def busy_defs busy_multi_defs Indirect_def)
  have "cs_db s2 ''k'' = Some (VInt 2)"
    using cache_get_bounded_staleness [OF map_redis_lossy deref_codec r s1(1) k ev s2(1)] s2(2) s(2) by simp
  with s(1) s1(1) s2 show ?thesis by blast
qed

text \<open>
  C21. The race. The bound is reached: take any server that loses nothing and a key that is not cached.
  A \<open>Get\<close> reads the old value from the database; the value is changed and, as it should be, the key is
  evicted; then the \<open>Get\<close> stores what it has read. From then on the cache serves the old value: the
  next \<open>Get\<close> returns it though the \<open>Evict\<close> after the change has succeeded.
\<close>

theorem cache_evict_race_stale:
  assumes "redis_map R look" and "codec_through Z t enc" and "look (c_store (cs_cache s)) key = None"
    and "cs_db s key = Some v0" and "of_type t v0" and "of_type t v1" and "h_cells (cs_heap s) a \<noteq> None"
  shows "\<exists>s2. run (cs_step (RedisStore R Z) take_av rit t ttl) s
      [GetBegin key a, Write key (Some v1), EvictKey key, GetEnd (key, v0, a), GetBegin key a] = Some s2 \<and>
    cs_answers s2 = [(key, v0)] \<and> cs_db s2 key = Some v1"
proof -
  let ?S = "RedisStore R Z" and ?c = "cs_cache s" and ?h = "cs_heap s"
  let ?h1 = "set_cell a v0 ?h"
  have plain: "kind_of t \<noteq> KPtr" and codec: "codec_of Z t enc"
    using assms(2) by (simp_all add: codec_through_def)
  obtain old where old: "h_cells ?h a = Some old" using assms(7) by blast
  obtain r1 where r1: "rd_Get R (c_store ?c) key = (r1, Inl RedisNil)" "look r1 = look (c_store ?c)"
  proof (rule that)
    have law: "look (fst (rd_Get R (c_store ?c) key)) = look (c_store ?c) \<and>
        snd (rd_Get R (c_store ?c) key) = (case look (c_store ?c) key of None \<Rightarrow> Inl RedisNil | Some b \<Rightarrow> Inr b)"
      using assms(1) unfolding redis_map_def by blast
    then show "look (fst (rd_Get R (c_store ?c) key)) = look (c_store ?c)" by blast
    from law assms(3) have "snd (rd_Get R (c_store ?c) key) = Inl RedisNil" by simp
    then show "rd_Get R (c_store ?c) key = (fst (rd_Get R (c_store ?c) key), Inl RedisNil)"
      by (metis prod.collapse)
  qed
  obtain r2 where r2: "rd_Del R r1 [key] = (r2, None)" using assms(1) unfolding redis_map_def by blast
  obtain r3 where r3: "rd_Set R r2 key (enc v0) ttl = (r3, None)" "look r3 = (look r2)(key \<mapsto> enc v0)"
    using assms(1) unfolding redis_map_def by blast
  obtain r4 x where r4: "rd_Get R r3 key = (r4, x)" by fastforce
  have "snd (rd_Get R r3 key) = (case look r3 key of None \<Rightarrow> Inl RedisNil | Some b \<Rightarrow> Inr b)"
    using assms(1) unfolding redis_map_def by blast
  with r4 r3(2) have x: "x = Inr (enc v0)" by simp
  have "h_cells ?h1 a = Some v0" by (simp add: set_cell_def)
  then have enc: "sz_encode Z ?h1 (VPtr t (Some a)) = Inr (enc v0)"
    using assms(2,5) unfolding codec_through_def by blast
  have dec: "sz_decode Z ?h1 (enc v0) (VPtr t (Some a)) = (?h1, None)"
  proof -
    have "h_cells ?h1 a \<noteq> None" by (simp add: set_cell_def)
    then have "sz_decode Z ?h1 (enc v0) (VPtr t (Some a)) = (set_cell a v0 ?h1, None)"
      using codec assms(5) unfolding codec_of_def by blast
    then show ?thesis by (simp add: set_cell_def)
  qed
  have 1: "get_lookup ?S take_av ?c ?h key (VPtr t (Some a)) = Done ((?c\<lparr>c_store := r1\<rparr>, ?h), Missed)"
    using r1(1) by (simp add: get_lookup_def on_store_def RedisStore_def redis_Get_def TypeOf_def ValueOf_def)
  have 2: "cache_Evict ?S (?c\<lparr>c_store := r1\<rparr>) ?h key = Done ((?c\<lparr>c_store := r2\<rparr>, ?h), None)"
    using r2 by (simp add: cache_Evict_def on_store_def RedisStore_def redis_Delete_def)
  have 3: "cache_fallback ?S rit (?c\<lparr>c_store := r2\<rparr>) ?h key (\<lambda>h. (h, Inr v0)) (VPtr t (Some a)) ttl
      = Done ((?c\<lparr>c_store := r3\<rparr>, ?h1), None)"
    using assms(5) r3(1) enc plain old
    by (simp add: cache_fallback_def nil_result_of_type ValueOf_of_type rSet_def on_store_def RedisStore_def
        redis_Set_def set_cell_def Let_def)
  have 4: "get_lookup ?S take_av (?c\<lparr>c_store := r3\<rparr>) ?h1 key (VPtr t (Some a)) = Done ((?c\<lparr>c_store := r4\<rparr>, ?h1), Hit)"
    using r4 x dec by (simp add: get_lookup_def on_store_def RedisStore_def redis_Get_def TypeOf_def ValueOf_def)
  show ?thesis using assms(4,6) old by (simp add: 1 2 3 4 told_def set_cell_apply)
qed

theorem cache_evict_race_stale_witness:
  "\<exists>s2. run busy_step busy_cache [GetBegin ''k'' 0, Write ''k'' (Some (VInt 2)), EvictKey ''k'',
        GetEnd (''k'', VInt 1, 0), GetBegin ''k'' 0] = Some s2 \<and>
     cs_answers s2 = [(''k'', VInt 1)] \<and> cs_db s2 ''k'' = Some (VInt 2)"
  by (rule cache_evict_race_stale [OF map_redis_map deref_codec])
    (simp_all add: busy_cache_def redis_cache_def busy_heap_def int_heap_def of_type_def)

end
