(* ===== verification/Watchdog.thy ===== *)
theory Watchdog
  imports Prelude
begin

text \<open>
  The distributed lock of package watchdog (src/watchdog): \<open>Lock\<close>, \<open>Unlock\<close>, and the goroutine that
  \<open>Watch\<close> starts to renew the key's lifetime. The redis commands are arguments.
\<close>

section \<open>State\<close>

text \<open>
  A context made by \<open>WithCancel\<close> is a number. The world around the lock objects holds the redis
  server, the contexts that have been cancelled, and the running watchers: the context, key and
  lifetime each was started with.
\<close>

record 'r wd_ops =
  wd_SetNX :: "'r \<Rightarrow> string \<Rightarrow> string \<Rightarrow> int \<Rightarrow> 'r \<times> bool \<times> string option"
  wd_Del :: "'r \<Rightarrow> string \<Rightarrow> 'r \<times> string option"
  wd_Expire :: "'r \<Rightarrow> string \<Rightarrow> int \<Rightarrow> 'r \<times> bool \<times> string option"

text \<open>\<open>wd_client\<close>: the field \<open>rds\<close> is not nil. \<open>wd_cancel\<close>: the context the stored \<open>cancel\<close> cancels.\<close>

record watchdog =
  wd_client :: bool
  wd_cancel :: "nat option"

record 'r wd_world =
  ww_redis :: 'r
  ww_cancelled :: "nat list"
  ww_watchers :: "(nat \<times> string \<times> int) list"
  ww_next :: nat

definition NewWatchDog :: watchdog where
  "NewWatchDog = \<lparr>wd_client = False, wd_cancel = None\<rparr>"

section \<open>Operations\<close>

text \<open>
  \<open>Watch\<close> starts a goroutine, which first makes a ticker of a seventh of the lifetime; \<open>NewTicker\<close>
  panics when that is not positive. The quotient is Go's, which truncates.
\<close>

definition wd_Watch :: "nat \<Rightarrow> string \<Rightarrow> int \<Rightarrow> 'r wd_world \<Rightarrow> 'r wd_world outcome" where
  "wd_Watch ctx k dur w =
     (if (if dur < 0 then - ((- dur) div 7) else dur div 7) \<le> 0
      then Panic ''non-positive interval for NewTicker''
      else Done (w\<lparr>ww_watchers := (ctx, k, dur) # ww_watchers w\<rparr>))"

definition nil_client :: "'a outcome" where
  "nil_client = Panic ''invalid memory address or nil pointer dereference''"

definition wd_Lock ::
  "'r wd_ops \<Rightarrow> watchdog \<Rightarrow> 'r wd_world \<Rightarrow> string \<Rightarrow> string \<Rightarrow> int \<Rightarrow>
     ((watchdog \<times> 'r wd_world) \<times> string option) outcome" where
  "wd_Lock R d w k v dur =
     (if \<not> wd_client d then nil_client
      else
        let (r1, val, err) = wd_SetNX R (ww_redis w) k v dur; w1 = w\<lparr>ww_redis := r1\<rparr>
        in if err \<noteq> None \<or> \<not> val then Done ((d, w1), err)
           else
             let c = ww_next w1; d1 = d\<lparr>wd_cancel := Some c\<rparr>; w2 = w1\<lparr>ww_next := Suc c\<rparr>
             in obind (wd_Watch c k dur w2) (\<lambda>w3. Done ((d1, w3), None)))"

definition wd_Unlock ::
  "'r wd_ops \<Rightarrow> watchdog \<Rightarrow> 'r wd_world \<Rightarrow> string \<Rightarrow> ((watchdog \<times> 'r wd_world) \<times> string option) outcome" where
  "wd_Unlock R d w k =
     (let w1 = (case wd_cancel d of
          None \<Rightarrow> w | Some c \<Rightarrow> w\<lparr>ww_cancelled := c # ww_cancelled w\<rparr>)
      in if \<not> wd_client d then nil_client
         else let (r1, err) = wd_Del R (ww_redis w1) k in Done ((d, w1\<lparr>ww_redis := r1\<rparr>), err))"

text \<open>
  One turn of a watcher's loop: a cancelled context or a failed renewal ends it. Where context and
  tick are both ready, \<open>select\<close> may choose either: \<open>ticks\<close> says which it takes.
\<close>

definition wd_turn ::
  "'r wd_ops \<Rightarrow> bool \<Rightarrow> (nat \<times> string \<times> int) \<Rightarrow> 'r wd_world \<Rightarrow> 'r wd_world" where
  "wd_turn R ticks x w =
     (case x of (ctx, k, dur) \<Rightarrow>
        if ctx \<in> set (ww_cancelled w) \<and> \<not> ticks
        then w\<lparr>ww_watchers := remove1 x (ww_watchers w)\<rparr>
        else
          let (r1, val, err) = wd_Expire R (ww_redis w) k dur; w1 = w\<lparr>ww_redis := r1\<rparr>
          in if err \<noteq> None \<or> \<not> val then w1\<lparr>ww_watchers := remove1 x (ww_watchers w1)\<rparr> else w1)"

section \<open>What redis promises\<close>

text \<open>\<open>present r k\<close>: the server holds the key. \<open>SETNX\<close> sets an absent key and leaves a present one.\<close>

definition wd_law :: "'r wd_ops \<Rightarrow> ('r \<Rightarrow> string \<Rightarrow> bool) \<Rightarrow> bool" where
  "wd_law R present \<longleftrightarrow>
     (\<forall>r k v dur. \<exists>r1. wd_SetNX R r k v dur = (r1, \<not> present r k, None) \<and>
        (\<forall>j. present r1 j \<longleftrightarrow> present r j \<or> j = k)) \<and>
     (\<forall>r k. \<exists>r1. wd_Del R r k = (r1, None) \<and> (\<forall>j. present r1 j \<longleftrightarrow> present r j \<and> j \<noteq> k)) \<and>
     (\<forall>r k dur. \<exists>r1. wd_Expire R r k dur = (r1, present r k, None) \<and>
        (\<forall>j. present r1 j \<longleftrightarrow> present r j))"

definition set_redis :: "string set wd_ops" where
  "set_redis =
     \<lparr>wd_SetNX = (\<lambda>r k v dur. (insert k r, k \<notin> r, None)),
      wd_Del = (\<lambda>r k. (r - {k}, None)),
      wd_Expire = (\<lambda>r k dur. (r, k \<in> r, None))\<rparr>"

lemma set_redis_law: "wd_law set_redis (\<lambda>r k. k \<in> r)"
  by (auto simp: wd_law_def set_redis_def)

section \<open>Properties\<close>

text \<open>
  \<open>Lock\<close> does not exclude: when another holder has the key, \<open>SETNX\<close> reports false without an
  error and \<open>Lock\<close> returns a nil error, exactly as when it acquired the lock; it only starts no
  watcher. Two clients that lock the same key one after the other are both told they hold it.
\<close>

theorem lock_not_exclusive:
  assumes "wd_law R present" and "wd_client d1" and "wd_client d2" and "7 \<le> dur"
  shows "\<exists>d1' w1 w2. wd_Lock R d1 w k v1 dur = Done ((d1', w1), None) \<and>
    wd_Lock R d2 w1 k v2 dur = Done ((d2, w2), None) \<and>
    ww_watchers w2 = ww_watchers w1 \<and> present (ww_redis w2) k"
proof -
  obtain r1 where r1: "wd_SetNX R (ww_redis w) k v1 dur = (r1, \<not> present (ww_redis w) k, None)"
    "present r1 k"
    using assms(1) unfolding wd_law_def by metis
  obtain r2 where r2: "wd_SetNX R r1 k v2 dur = (r2, False, None)" "present r2 k"
    using assms(1) r1(2) unfolding wd_law_def by metis
  show ?thesis
  proof (cases "present (ww_redis w) k")
    case True
    then show ?thesis using r1 r2 assms(2,3) by (simp add: wd_Lock_def)
  next
    case False
    then show ?thesis using r1 r2 assms(2-4) by (simp add: wd_Lock_def wd_Watch_def Let_def)
  qed
qed

definition empty_world :: "string set wd_world" where
  "empty_world = \<lparr>ww_redis = {}, ww_cancelled = [], ww_watchers = [], ww_next = 0\<rparr>"

theorem lock_not_exclusive_witness:
  "\<exists>d1' w1 w2.
     wd_Lock set_redis \<lparr>wd_client = True, wd_cancel = None\<rparr> empty_world ''k'' ''a'' 70 = Done ((d1', w1), None) \<and>
     wd_Lock set_redis \<lparr>wd_client = True, wd_cancel = None\<rparr> w1 ''k'' ''b'' 70
       = Done ((\<lparr>wd_client = True, wd_cancel = None\<rparr>, w2), None)"
  using lock_not_exclusive [OF set_redis_law, of "\<lparr>wd_client = True, wd_cancel = None\<rparr>"
      "\<lparr>wd_client = True, wd_cancel = None\<rparr>" 70 empty_world "''k''" "''a''" "''b''"]
  by auto

text \<open>
  \<open>Unlock\<close> releases the wrong lock: it deletes the key whoever set it, so a client that never
  got the lock frees it for everyone, and the watcher of the real holder ends at its next tick
  although the holder has not unlocked.
\<close>

theorem unlock_frees_foreign_lock:
  assumes "wd_law R present" and "wd_client d" and "wd_cancel d = None"
    and "(c, k, dur) \<in> set (ww_watchers w)" and "c \<notin> set (ww_cancelled w)" and "distinct (ww_watchers w)"
  shows "\<exists>w1. wd_Unlock R d w k = Done ((d, w1), None) \<and> \<not> present (ww_redis w1) k \<and>
    c \<notin> set (ww_cancelled w1) \<and> (c, k, dur) \<notin> set (ww_watchers (wd_turn R ticks (c, k, dur) w1))"
proof -
  obtain r1 where r1: "wd_Del R (ww_redis w) k = (r1, None)" "\<not> present r1 k"
    using assms(1) unfolding wd_law_def by metis
  obtain r2 where r2: "wd_Expire R r1 k dur = (r2, False, None)"
    using assms(1) r1(2) unfolding wd_law_def by metis
  let ?w1 = "w\<lparr>ww_redis := r1\<rparr>"
  have "wd_Unlock R d w k = Done ((d, ?w1), None)" using assms(2,3) r1 by (simp add: wd_Unlock_def)
  moreover have "(c, k, dur) \<notin> set (ww_watchers (wd_turn R ticks (c, k, dur) ?w1))"
    using assms(5,6) r2 by (simp add: wd_turn_def set_remove1_eq)
  ultimately show ?thesis using r1(2) assms(5) by (intro exI [of _ ?w1]) simp
qed

theorem unlock_frees_foreign_lock_witness:
  "\<exists>w1. wd_Unlock set_redis \<lparr>wd_client = True, wd_cancel = None\<rparr>
      \<lparr>ww_redis = {''k''}, ww_cancelled = [], ww_watchers = [(0, ''k'', 70)], ww_next = 1\<rparr> ''k''
    = Done ((\<lparr>wd_client = True, wd_cancel = None\<rparr>, w1), None) \<and> ''k'' \<notin> ww_redis w1"
  using unlock_frees_foreign_lock [OF set_redis_law, of "\<lparr>wd_client = True, wd_cancel = None\<rparr>" 0
      "''k''" 70 "\<lparr>ww_redis = {''k''}, ww_cancelled = [], ww_watchers = [(0, ''k'', 70)], ww_next = 1\<rparr>"]
  by auto

text \<open>
  The lock that \<open>NewWatchDog\<close> makes cannot be used: it has no redis client, and there is no way
  to give it one, so \<open>Lock\<close> and \<open>Unlock\<close> panic.
\<close>

theorem new_watchdog_unusable:
  "wd_Lock R NewWatchDog w k v dur = Panic ''invalid memory address or nil pointer dereference'' \<and>
   wd_Unlock R NewWatchDog w k = Panic ''invalid memory address or nil pointer dereference''"
  by (simp add: wd_Lock_def wd_Unlock_def NewWatchDog_def nil_client_def Let_def)

end
