(* ===== verification/Watchdog_System.thy ===== *)
theory Watchdog_System
  imports Watchdog
begin

text \<open>
  Several lock objects of package watchdog at work on one redis server, with the clock of the server:
  when the lock excludes, and when it comes free. The steps are calls of \<open>Lock\<close> and \<open>Unlock\<close>, turns
  of the renewing goroutines, the cancellation of a context from outside, and the passing of time.
\<close>

section \<open>The server with a clock\<close>

text \<open>
  \<open>expires r k\<close> is the time at which the server drops the key, if it has it (the law is about a server
  that keeps only keys with a lifetime). Any command may fail, and then it may or may not have been
  carried out. The lifetimes are rounded by the client library, \<open>Expire\<close> to seconds: the law asks for
  at least half of the lifetime that was given.
\<close>

definition lasts :: "int \<Rightarrow> int \<Rightarrow> int \<Rightarrow> bool" where
  "lasts now dur e \<longleftrightarrow> now < e \<and> dur \<le> 2 * (e - now)"

definition setnx_law :: "'r wd_ops \<Rightarrow> ('r \<Rightarrow> string \<Rightarrow> int option) \<Rightarrow> ('r \<Rightarrow> int) \<Rightarrow> bool" where
  "setnx_law R expires clock \<longleftrightarrow> (\<forall>r k v dur r1 val err. 0 < dur \<longrightarrow> wd_SetNX R r k v dur = (r1, val, err) \<longrightarrow>
     clock r1 = clock r \<and> (err = None \<longrightarrow> val = (expires r k = None)) \<and>
     (expires r1 = expires r \<and> (err = None \<longrightarrow> \<not> val) \<or>
      expires r k = None \<and> (\<exists>e. lasts (clock r) dur e \<and> expires r1 = (expires r)(k \<mapsto> e))))"

definition del_law :: "'r wd_ops \<Rightarrow> ('r \<Rightarrow> string \<Rightarrow> int option) \<Rightarrow> ('r \<Rightarrow> int) \<Rightarrow> bool" where
  "del_law R expires clock \<longleftrightarrow> (\<forall>r k r1 err. wd_Del R r k = (r1, err) \<longrightarrow> clock r1 = clock r \<and>
     (expires r1 = (expires r)(k := None) \<or> err \<noteq> None \<and> expires r1 = expires r))"

definition expire_law :: "'r wd_ops \<Rightarrow> ('r \<Rightarrow> string \<Rightarrow> int option) \<Rightarrow> ('r \<Rightarrow> int) \<Rightarrow> bool" where
  "expire_law R expires clock \<longleftrightarrow> (\<forall>r k dur r1 val err. 0 < dur \<longrightarrow> wd_Expire R r k dur = (r1, val, err) \<longrightarrow>
     clock r1 = clock r \<and> (err = None \<longrightarrow> val = (expires r k \<noteq> None)) \<and>
     (expires r1 = expires r \<and> (err = None \<longrightarrow> \<not> val) \<or>
      expires r k \<noteq> None \<and> (\<exists>e. lasts (clock r) dur e \<and> expires r1 = (expires r)(k \<mapsto> e))))"

definition pass_law :: "('r \<Rightarrow> int \<Rightarrow> 'r) \<Rightarrow> ('r \<Rightarrow> string \<Rightarrow> int option) \<Rightarrow> ('r \<Rightarrow> int) \<Rightarrow> bool" where
  "pass_law Pass expires clock \<longleftrightarrow> (\<forall>r dt. 0 \<le> dt \<longrightarrow> clock (Pass r dt) = clock r + dt \<and>
     (\<forall>k. expires (Pass r dt) k =
        (case expires r k of None \<Rightarrow> None | Some e \<Rightarrow> if e \<le> clock r + dt then None else Some e)))"

section \<open>The system\<close>

text \<open>
  The lock objects are numbered. \<open>sy_last c\<close> records when the watcher of context \<open>c\<close> last did its
  duty: when the key was set, or its lifetime renewed.
\<close>

record 'r wd_system =
  sy_dogs :: "nat \<Rightarrow> watchdog"
  sy_world :: "'r wd_world"
  sy_last :: "nat \<Rightarrow> int"

datatype wd_event =
    WLock nat string string
  | WUnlock nat string
  | WTurn bool "nat \<times> string \<times> int"
  | WCancel nat
  | WPass int

definition live :: "'r wd_world \<Rightarrow> (nat \<times> string \<times> int) set" where
  "live w = {x \<in> set (ww_watchers w). fst x \<notin> set (ww_cancelled w)}"

text \<open>
  How the lock is to be used. Everybody gives a key the same lifetime \<open>life k\<close>, of at least seven
  nanoseconds. A key that another object's watcher keeps alive is not unlocked. And the goroutines are
  scheduled in time: a watcher, whose ticker fires after a seventh of the lifetime, does not miss its
  turn for a whole half of it.
\<close>

definition may_unlock :: "watchdog \<Rightarrow> string \<Rightarrow> 'r wd_world \<Rightarrow> bool" where
  "may_unlock d k w = list_all (\<lambda>(c, j, dur). c \<in> set (ww_cancelled w) \<or> j \<noteq> k \<or> wd_cancel d = Some c) (ww_watchers w)"

definition in_time :: "('r \<Rightarrow> int) \<Rightarrow> int \<Rightarrow> 'r wd_system \<Rightarrow> bool" where
  "in_time clock dt s = list_all (\<lambda>(c, k, dur). c \<in> set (ww_cancelled (sy_world s)) \<or>
      2 * (clock (ww_redis (sy_world s)) + dt - sy_last s c) < dur) (ww_watchers (sy_world s))"

fun wd_step ::
  "'r wd_ops \<Rightarrow> ('r \<Rightarrow> int) \<Rightarrow> ('r \<Rightarrow> int \<Rightarrow> 'r) \<Rightarrow> (string \<Rightarrow> int) \<Rightarrow> 'r wd_system \<Rightarrow> wd_event \<Rightarrow>
     'r wd_system option" where
  "wd_step R clock Pass life s (WLock i k v) =
     (case wd_Lock R (sy_dogs s i) (sy_world s) k v (life k) of
        Done ((d, w), err) \<Rightarrow> Some (s\<lparr>sy_dogs := (sy_dogs s)(i := d), sy_world := w,
          sy_last := (sy_last s)(ww_next (sy_world s) := clock (ww_redis w))\<rparr>)
      | _ \<Rightarrow> None)"
| "wd_step R clock Pass life s (WUnlock i k) =
     (if may_unlock (sy_dogs s i) k (sy_world s)
      then case wd_Unlock R (sy_dogs s i) (sy_world s) k of
             Done ((d, w), err) \<Rightarrow> Some (s\<lparr>sy_dogs := (sy_dogs s)(i := d), sy_world := w\<rparr>)
           | _ \<Rightarrow> None
      else None)"
| "wd_step R clock Pass life s (WTurn ticks x) =
     (if x \<in> set (ww_watchers (sy_world s))
      then Some (s\<lparr>sy_world := wd_turn R ticks x (sy_world s),
                   sy_last := (sy_last s)(fst x := clock (ww_redis (sy_world s)))\<rparr>)
      else None)"
| "wd_step R clock Pass life s (WCancel c) =
     Some (s\<lparr>sy_world := (sy_world s)\<lparr>ww_cancelled := c # ww_cancelled (sy_world s)\<rparr>\<rparr>)"
| "wd_step R clock Pass life s (WPass dt) =
     (if 0 \<le> dt \<and> in_time clock dt s
      then Some (s\<lparr>sy_world := (sy_world s)\<lparr>ww_redis := Pass (ww_redis (sy_world s)) dt\<rparr>\<rparr>)
      else None)"

text \<open>At first nothing is locked and no goroutine runs.\<close>

definition wd_init :: "('r \<Rightarrow> string \<Rightarrow> int option) \<Rightarrow> ('r \<Rightarrow> int) \<Rightarrow> 'r wd_system \<Rightarrow> bool" where
  "wd_init expires clock s \<longleftrightarrow>
     (\<forall>i. wd_cancel (sy_dogs s i) = None) \<and> ww_watchers (sy_world s) = [] \<and>
     (\<forall>k e. expires (ww_redis (sy_world s)) k = Some e \<longrightarrow> clock (ww_redis (sy_world s)) < e)"

text \<open>Object \<open>i\<close> holds key \<open>k\<close>: the context it would cancel is that of a live watcher of the key.\<close>

definition holds_lock :: "'r wd_system \<Rightarrow> nat \<Rightarrow> string \<Rightarrow> bool" where
  "holds_lock s i k =
     list_ex (\<lambda>(c, j, dur). j = k \<and> wd_cancel (sy_dogs s i) = Some c \<and> c \<notin> set (ww_cancelled (sy_world s)))
       (ww_watchers (sy_world s))"

section \<open>The invariant\<close>

text \<open>
  Contexts are fresh: no two watchers and no two objects share one. \<open>guarded\<close>: what a live watcher
  guarantees about its key.
\<close>

definition fresh_contexts :: "'r wd_system \<Rightarrow> bool" where
  "fresh_contexts s \<longleftrightarrow>
     distinct (map fst (ww_watchers (sy_world s))) \<and>
     (\<forall>x \<in> set (ww_watchers (sy_world s)). fst x < ww_next (sy_world s)) \<and>
     (\<forall>i c. wd_cancel (sy_dogs s i) = Some c \<longrightarrow> c < ww_next (sy_world s)) \<and>
     (\<forall>i j c. wd_cancel (sy_dogs s i) = Some c \<longrightarrow> wd_cancel (sy_dogs s j) = Some c \<longrightarrow> i = j)"

definition guarded :: "('r \<Rightarrow> string \<Rightarrow> int option) \<Rightarrow> ('r \<Rightarrow> int) \<Rightarrow> 'r wd_system \<Rightarrow> nat \<times> string \<times> int \<Rightarrow> bool" where
  "guarded expires clock s = (\<lambda>(c, k, dur).
     (let r = ww_redis (sy_world s) in \<exists>e. expires r k = Some e \<and> dur \<le> 2 * (e - sy_last s c) \<and>
        sy_last s c \<le> clock r \<and> 2 * (clock r - sy_last s c) < dur))"

definition wd_inv ::
  "('r \<Rightarrow> string \<Rightarrow> int option) \<Rightarrow> ('r \<Rightarrow> int) \<Rightarrow> (string \<Rightarrow> int) \<Rightarrow> 'r wd_system \<Rightarrow> bool" where
  "wd_inv expires clock life s \<longleftrightarrow>
     fresh_contexts s \<and>
     (\<forall>(c, k, dur) \<in> set (ww_watchers (sy_world s)). dur = life k \<and> 0 < dur) \<and>
     (\<forall>k e. expires (ww_redis (sy_world s)) k = Some e \<longrightarrow> clock (ww_redis (sy_world s)) < e) \<and>
     (\<forall>x \<in> live (sy_world s). guarded expires clock s x) \<and>
     (\<forall>x \<in> live (sy_world s). \<forall>y \<in> live (sy_world s). fst (snd x) = fst (snd y) \<longrightarrow> x = y)"

lemma liveE:
  assumes "x \<in> live w"
  obtains c k dur where "x = (c, k, dur)" "(c, k, dur) \<in> set (ww_watchers w)" "c \<notin> set (ww_cancelled w)"
  using assms by (cases x) (auto simp: live_def)

lemma live_redis [simp]: "live (w\<lparr>ww_redis := r\<rparr>) = live w"
  by (simp add: live_def)

lemma live_mono:
  "set (ww_watchers w1) \<subseteq> set (ww_watchers w) \<Longrightarrow> set (ww_cancelled w) \<subseteq> set (ww_cancelled w1) \<Longrightarrow>
     live w1 \<subseteq> live w"
  by (auto simp: live_def)

text \<open>
  The parts of the invariant as rules: a step of the server that lets no live key go, and a step that
  only takes watchers away.
\<close>

definition keeps :: "('r \<Rightarrow> string \<Rightarrow> int option) \<Rightarrow> (string \<Rightarrow> int) \<Rightarrow> int \<Rightarrow> 'r \<Rightarrow> 'r \<Rightarrow> string \<Rightarrow> bool" where
  "keeps expires life now r r1 k \<longleftrightarrow>
     expires r1 k = expires r k \<or> (\<exists>e. expires r1 k = Some e \<and> life k \<le> 2 * (e - now))"

lemma guarded_keeps:
  assumes "guarded expires clock s (c, k, dur)" and "dur = life k"
    and "keeps expires life (clock (ww_redis (sy_world s))) (ww_redis (sy_world s)) (ww_redis (sy_world s1)) k"
    and "clock (ww_redis (sy_world s1)) = clock (ww_redis (sy_world s))" and "sy_last s1 c = sy_last s c"
  shows "guarded expires clock s1 (c, k, dur)"
proof -
  obtain e where e: "expires (ww_redis (sy_world s)) k = Some e" "dur \<le> 2 * (e - sy_last s c)"
    "sy_last s c \<le> clock (ww_redis (sy_world s))" "2 * (clock (ww_redis (sy_world s)) - sy_last s c) < dur"
    using assms(1) by (auto simp: guarded_def Let_def)
  from assms(3) consider "expires (ww_redis (sy_world s1)) k = Some e"
    | e1 where "expires (ww_redis (sy_world s1)) k = Some e1"
        "life k \<le> 2 * (e1 - clock (ww_redis (sy_world s)))"
    using e(1) by (auto simp: keeps_def)
  then show ?thesis
  proof cases
    case 1
    with e assms(4,5) show ?thesis by (simp add: guarded_def)
  next
    case 2
    with e(3) assms(2) have "dur \<le> 2 * (e1 - sy_last s c)" by simp
    with 2 e(3,4) assms(4,5) show ?thesis by (simp add: guarded_def)
  qed
qed

text \<open>The facts the proofs of the steps share.\<close>

lemma wd_invD:
  assumes "wd_inv expires clock life s"
  shows "fresh_contexts s"
    and "(c, k, dur) \<in> set (ww_watchers (sy_world s)) \<Longrightarrow> dur = life k \<and> 0 < dur"
    and "expires (ww_redis (sy_world s)) k = Some e \<Longrightarrow> clock (ww_redis (sy_world s)) < e"
    and "x \<in> live (sy_world s) \<Longrightarrow> guarded expires clock s x"
    and "x \<in> live (sy_world s) \<Longrightarrow> y \<in> live (sy_world s) \<Longrightarrow> fst (snd x) = fst (snd y) \<Longrightarrow> x = y"
proof -
  from assms have 1: "fresh_contexts s"
    and 2: "\<forall>(c, k, dur) \<in> set (ww_watchers (sy_world s)). dur = life k \<and> 0 < dur"
    and 3: "\<forall>k e. expires (ww_redis (sy_world s)) k = Some e \<longrightarrow> clock (ww_redis (sy_world s)) < e"
    and 4: "\<forall>x \<in> live (sy_world s). guarded expires clock s x"
    and 5: "\<forall>x \<in> live (sy_world s). \<forall>y \<in> live (sy_world s). fst (snd x) = fst (snd y) \<longrightarrow> x = y"
    unfolding wd_inv_def by simp_all
  show "fresh_contexts s" by (rule 1)
  show "(c, k, dur) \<in> set (ww_watchers (sy_world s)) \<Longrightarrow> dur = life k \<and> 0 < dur" using 2 by auto
  show "expires (ww_redis (sy_world s)) k = Some e \<Longrightarrow> clock (ww_redis (sy_world s)) < e" using 3 by blast
  show "x \<in> live (sy_world s) \<Longrightarrow> guarded expires clock s x" using 4 by blast
  show "x \<in> live (sy_world s) \<Longrightarrow> y \<in> live (sy_world s) \<Longrightarrow> fst (snd x) = fst (snd y) \<Longrightarrow> x = y"
    using 5 by blast
qed

lemma fresh_contexts_same:
  assumes "fresh_contexts s" and "x \<in> set (ww_watchers (sy_world s))" and "y \<in> set (ww_watchers (sy_world s))"
    and "fst x = fst y"
  shows "x = y"
  using assms unfolding fresh_contexts_def by (metis eq_key_imp_eq_value prod.collapse)

text \<open>A step after which the server, the lock objects and the watchers are as follows keeps the invariant.\<close>

lemma wd_inv_shrinks:
  assumes inv: "wd_inv expires clock life s"
    and ws: "set (ww_watchers (sy_world s1)) \<subseteq> set (ww_watchers (sy_world s))"
      "distinct (map fst (ww_watchers (sy_world s1)))"
    and cs: "set (ww_cancelled (sy_world s)) \<subseteq> set (ww_cancelled (sy_world s1))"
    and dogs: "\<And>i. wd_cancel (sy_dogs s1 i) = wd_cancel (sy_dogs s i)" "ww_next (sy_world s1) = ww_next (sy_world s)"
    and clock: "clock (ww_redis (sy_world s1)) = clock (ww_redis (sy_world s))"
    and keys: "\<And>k e. expires (ww_redis (sy_world s1)) k = Some e \<Longrightarrow> clock (ww_redis (sy_world s)) < e"
    and live: "\<And>c k dur. (c, k, dur) \<in> live (sy_world s1) \<Longrightarrow>
      keeps expires life (clock (ww_redis (sy_world s))) (ww_redis (sy_world s)) (ww_redis (sy_world s1)) k
      \<and> sy_last s1 c = sy_last s c \<or> guarded expires clock s1 (c, k, dur)"
  shows "wd_inv expires clock life s1"
proof -
  have sub: "live (sy_world s1) \<subseteq> live (sy_world s)" by (rule live_mono [OF ws(1) cs])
  have "guarded expires clock s1 x" if x: "x \<in> live (sy_world s1)" for x
  proof -
    obtain c k dur where x': "x = (c, k, dur)" by (rule prod_cases3)
    have "x \<in> live (sy_world s)" using sub x by blast
    moreover have "dur = life k" using calculation wd_invD(2) [OF inv, of c k dur] by (auto simp: x' live_def)
    ultimately show ?thesis
      using guarded_keeps [OF _ _ _ clock] wd_invD(4) [OF inv] live [of c k dur] x unfolding x' by blast
  qed
  moreover have "fresh_contexts s1"
    using wd_invD(1) [OF inv] ws dogs unfolding fresh_contexts_def by (auto dest!: subsetD)
  moreover have "\<forall>(c, k, dur) \<in> set (ww_watchers (sy_world s1)). dur = life k \<and> 0 < dur"
    using ws(1) wd_invD(2) [OF inv] by blast
  moreover have "\<forall>x \<in> live (sy_world s1). \<forall>y \<in> live (sy_world s1). fst (snd x) = fst (snd y) \<longrightarrow> x = y"
    using sub wd_invD(5) [OF inv] by blast
  ultimately show ?thesis using keys clock by (simp add: wd_inv_def)
qed

section \<open>Every step keeps it\<close>

lemma keeps_refl [simp]: "keeps expires life now r r k"
  by (simp add: keeps_def)

lemma remove1_fst:
  assumes "distinct (map fst ws)" and "x \<in> set ws"
  shows "set (remove1 x ws) = set ws - {x}" and "distinct (map fst (remove1 x ws))"
proof -
  show "set (remove1 x ws) = set ws - {x}"
    using assms(1) by (simp add: distinct_map set_remove1_eq)
  then show "distinct (map fst (remove1 x ws))"
    using assms(1) by (auto simp: distinct_map intro: inj_on_subset distinct_remove1)
qed

locale timed_redis =
  fixes R :: "'r wd_ops" and expires :: "'r \<Rightarrow> string \<Rightarrow> int option" and clock :: "'r \<Rightarrow> int"
    and Pass :: "'r \<Rightarrow> int \<Rightarrow> 'r"
  assumes setnx: "setnx_law R expires clock" and del: "del_law R expires clock"
    and expire: "expire_law R expires clock" and pass: "pass_law Pass expires clock"
begin

abbreviation inv :: "(string \<Rightarrow> int) \<Rightarrow> 'r wd_system \<Rightarrow> bool" where
  "inv life \<equiv> wd_inv expires clock life"

lemma init_inv: "wd_init expires clock s \<Longrightarrow> inv life s"
  by (simp add: wd_init_def wd_inv_def fresh_contexts_def live_def)

lemma cancel_inv:
  assumes "inv life s" and "wd_step R clock Pass life s (WCancel c) = Some s1"
  shows "inv life s1"
  by (rule wd_inv_shrinks [OF assms(1)])
    (use assms(2) wd_invD(1,3) [OF assms(1)] in \<open>auto simp: fresh_contexts_def\<close>)

lemma unlock_inv:
  assumes inv: "inv life s" and step: "wd_step R clock Pass life s (WUnlock i k) = Some s1"
  shows "inv life s1"
proof -
  let ?w = "sy_world s" and ?d = "sy_dogs s i"
  have may: "may_unlock ?d k ?w" using step by (auto split: if_splits)
  obtain r1 err where del1: "wd_Del R (ww_redis ?w) k = (r1, err)" by fastforce
  let ?cs = "(case wd_cancel ?d of None \<Rightarrow> [] | Some c \<Rightarrow> [c]) @ ww_cancelled ?w"
  have law: "clock r1 = clock (ww_redis ?w)" "expires r1 = (expires (ww_redis ?w))(k := None) \<or> expires r1 = expires (ww_redis ?w)"
    using del del1 unfolding del_law_def by blast+
  have s1: "sy_world s1 = ?w\<lparr>ww_cancelled := ?cs, ww_redis := r1\<rparr>"
      "sy_dogs s1 = sy_dogs s" "sy_last s1 = sy_last s"
    using step may del1
    by (auto simp: wd_Unlock_def Let_def nil_client_def fun_upd_idem split: if_splits option.splits prod.splits)
  show ?thesis
  proof (rule wd_inv_shrinks [OF inv], goal_cases)
    case (7 j e) then show ?case using law(2) wd_invD(3) [OF inv] by (auto simp: s1 split: if_splits)
  next
    case (8 c j dur)
    then have "c \<notin> set ?cs" "(c, j, dur) \<in> set (ww_watchers ?w)" by (auto simp: live_def s1)
    moreover have "wd_cancel ?d = Some c \<Longrightarrow> c \<in> set ?cs" by simp
    ultimately have "j \<noteq> k" using may unfolding may_unlock_def list_all_iff by fastforce
    with law(2) show ?case by (auto simp: s1 keeps_def)
  qed (use wd_invD(1) [OF inv] law(1) in \<open>auto simp: s1 fresh_contexts_def\<close>)
qed

lemma pass_inv:
  assumes inv: "inv life s" and step: "wd_step R clock Pass life s (WPass dt) = Some s1"
  shows "inv life s1"
proof -
  let ?r = "ww_redis (sy_world s)"
  have dt: "0 \<le> dt" "in_time clock dt s"
    and s1: "s1 = s\<lparr>sy_world := (sy_world s)\<lparr>ww_redis := Pass ?r dt\<rparr>\<rparr>"
    using step by (auto split: if_splits)
  have law: "clock (Pass ?r dt) = clock ?r + dt"
    "expires (Pass ?r dt) k = (case expires ?r k of None \<Rightarrow> None | Some e \<Rightarrow> if e \<le> clock ?r + dt then None else Some e)" for k
    using pass dt(1) unfolding pass_law_def by blast+
  have "guarded expires clock s1 x" if x: "x \<in> live (sy_world s)" for x
  proof -
    obtain c k dur where x': "x = (c, k, dur)" "(c, k, dur) \<in> set (ww_watchers (sy_world s))"
        "c \<notin> set (ww_cancelled (sy_world s))"
      by (rule liveE [OF x])
    then have "2 * (clock ?r + dt - sy_last s c) < dur"
      using dt(2) by (fastforce simp: in_time_def list_all_iff)
    moreover have "guarded expires clock s (c, k, dur)" using wd_invD(4) [OF inv x] by (simp add: x')
    ultimately show ?thesis using dt(1) law by (auto simp: x' s1 guarded_def Let_def)
  qed
  moreover have "clock (Pass ?r dt) < e" if "expires (Pass ?r dt) k = Some e" for k e
    using that law by (auto split: option.splits if_splits)
  ultimately show ?thesis
    using inv by (simp add: wd_inv_def s1 fresh_contexts_def)
qed

text \<open>A turn: the lifetime is renewed, or the watcher ends.\<close>

lemma turn_cases:
  assumes "x = (c, k, dur)" and "0 < dur"
  obtains (ended) "wd_turn R ticks x w = w\<lparr>ww_watchers := remove1 x (ww_watchers w)\<rparr>" "c \<in> set (ww_cancelled w)"
  | (expired) r1 where "wd_turn R ticks x w = w\<lparr>ww_redis := r1, ww_watchers := remove1 x (ww_watchers w)\<rparr>"
      "clock r1 = clock (ww_redis w)"
      "expires r1 = expires (ww_redis w) \<or>
         (\<exists>e. lasts (clock r1) dur e \<and> expires r1 = (expires (ww_redis w))(k \<mapsto> e))"
  | (renewed) r1 e where "wd_turn R ticks x w = w\<lparr>ww_redis := r1\<rparr>" "clock r1 = clock (ww_redis w)"
      "lasts (clock r1) dur e" "expires r1 = (expires (ww_redis w))(k \<mapsto> e)"
proof -
  obtain r1 val err where e: "wd_Expire R (ww_redis w) k dur = (r1, val, err)" by (rule prod_cases3)
  have clock: "clock r1 = clock (ww_redis w)"
    and val: "err = None \<Longrightarrow> val = (expires (ww_redis w) k \<noteq> None)"
    and upd: "expires r1 = expires (ww_redis w) \<and> (err = None \<longrightarrow> \<not> val) \<or>
      (\<exists>e. lasts (clock r1) dur e \<and> expires r1 = (expires (ww_redis w))(k \<mapsto> e))"
    using expire e assms(2) unfolding expire_law_def by (blast, blast, metis)
  consider "c \<in> set (ww_cancelled w) \<and> \<not> ticks" | "\<not> (c \<in> set (ww_cancelled w) \<and> \<not> ticks)" "err \<noteq> None \<or> \<not> val"
    | "\<not> (c \<in> set (ww_cancelled w) \<and> \<not> ticks)" "err = None" val by blast
  then show thesis
  proof cases
    case 1
    with ended show thesis by (simp add: wd_turn_def assms(1))
  next
    case 2
    with expired [of r1] e clock upd show thesis by (auto simp: wd_turn_def assms(1))
  next
    case 3
    with upd obtain e' where "lasts (clock r1) dur e'" "expires r1 = (expires (ww_redis w))(k \<mapsto> e')" by auto
    with renewed [of r1 e'] e clock 3 show thesis by (auto simp: wd_turn_def assms(1))
  qed
qed

lemma keeps_lasts:
  "lasts now (life k) e \<Longrightarrow> expires r1 = (expires r)(k \<mapsto> e) \<Longrightarrow> keeps expires life now r r1 j"
  by (auto simp: keeps_def lasts_def)

lemma turn_inv:
  assumes inv: "inv life s" and step: "wd_step R clock Pass life s (WTurn ticks x) = Some s1"
  shows "inv life s1"
proof -
  let ?w = "sy_world s" and ?now = "clock (ww_redis (sy_world s))"
  obtain c k dur where x: "x = (c, k, dur)" by (rule prod_cases3)
  have mem: "x \<in> set (ww_watchers ?w)"
    and s1: "s1 = s\<lparr>sy_world := wd_turn R ticks x ?w, sy_last := (sy_last s)(c := ?now)\<rparr>"
    using step by (auto simp: x split: if_splits)
  have dur: "dur = life k" "0 < dur" using wd_invD(2) [OF inv, of c k dur] mem by (simp_all add: x)
  have dist: "distinct (map fst (ww_watchers ?w))" using wd_invD(1) [OF inv] by (simp add: fresh_contexts_def)
  note rem = remove1_fst [OF dist mem]
  have other: "c' \<noteq> c" if "(c', k', dur') \<in> set (ww_watchers ?w)" "(c', k', dur') \<noteq> x" for c' k' dur'
    using fresh_contexts_same [OF wd_invD(1) [OF inv] that(1) mem] that(2) by (auto simp: x)
  show ?thesis
  proof (cases rule: turn_cases [OF x dur(2), where ticks = ticks and w = ?w, case_names ended expired renewed])
    case ended
    show ?thesis
    proof (rule wd_inv_shrinks [OF inv], goal_cases)
      case (8 c' k' dur')
      then have "(c', k', dur') \<in> set (ww_watchers ?w)" "(c', k', dur') \<noteq> x"
        using rem(1) by (auto simp: s1 ended(1) live_def)
      with other show ?case by (auto simp: s1 ended(1))
    qed (use rem wd_invD(3) [OF inv] in \<open>auto simp: s1 ended(1)\<close>)
  next
    case (expired r1)
    have upd: "expires r1 = expires (ww_redis ?w) \<or>
        (\<exists>e. lasts ?now (life k) e \<and> expires r1 = (expires (ww_redis ?w))(k \<mapsto> e))"
      using expired(2,3) dur(1) by auto
    show ?thesis
    proof (rule wd_inv_shrinks [OF inv], goal_cases)
      case (7 j e)
      with upd wd_invD(3) [OF inv] show ?case by (auto simp: s1 expired(1) lasts_def split: if_splits)
    next
      case (8 c' k' dur')
      then have "(c', k', dur') \<in> set (ww_watchers ?w)" "(c', k', dur') \<noteq> x"
        using rem(1) by (auto simp: s1 expired(1) live_def)
      moreover have "keeps expires life ?now (ww_redis ?w) r1 k'"
        using upd keeps_lasts [of ?now life k] by (metis keeps_def)
      ultimately show ?case using other by (auto simp: s1 expired(1))
    qed (use rem expired(2) in \<open>auto simp: s1 expired(1)\<close>)
  next
    case (renewed r1 e)
    show ?thesis
    proof (rule wd_inv_shrinks [OF inv], goal_cases)
      case (7 j e')
      with renewed(2-4) wd_invD(3) [OF inv] show ?case by (auto simp: s1 renewed(1) lasts_def split: if_splits)
    next
      case (8 c' k' dur')
      then have w: "(c', k', dur') \<in> set (ww_watchers ?w)" by (simp add: s1 renewed(1) live_def)
      have now: "lasts ?now (life k) e" using renewed(2,3) dur(1) by simp
      show ?case
      proof (cases "(c', k', dur') = x")
        case True
        with renewed(2-4) dur(2) renewed(1) [unfolded x] show ?thesis
          by (auto simp: x s1 guarded_def Let_def lasts_def)
      next
        case False
        have "keeps expires life ?now (ww_redis ?w) r1 k'" using now renewed(4) by (rule keeps_lasts)
        with False other [OF w] show ?thesis by (auto simp: s1 renewed(1))
      qed
    qed (use dist renewed(2) in \<open>auto simp: s1 renewed(1)\<close>)
  qed
qed

text \<open>\<open>Lock\<close>: it fails, perhaps after the key was set, or it acquires a key that was free.\<close>

lemma lock_cases:
  assumes "wd_Lock R d w k v dur = Done ((d1, w1), err)" and "0 < dur"
  obtains (failed) "d1 = d" "w1 = w\<lparr>ww_redis := ww_redis w1\<rparr>" "clock (ww_redis w1) = clock (ww_redis w)"
      "expires (ww_redis w1) = expires (ww_redis w) \<or> expires (ww_redis w) k = None \<and>
         (\<exists>e. lasts (clock (ww_redis w)) dur e \<and> expires (ww_redis w1) = (expires (ww_redis w))(k \<mapsto> e))"
  | (acquired) r1 e where "d1 = d\<lparr>wd_cancel := Some (ww_next w)\<rparr>"
      "w1 = w\<lparr>ww_redis := r1, ww_next := Suc (ww_next w), ww_watchers := (ww_next w, k, dur) # ww_watchers w\<rparr>"
      "clock r1 = clock (ww_redis w)" "expires (ww_redis w) k = None" "lasts (clock (ww_redis w)) dur e"
      "expires r1 = (expires (ww_redis w))(k \<mapsto> e)" "err = None"
proof -
  obtain r1 val err1 where e: "wd_SetNX R (ww_redis w) k v dur = (r1, val, err1)" by (rule prod_cases3)
  have clock: "clock r1 = clock (ww_redis w)"
    and val: "err1 = None \<Longrightarrow> val = (expires (ww_redis w) k = None)"
    and upd: "expires r1 = expires (ww_redis w) \<and> (err1 = None \<longrightarrow> \<not> val) \<or> expires (ww_redis w) k = None \<and>
      (\<exists>e. lasts (clock (ww_redis w)) dur e \<and> expires r1 = (expires (ww_redis w))(k \<mapsto> e))"
    using setnx e assms(2) unfolding setnx_law_def by (blast, blast, metis)
  show thesis
  proof (cases "err1 \<noteq> None \<or> \<not> val")
    case True
    with assms(1) e have "d1 = d" "w1 = w\<lparr>ww_redis := r1\<rparr>"
      by (auto simp: wd_Lock_def nil_client_def split: if_splits)
    with failed clock upd show thesis by auto
  next
    case False
    with upd obtain e' where "lasts (clock (ww_redis w)) dur e'" "expires (ww_redis w) k = None"
        "expires r1 = (expires (ww_redis w))(k \<mapsto> e')" by auto
    with acquired [of r1 e'] assms(1) e False clock show thesis
      by (auto simp: wd_Lock_def wd_Watch_def nil_client_def Let_def split: if_splits)
  qed
qed

lemma lock_inv:
  assumes inv: "inv life s" and step: "wd_step R clock Pass life s (WLock i k v) = Some s1" and life: "0 < life k"
  shows "inv life s1"
proof -
  let ?w = "sy_world s" and ?c = "ww_next (sy_world s)" and ?now = "clock (ww_redis (sy_world s))"
  note inv_parts = wd_invD [OF inv]
  obtain d w err where lock: "wd_Lock R (sy_dogs s i) ?w k v (life k) = Done ((d, w), err)"
    and s1: "s1 = s\<lparr>sy_dogs := (sy_dogs s)(i := d), sy_world := w, sy_last := (sy_last s)(?c := clock (ww_redis w))\<rparr>"
    using step by (auto split: outcome.splits prod.splits)
  have old: "c' < ?c" if "(c', k', dur') \<in> set (ww_watchers ?w)" for c' k' dur'
    using inv_parts(1) that by (force simp: fresh_contexts_def)
  from lock life show ?thesis
  proof (cases rule: lock_cases)
    case failed
    have w: "ww_watchers w = ww_watchers ?w" "ww_cancelled w = ww_cancelled ?w" "ww_next w = ?c"
      by (subst failed(2), simp)+
    show ?thesis
    proof (rule wd_inv_shrinks [OF inv], goal_cases)
      case (7 j e)
      with failed(4) inv_parts(3) show ?case by (auto simp: s1 lasts_def split: if_splits)
    next
      case (8 c' k' dur')
      then have "(c', k', dur') \<in> set (ww_watchers ?w)" by (simp add: s1 live_def w)
      moreover have "keeps expires life ?now (ww_redis ?w) (ww_redis w) k'"
        using failed(4) keeps_lasts [of ?now life k] by (metis keeps_def)
      ultimately show ?case using less_imp_neq [OF old, of c' k' dur'] by (simp add: s1)
    qed (use inv_parts(1) failed w in \<open>auto simp: s1 fresh_contexts_def\<close>)
  next
    case (acquired r1 e)
    have ws: "live w \<subseteq> insert (?c, k, life k) (live ?w)" by (auto simp: live_def acquired(2))
    have free: "fst (snd x) \<noteq> k" if "x \<in> live ?w" for x
      using inv_parts(4) [OF that] acquired(4) by (auto simp: guarded_def Let_def)
    have "guarded expires clock s1 (?c, k, life k)"
      using acquired(2,3,5,6) life by (simp add: s1 guarded_def lasts_def)
    moreover have "guarded expires clock s1 x" if x: "x \<in> live ?w" for x
    proof -
      obtain c' k' dur' where x': "x = (c', k', dur')" "(c', k', dur') \<in> set (ww_watchers ?w)"
        by (rule liveE [OF x])
      with less_imp_neq [OF old [OF x'(2)]] acquired(2,3) free [OF x] inv_parts(4) [OF x] show ?thesis
        by (simp add: s1 guarded_def Let_def acquired(6))
    qed
    ultimately have "guarded expires clock s1 x" if "x \<in> live w" for x using ws that by blast
    moreover have "x = y" if xy: "x \<in> live w" "y \<in> live w" "fst (snd x) = fst (snd y)" for x y
    proof -
      consider "x \<in> live ?w" "y \<in> live ?w" | "x = (?c, k, life k)" "y = (?c, k, life k)"
        using subsetD [OF ws xy(1)] subsetD [OF ws xy(2)] xy(3) free by fastforce
      then show ?thesis using xy(3) inv_parts(5) by cases blast+
    qed
    moreover have "fresh_contexts s1"
      using inv_parts(1) by (auto simp: fresh_contexts_def s1 acquired(1,2) less_Suc_eq split: if_splits)
    moreover have "\<forall>j e'. expires r1 j = Some e' \<longrightarrow> clock r1 < e'"
      using inv_parts(3) acquired(3,5,6) by (auto simp: lasts_def)
    moreover have "\<forall>(c, j, dur) \<in> set (ww_watchers w). dur = life j \<and> 0 < dur"
      using inv_parts(2) life by (auto simp: acquired(2))
    ultimately show ?thesis by (simp add: wd_inv_def s1) (simp add: acquired(2))
  qed
qed

lemma step_inv:
  assumes "inv life s" and "wd_step R clock Pass life s e = Some s1" and "\<forall>k. 0 < life k"
  shows "inv life s1"
proof (cases e)
  case (WLock i k v) with assms show ?thesis using lock_inv by blast
next
  case (WUnlock i k) with assms show ?thesis using unlock_inv by blast
next
  case (WTurn ticks x) with assms show ?thesis using turn_inv by blast
next
  case (WCancel c) with assms show ?thesis using cancel_inv by blast
next
  case (WPass dt) with assms show ?thesis using pass_inv by blast
qed

end

sublocale timed_redis \<subseteq> lock: inv_system "\<lambda>s. wd_init expires clock s \<and> (\<forall>k. 0 < life k)"
    "wd_step R clock Pass life" "\<lambda>s. wd_inv expires clock life s \<and> (\<forall>k. 0 < life k)" for life
  by unfold_locales (use init_inv step_inv in blast)+

context timed_redis
begin

lemma reach_inv:
  assumes "reach (\<lambda>s. wd_init expires clock s \<and> (\<forall>k. 0 < life k)) (wd_step R clock Pass life) s"
  shows "wd_inv expires clock life s" and "0 < life k"
  using lock.reach_inv [OF assms] by simp_all

lemmas run_inv = lock.run_inv

lemma holds_live:
  "holds_lock s i k \<longleftrightarrow> (\<exists>c dur. (c, k, dur) \<in> live (sy_world s) \<and> wd_cancel (sy_dogs s i) = Some c)"
  by (auto simp: holds_lock_def list_ex_iff live_def)

lemma one_holder:
  assumes "inv life s" and "holds_lock s i k" and "holds_lock s j k"
  shows "i = j"
proof -
  from assms(2,3) obtain c dur c' dur' where w: "(c, k, dur) \<in> live (sy_world s)" "(c', k, dur') \<in> live (sy_world s)"
    and own: "wd_cancel (sy_dogs s i) = Some c" "wd_cancel (sy_dogs s j) = Some c'"
    by (auto simp: holds_live)
  from wd_invD(5) [OF assms(1) w] have "c = c'" by simp
  with own wd_invD(1) [OF assms(1)] show "i = j" by (auto simp: fresh_contexts_def)
qed

lemma held_present:
  assumes "inv life s" and "holds_lock s i k"
  shows "expires (ww_redis (sy_world s)) k \<noteq> None"
proof -
  from assms(2) obtain c dur where "(c, k, dur) \<in> live (sy_world s)" by (auto simp: holds_live)
  from wd_invD(4) [OF assms(1) this] show ?thesis by (auto simp: guarded_def Let_def)
qed

lemma lock_of_held:
  assumes held: "expires (ww_redis (sy_world s)) k \<noteq> None"
    and step: "wd_step R clock Pass life s (WLock j k v) = Some t" and "0 < life k"
  shows "ww_watchers (sy_world t) = ww_watchers (sy_world s) \<and> sy_dogs t = sy_dogs s \<and>
    ww_cancelled (sy_world t) = ww_cancelled (sy_world s) \<and>
    expires (ww_redis (sy_world t)) = expires (ww_redis (sy_world s))"
proof -
  obtain d w err where lock: "wd_Lock R (sy_dogs s j) (sy_world s) k v (life k) = Done ((d, w), err)"
    and t: "t = s\<lparr>sy_dogs := (sy_dogs s)(j := d), sy_world := w,
      sy_last := (sy_last s)(ww_next (sy_world s) := clock (ww_redis w))\<rparr>"
    using step by (auto split: outcome.splits prod.splits)
  from lock assms(3) show ?thesis
  proof (cases rule: lock_cases)
    case failed
    have "ww_watchers w = ww_watchers (sy_world s)" "ww_cancelled w = ww_cancelled (sy_world s)"
      by (subst failed(2), simp)+
    with failed(1,4) held show ?thesis by (simp add: t)
  qed (use held in simp)
qed

text \<open>How holders change: only \<open>Lock\<close> of a key that nobody holds makes a new one.\<close>

lemma holds_step:
  assumes inv: "inv life s" and life: "\<forall>j. 0 < life j" and step: "wd_step R clock Pass life s e = Some t"
    and holds: "holds_lock t i k"
  shows "holds_lock s i k \<or> (\<exists>v. e = WLock i k v) \<and> (\<forall>j. \<not> holds_lock s j k)"
proof -
  obtain c dur where w: "(c, k, dur) \<in> set (ww_watchers (sy_world t))" "c \<notin> set (ww_cancelled (sy_world t))"
      "wd_cancel (sy_dogs t i) = Some c"
    using holds by (auto simp: holds_live live_def)
  have old: ?thesis if "set (ww_watchers (sy_world t)) \<subseteq> set (ww_watchers (sy_world s))"
      "set (ww_cancelled (sy_world s)) \<subseteq> set (ww_cancelled (sy_world t))"
      "wd_cancel (sy_dogs t i) = wd_cancel (sy_dogs s i)"
  proof -
    have "(c, k, dur) \<in> live (sy_world s)" "wd_cancel (sy_dogs s i) = Some c"
      using that w by (auto simp: live_def)
    then show ?thesis unfolding holds_live by blast
  qed
  show ?thesis
  proof (cases e)
    case (WLock j k' v)
    obtain d u err where lock: "wd_Lock R (sy_dogs s j) (sy_world s) k' v (life k') = Done ((d, u), err)"
      and t: "sy_dogs t = (sy_dogs s)(j := d)" "sy_world t = u"
      using step WLock by (auto split: outcome.splits prod.splits)
    have "0 < life k'" using life by blast
    with lock show ?thesis
    proof (cases rule: lock_cases)
      case failed
      have "ww_watchers u = ww_watchers (sy_world s)" "ww_cancelled u = ww_cancelled (sy_world s)"
        by (subst failed(2), simp)+
      with failed(1) old show ?thesis by (simp add: t)
    next
      case (acquired r1 ex)
      have less: "wd_cancel (sy_dogs s i) = Some c \<Longrightarrow> c < ww_next (sy_world s)"
        and less': "(c, k, dur) \<in> set (ww_watchers (sy_world s)) \<Longrightarrow> c < ww_next (sy_world s)"
        using wd_invD(1) [OF inv] by (force simp: fresh_contexts_def)+
      show ?thesis
      proof (cases "i = j")
        case True
        with w(3) have "c = ww_next (sy_world s)" by (simp add: t acquired(1))
        with w(1) less' have "k = k'" by (auto simp: t acquired(2))
        with True WLock held_present [OF inv, of _ k] acquired(4) show ?thesis by blast
      next
        case False
        with w less have "(c, k, dur) \<in> set (ww_watchers (sy_world s))" by (auto simp: t acquired(2))
        with False w(2,3) show ?thesis by (auto simp: t acquired(2) holds_live live_def)
      qed
    qed
  next
    case (WUnlock j k')
    then show ?thesis
      using step by (intro old) (auto simp: wd_Unlock_def Let_def nil_client_def split: if_splits option.splits prod.splits)
  next
    case (WTurn ticks x)
    obtain c' k' dur' where x: "x = (c', k', dur')" by (rule prod_cases3)
    have mem: "x \<in> set (ww_watchers (sy_world s))" and t: "t = s\<lparr>sy_world := wd_turn R ticks x (sy_world s),
        sy_last := (sy_last s)(fst x := clock (ww_redis (sy_world s)))\<rparr>"
      using step WTurn by (auto split: if_splits)
    have "0 < dur'" using wd_invD(2) [OF inv, of c' k' dur'] mem by (simp add: x)
    then show ?thesis
      by (intro old; cases rule: turn_cases [OF x, where ticks = ticks and w = "sy_world s"])
        (simp_all add: t set_remove1_subset)
  next
    case (WCancel c')
    with step show ?thesis by (intro old) auto
  next
    case (WPass dt)
    with step show ?thesis by (intro old) (auto split: if_splits)
  qed
qed

text \<open>A key that no goroutine watches only fades.\<close>

definition unwatched :: "string \<Rightarrow> 'r wd_system \<Rightarrow> bool" where
  "unwatched k s \<longleftrightarrow> k \<notin> (fst \<circ> snd) ` set (ww_watchers (sy_world s))"

lemma fades_step:
  assumes inv: "inv life s" and life: "\<forall>j. 0 < life j" and k: "unwatched k s" and e: "\<forall>i v. e \<noteq> WLock i k v"
    and step: "wd_step R clock Pass life s e = Some t"
  shows "unwatched k t \<and> expires (ww_redis (sy_world t)) k \<in> {None, expires (ww_redis (sy_world s)) k}"
proof (cases e)
  case (WLock i j v)
  with e have j: "j \<noteq> k" by blast
  obtain d w err where lock: "wd_Lock R (sy_dogs s i) (sy_world s) j v (life j) = Done ((d, w), err)"
    and t: "sy_world t = w"
    using step WLock by (auto split: outcome.splits prod.splits)
  have "0 < life j" using life by blast
  with lock show ?thesis
  proof (cases rule: lock_cases)
    case failed
    have "ww_watchers w = ww_watchers (sy_world s)" by (subst failed(2)) simp
    with failed(4) k j show ?thesis by (auto simp: t unwatched_def)
  next
    case acquired
    with k j show ?thesis by (auto simp: t unwatched_def)
  qed
next
  case (WUnlock i j)
  obtain r1 err where d: "wd_Del R (ww_redis (sy_world s)) j = (r1, err)" by fastforce
  then have "expires r1 = (expires (ww_redis (sy_world s)))(j := None) \<or> expires r1 = expires (ww_redis (sy_world s))"
    using del unfolding del_law_def by blast
  moreover have "ww_redis (sy_world t) = r1" "ww_watchers (sy_world t) = ww_watchers (sy_world s)"
    using step d WUnlock by (auto simp: wd_Unlock_def Let_def nil_client_def split: if_splits option.splits)
  ultimately show ?thesis using k by (auto simp: unwatched_def)
next
  case (WTurn ticks x)
  obtain c j dur where x: "x = (c, j, dur)" by (rule prod_cases3)
  have mem: "x \<in> set (ww_watchers (sy_world s))" and t: "sy_world t = wd_turn R ticks x (sy_world s)"
    using step WTurn by (auto split: if_splits)
  have j: "j \<noteq> k" using k mem by (force simp: unwatched_def x)
  have dur: "0 < dur" using wd_invD(2) [OF inv, of c j dur] mem by (simp add: x)
  show ?thesis
    using k j by (cases rule: turn_cases [OF x dur, where ticks = ticks and w = "sy_world s"])
      (auto simp: t unwatched_def dest: notin_set_remove1 set_mp [OF set_remove1_subset])
next
  case (WCancel c)
  with step k show ?thesis by (auto simp: unwatched_def)
next
  case (WPass dt)
  with step have "0 \<le> dt" and t: "sy_world t = (sy_world s)\<lparr>ww_redis := Pass (ww_redis (sy_world s)) dt\<rparr>"
    by (auto split: if_splits)
  with pass k show ?thesis by (auto simp: pass_law_def unwatched_def split: option.splits)
qed

lemma fades:
  assumes "inv life s" and "\<forall>j. 0 < life j" and "unwatched k s" and "\<forall>e \<in> set es. \<forall>i v. e \<noteq> WLock i k v"
    and "run (wd_step R clock Pass life) s es = Some t"
  shows "expires (ww_redis (sy_world t)) k \<in> {None, expires (ww_redis (sy_world s)) k}"
  using assms
proof (induction es arbitrary: s)
  case (Cons e es)
  then obtain u where u: "wd_step R clock Pass life s e = Some u" "run (wd_step R clock Pass life) u es = Some t"
    by (auto split: option.splits)
  have "\<forall>i v. e \<noteq> WLock i k v" using Cons.prems(4) by simp
  note fade = fades_step [OF Cons.prems(1-3) this u(1)]
  with Cons.IH [OF step_inv [OF Cons.prems(1) u(1) Cons.prems(2)] Cons.prems(2) _ _ u(2)] Cons.prems(4)
  show ?case by auto
qed simp

lemma faded:
  assumes "inv life s" and "\<forall>j. 0 < life j" and "unwatched k s" and "\<forall>e \<in> set es. \<forall>i v. e \<noteq> WLock i k v"
    and "run (wd_step R clock Pass life) s es = Some t"
    and "\<forall>e. expires (ww_redis (sy_world s)) k = Some e \<longrightarrow> e \<le> clock (ww_redis (sy_world t))"
  shows "expires (ww_redis (sy_world t)) k = None"
proof (rule ccontr)
  assume no: "expires (ww_redis (sy_world t)) k \<noteq> None"
  then obtain e where e: "expires (ww_redis (sy_world t)) k = Some e" by blast
  have "wd_inv expires clock life t" using run_inv [OF _ assms(5)] assms(1,2) by blast
  from wd_invD(3) [OF this e] have "clock (ww_redis (sy_world t)) < e" .
  moreover have "expires (ww_redis (sy_world s)) k = Some e" using fades [OF assms(1-5)] e by auto
  ultimately show False using assms(6) by auto
qed

lemma lock_of_free:
  assumes "expires (ww_redis w) k = None" and "wd_Lock R d w k v dur = Done ((d1, w1), None)" and "0 < dur"
  shows "\<exists>c. wd_cancel d1 = Some c \<and> (c, k, dur) \<in> set (ww_watchers w1)"
proof -
  obtain r1 val err where e: "wd_SetNX R (ww_redis w) k v dur = (r1, val, err)" by (rule prod_cases3)
  then have "err = None \<Longrightarrow> val" using setnx assms(1,3) unfolding setnx_law_def by blast
  with assms(2) e show ?thesis
    by (auto simp: wd_Lock_def wd_Watch_def nil_client_def Let_def split: if_splits)
qed

end

section \<open>The abstract lock\<close>

text \<open>
  What the objects implement: a map from keys to holders, in which a free key can be taken and any
  holders may drop out. A key never passes from one holder to another.
\<close>

inductive lock_spec :: "(string \<rightharpoonup> nat) \<Rightarrow> (string \<rightharpoonup> nat) \<Rightarrow> bool" where
  acquire: "m k = None \<Longrightarrow> lock_spec m (m(k \<mapsto> i))"
| release: "m' \<subseteq>\<^sub>m m \<Longrightarrow> lock_spec m m'"

definition holders :: "'r wd_system \<Rightarrow> (string \<rightharpoonup> nat) \<Rightarrow> bool" where
  "holders s m \<longleftrightarrow> (\<forall>k i. m k = Some i \<longleftrightarrow> holds_lock s i k)"

context timed_redis
begin

lemma holders_exist:
  assumes "inv life s"
  obtains m where "holders s m"
proof (rule that)
  show "holders s (\<lambda>k. if \<exists>i. holds_lock s i k then Some (SOME i. holds_lock s i k) else None)"
    using one_holder [OF assms] by (auto simp: holders_def intro: someI)
qed

lemma holders_init: "wd_init expires clock s \<Longrightarrow> holders s Map.empty"
  by (simp add: holders_def holds_lock_def wd_init_def)

lemma holders_step:
  assumes inv: "inv life s" and life: "\<forall>j. 0 < life j" and m: "holders s m"
    and step: "wd_step R clock Pass life s e = Some t"
  shows "\<exists>m'. holders t m' \<and> lock_spec\<^sup>*\<^sup>* m m'"
proof -
  obtain m' where m': "holders t m'" by (rule holders_exist [OF step_inv [OF inv step life]])
  have change: "m k = Some i \<or> (\<exists>v. e = WLock i k v) \<and> m k = None" if "m' k = Some i" for k i
    using holds_step [OF inv life step, of i k] that m m' by (auto simp: holders_def) (metis not_None_eq)
  show ?thesis
  proof (cases "\<exists>k i v. e = WLock i k v \<and> m k = None \<and> m' k = Some i")
    case False
    with change have "m' \<subseteq>\<^sub>m m" unfolding map_le_def by (metis domD)
    with m' show ?thesis using lock_spec.release by blast
  next
    case True
    then obtain k i v where e: "e = WLock i k v" "m k = None" "m' k = Some i" by blast
    have "m'(k := None) \<subseteq>\<^sub>m m"
      unfolding map_le_def
    proof
      fix j assume "j \<in> dom (m'(k := None))"
      then have "j \<noteq> k" "m' j \<noteq> None" by (auto split: if_splits)
      with change [of j] e(1) show "(m'(k := None)) j = m j" by auto
    qed
    then have "lock_spec m (m'(k := None))" by (rule lock_spec.release)
    moreover have "lock_spec (m'(k := None)) ((m'(k := None))(k \<mapsto> i))" by (rule lock_spec.acquire) simp
    moreover have "(m'(k := None))(k \<mapsto> i) = m'" using e(3) by auto
    ultimately show ?thesis using m' by (metis rtranclp.rtrancl_into_rtrancl rtranclp.rtrancl_refl)
  qed
qed

lemma holders_run:
  assumes "inv life s" and "\<forall>j. 0 < life j" and "holders s m" and "run (wd_step R clock Pass life) s es = Some t"
  shows "\<exists>m'. holders t m' \<and> lock_spec\<^sup>*\<^sup>* m m'"
  using assms
proof (induction es arbitrary: s m)
  case (Cons e es)
  then obtain u where u: "wd_step R clock Pass life s e = Some u" "run (wd_step R clock Pass life) u es = Some t"
    by (auto split: option.splits)
  obtain m1 where m1: "holders u m1" "lock_spec\<^sup>*\<^sup>* m m1"
    using holders_step [OF Cons.prems(1-3) u(1)] by blast
  from Cons.IH [OF step_inv [OF Cons.prems(1) u(1) Cons.prems(2)] Cons.prems(2) m1(1) u(2)] m1(2)
  show ?case by (meson rtranclp_trans)
qed auto

end

section \<open>A server\<close>

text \<open>The clock and the times at which the keys go.\<close>

definition timed_ops :: "(int \<times> (string \<rightharpoonup> int)) wd_ops" where
  "timed_ops =
     \<lparr>wd_SetNX = (\<lambda>(n, m) k v dur. ((n, if m k = None then m(k \<mapsto> n + dur) else m), m k = None, None)),
      wd_Del = (\<lambda>(n, m) k. ((n, m(k := None)), None)),
      wd_Expire = (\<lambda>(n, m) k dur. ((n, if m k = None then m else m(k \<mapsto> n + dur)), m k \<noteq> None, None))\<rparr>"

definition timed_pass :: "int \<times> (string \<rightharpoonup> int) \<Rightarrow> int \<Rightarrow> int \<times> (string \<rightharpoonup> int)" where
  "timed_pass = (\<lambda>(n, m) dt. (n + dt, \<lambda>k. case m k of None \<Rightarrow> None | Some e \<Rightarrow> if e \<le> n + dt then None else Some e))"

lemma lasts_ahead: "0 < dur \<Longrightarrow> lasts now dur (now + dur)"
  by (simp add: lasts_def)

lemma timed_setnx: "setnx_law timed_ops snd fst"
  by (auto simp: setnx_law_def timed_ops_def split: if_splits intro: lasts_ahead)

lemma timed_del: "del_law timed_ops snd fst"
  by (auto simp: del_law_def timed_ops_def)

lemma timed_expire: "expire_law timed_ops snd fst"
  by (auto simp: expire_law_def timed_ops_def split: if_splits intro: lasts_ahead)

lemma timed_pass_law: "pass_law timed_pass snd fst"
  by (auto simp: pass_law_def timed_pass_def split: option.splits)

interpretation timed_map: timed_redis timed_ops snd fst timed_pass
  by unfold_locales (rule timed_setnx timed_del timed_expire timed_pass_law)+

definition two_dogs :: "(int \<times> (string \<rightharpoonup> int)) wd_system" where
  "two_dogs = \<lparr>sy_dogs = \<lambda>i. \<lparr>wd_client = True, wd_cancel = None\<rparr>,
     sy_world = \<lparr>ww_redis = (0, Map.empty), ww_cancelled = [], ww_watchers = [], ww_next = 0\<rparr>,
     sy_last = \<lambda>c. 0\<rparr>"

lemma two_dogs_init: "wd_init snd fst two_dogs \<and> (\<forall>k::string. (0::int) < 70)"
  by (simp add: wd_init_def two_dogs_def)

section \<open>Properties\<close>

text \<open>
  C27. Mutual exclusion. Let any number of lock objects work on one redis server, which may fail at any
  command, and let the keys expire there. If nobody unlocks a key that the watcher of another object
  keeps alive, all give a key the same lifetime, and no watcher misses its turns for half of it, then
  in every state at most one object holds a key, the key of a held lock is present on the server, and
  a further \<open>Lock\<close> of it, by whomever, changes neither key nor watchers: the holder still holds it.
\<close>

theorem watchdog_mutual_exclusion:
  assumes "setnx_law R expires clock" and "del_law R expires clock" and "expire_law R expires clock"
    and "pass_law Pass expires clock"
    and "reach (\<lambda>s. wd_init expires clock s \<and> (\<forall>k. 0 < life k)) (wd_step R clock Pass life) s"
    and "holds_lock s i k"
  shows "(holds_lock s j k \<longrightarrow> j = i) \<and> expires (ww_redis (sy_world s)) k \<noteq> None \<and>
    (\<forall>v t. wd_step R clock Pass life s (WLock j k v) = Some t \<longrightarrow>
       holds_lock t i k \<and> ww_watchers (sy_world t) = ww_watchers (sy_world s) \<and>
       expires (ww_redis (sy_world t)) = expires (ww_redis (sy_world s)))"
proof -
  have R: "timed_redis R expires clock Pass" using assms(1-4) by (rule timed_redis.intro)
  note inv = timed_redis.reach_inv [OF R assms(5)]
  have held: "expires (ww_redis (sy_world s)) k \<noteq> None" by (rule timed_redis.held_present [OF R inv(1) assms(6)])
  moreover have "holds_lock t i k \<and> ww_watchers (sy_world t) = ww_watchers (sy_world s) \<and>
      expires (ww_redis (sy_world t)) = expires (ww_redis (sy_world s))"
    if "wd_step R clock Pass life s (WLock j k v) = Some t" for v t
    using timed_redis.lock_of_held [OF R held that inv(2)] assms(6) by (simp add: holds_lock_def)
  ultimately show ?thesis using timed_redis.one_holder [OF R inv(1) _ assms(6)] by blast
qed

definition busy_dogs :: "wd_event list" where
  "busy_dogs = [WLock 0 ''k'' ''a'', WPass 30, WLock 1 ''k'' ''b'', WTurn True (0, ''k'', 70), WPass 30]"

theorem watchdog_mutual_exclusion_witness:
  "\<exists>s. run (wd_step timed_ops fst timed_pass (\<lambda>k. 70)) two_dogs busy_dogs = Some s \<and>
     holds_lock s 0 ''k'' \<and> \<not> holds_lock s 1 ''k'' \<and> snd (ww_redis (sy_world s)) ''k'' \<noteq> None"
proof -
  let ?step = "wd_step timed_ops fst timed_pass (\<lambda>k. 70)"
  obtain s where s: "run ?step two_dogs busy_dogs = Some s" and h: "holds_lock s 0 ''k''"
    by (simp add: busy_dogs_def two_dogs_def wd_Lock_def wd_Watch_def timed_ops_def timed_pass_def wd_turn_def
        in_time_def holds_lock_def Let_def)
  have "reach (\<lambda>s. wd_init snd fst s \<and> (\<forall>k::string. (0::int) < 70)) ?step s"
    by (rule run_from_init [where s = two_dogs, OF _ s]) (rule two_dogs_init)
  from watchdog_mutual_exclusion [OF timed_setnx timed_del timed_expire timed_pass_law this h, of 1] h s
  show ?thesis by auto
qed



text \<open>
  C29. An abandoned lock comes free. If no goroutine watches a key any more, because its holder is gone
  or its context was cancelled, then whatever else happens, as long as nobody locks the key again,
  it is absent from the server once the clock has passed its deadline; and the first \<open>Lock\<close> after that
  which reports no error has acquired it and started its watcher.
\<close>

theorem abandoned_lock_freed:
  assumes "setnx_law R expires clock" and "del_law R expires clock" and "expire_law R expires clock"
    and "pass_law Pass expires clock"
    and "reach (\<lambda>s. wd_init expires clock s \<and> (\<forall>k. 0 < life k)) (wd_step R clock Pass life) s"
    and "\<forall>(c, j, dur) \<in> set (ww_watchers (sy_world s)). j \<noteq> k"
    and "run (wd_step R clock Pass life) s es = Some t" and "\<forall>e \<in> set es. \<forall>i v. e \<noteq> WLock i k v"
    and "\<forall>e. expires (ww_redis (sy_world s)) k = Some e \<longrightarrow> e \<le> clock (ww_redis (sy_world t))"
  shows "expires (ww_redis (sy_world t)) k = None \<and>
    (\<forall>d v dur d1 w1. 0 < dur \<longrightarrow> wd_Lock R d (sy_world t) k v dur = Done ((d1, w1), None) \<longrightarrow>
       (\<exists>c. wd_cancel d1 = Some c \<and> (c, k, dur) \<in> set (ww_watchers w1)))"
proof -
  have R: "timed_redis R expires clock Pass" using assms(1-4) by (rule timed_redis.intro)
  note inv = timed_redis.reach_inv [OF R assms(5)]
  have life: "\<forall>j. 0 < life j" using inv(2) by blast
  have "timed_redis.unwatched k s" using assms(6) by (auto simp: timed_redis.unwatched_def [OF R])
  from timed_redis.faded [OF R inv(1) life this assms(8,7,9)]
  show ?thesis using timed_redis.lock_of_free [OF R] by blast
qed

definition lost_dog :: "wd_event list" where
  "lost_dog = [WLock 0 ''k'' ''a'', WCancel 0, WTurn False (0, ''k'', 70)]"

theorem abandoned_lock_freed_witness:
  "\<exists>s t. run (wd_step timed_ops fst timed_pass (\<lambda>k. 70)) two_dogs lost_dog = Some s \<and>
     snd (ww_redis (sy_world s)) ''k'' = Some 70 \<and>
     run (wd_step timed_ops fst timed_pass (\<lambda>k. 70)) s [WPass 80] = Some t \<and>
     snd (ww_redis (sy_world t)) ''k'' = None"
proof -
  let ?step = "wd_step timed_ops fst timed_pass (\<lambda>k. 70)"
  obtain s t where s: "run ?step two_dogs lost_dog = Some s" "ww_watchers (sy_world s) = []"
      "snd (ww_redis (sy_world s)) ''k'' = Some 70"
    and t: "run ?step s [WPass 80] = Some t" "fst (ww_redis (sy_world t)) = 80"
    by (simp add: lost_dog_def two_dogs_def wd_Lock_def wd_Watch_def timed_ops_def timed_pass_def wd_turn_def
        in_time_def Let_def)
  have "reach (\<lambda>s. wd_init snd fst s \<and> (\<forall>k::string. (0::int) < 70)) ?step s"
    by (rule run_from_init [where s = two_dogs, OF _ s(1)]) (rule two_dogs_init)
  from abandoned_lock_freed [OF timed_setnx timed_del timed_expire timed_pass_law this _ t(1), of "''k''"] s t
  show ?thesis by auto
qed

text \<open>
  A lock object remembers one context only. When it has acquired two keys, the first \<open>Unlock\<close>, of
  either key, stops the renewal of the second key, and no \<open>Unlock\<close> stops the renewal of the first:
  its watcher outlives them all and renews the key for whoever takes it next.
\<close>

theorem second_lock_orphans_first:
  assumes "wd_Lock R d w k1 v1 dur1 = Done ((d1, w1), None)" and "ww_watchers w1 = (ww_next w, k1, dur1) # ww_watchers w"
    and "wd_Lock R d1 w1 k2 v2 dur2 = Done ((d2, w2), None)" and "ww_watchers w2 = (ww_next w1, k2, dur2) # ww_watchers w1"
    and "wd_Unlock R d2 w2 k1 = Done ((d3, w3), e3)" and "wd_Unlock R d3 w3 k2 = Done ((d4, w4), e4)"
    and "ww_next w \<notin> set (ww_cancelled w)"
  shows "ww_next w1 \<in> set (ww_cancelled w3) \<and> (ww_next w, k1, dur1) \<in> live w4"
proof -
  have 1: "ww_next w1 = Suc (ww_next w)" "ww_cancelled w1 = ww_cancelled w"
    using assms(1,2) by (auto simp: wd_Lock_def wd_Watch_def nil_client_def Let_def split: if_splits prod.splits)
  have 2: "wd_cancel d2 = Some (ww_next w1)" "ww_cancelled w2 = ww_cancelled w1"
    using assms(3,4) by (auto simp: wd_Lock_def wd_Watch_def nil_client_def Let_def split: if_splits prod.splits)
  have 3: "d3 = d2" "ww_cancelled w3 = ww_next w1 # ww_cancelled w2" "ww_watchers w3 = ww_watchers w2"
    using assms(5) 2(1) by (auto simp: wd_Unlock_def nil_client_def Let_def split: if_splits prod.splits)
  have 4: "ww_cancelled w4 = ww_next w1 # ww_cancelled w3" "ww_watchers w4 = ww_watchers w3"
    using assms(6) 2(1) 3(1) by (auto simp: wd_Unlock_def nil_client_def Let_def split: if_splits prod.splits)
  show ?thesis using 1 2(2) 3(2,3) 4 assms(2,4,7) by (auto simp: live_def)
qed

theorem second_lock_orphans_first_witness:
  "\<exists>(d::watchdog) (w::(int \<times> (string \<rightharpoonup> int)) wd_world).
     wd_cancel d = Some 1 \<and> (0, ''a'', 70) \<in> live w \<and> ww_redis w = (0, Map.empty)"
proof -
  let ?d = "\<lambda>c. \<lparr>wd_client = True, wd_cancel = c\<rparr>"
  let ?w = "\<lambda>m cs ws n. \<lparr>ww_redis = (0::int, m::string \<rightharpoonup> int), ww_cancelled = cs, ww_watchers = ws, ww_next = n\<rparr>"
  have 1: "wd_Lock timed_ops (?d None) (?w Map.empty [] [] 0) ''a'' v 70
      = Done ((?d (Some 0), ?w [''a'' \<mapsto> 70] [] [(0, ''a'', 70)] 1), None)" for v
    by (simp add: wd_Lock_def wd_Watch_def timed_ops_def)
  have 2: "wd_Lock timed_ops (?d (Some 0)) (?w [''a'' \<mapsto> 70] [] [(0, ''a'', 70)] 1) ''b'' v 70
      = Done ((?d (Some 1), ?w [''a'' \<mapsto> 70, ''b'' \<mapsto> 70] [] [(1, ''b'', 70), (0, ''a'', 70)] 2), None)" for v
    by (simp add: wd_Lock_def wd_Watch_def timed_ops_def)
  have 3: "wd_Unlock timed_ops (?d (Some 1)) (?w [''a'' \<mapsto> 70, ''b'' \<mapsto> 70] [] [(1, ''b'', 70), (0, ''a'', 70)] 2) ''a''
      = Done ((?d (Some 1), ?w [''b'' \<mapsto> 70] [1] [(1, ''b'', 70), (0, ''a'', 70)] 2), None)"
    by (simp add: wd_Unlock_def timed_ops_def fun_eq_iff)
  have 4: "wd_Unlock timed_ops (?d (Some 1)) (?w [''b'' \<mapsto> 70] [1] [(1, ''b'', 70), (0, ''a'', 70)] 2) ''b''
      = Done ((?d (Some 1), ?w Map.empty [1, 1] [(1, ''b'', 70), (0, ''a'', 70)] 2), None)"
    by (simp add: wd_Unlock_def timed_ops_def fun_eq_iff)
  let ?w4 = "?w Map.empty [1, 1] [(1, ''b'', 70), (0, ''a'', 70)] 2"
  from second_lock_orphans_first [OF 1 _ 2 _ 3 4] have "(0, ''a'', 70) \<in> live ?w4" by simp
  then have "wd_cancel (?d (Some 1)) = Some 1 \<and> (0, ''a'', 70) \<in> live ?w4 \<and> ww_redis ?w4 = (0, Map.empty)"
    by simp
  then show ?thesis by blast
qed

end
