(* ===== verification/Go_Url.thy ===== *)
theory Go_Url
  imports Prelude "HOL-Library.List_Lexorder" "HOL-Library.Char_ord"
begin

text \<open>
  What the HTTP packages use of Go's package net/url: query escaping, \<open>Values.Encode\<close>,
  \<open>ParseQuery\<close> and \<open>Values.Get\<close>, with the round trip from encoding to parsing.
\<close>

section \<open>Escaping\<close>

definition is_alnum :: "char \<Rightarrow> bool" where
  "is_alnum c = (let n = (of_char c :: nat)
     in 48 \<le> n \<and> n \<le> 57 \<or> 65 \<le> n \<and> n \<le> 90 \<or> 97 \<le> n \<and> n \<le> 122)"

definition unreserved :: "char \<Rightarrow> bool" where
  "unreserved c = (is_alnum c \<or> c \<in> set ''-_.~'')"

definition hex_digit :: "nat \<Rightarrow> char" where
  "hex_digit n = char_of (if n < 10 then 48 + n else 55 + n)"

definition unhex :: "char \<Rightarrow> nat option" where
  "unhex c = (let n = (of_char c :: nat)
     in if 48 \<le> n \<and> n \<le> 57 then Some (n - 48)
        else if 97 \<le> n \<and> n \<le> 102 then Some (n - 87)
        else if 65 \<le> n \<and> n \<le> 70 then Some (n - 55)
        else None)"

definition escape_char :: "char \<Rightarrow> string" where
  "escape_char c =
     (if unreserved c then [c]
      else if c = CHR '' '' then ''+''
      else [CHR ''%'', hex_digit (of_char c div 16), hex_digit (of_char c mod 16)])"

definition QueryEscape :: "string \<Rightarrow> string" where
  "QueryEscape s = concat (map escape_char s)"

fun QueryUnescape :: "string \<Rightarrow> string option" where
  "QueryUnescape [] = Some []"
| "QueryUnescape (c # s) =
     (if c = CHR ''%'' then
        (case s of
           a # b # r \<Rightarrow>
             (case (unhex a, unhex b) of
                (Some x, Some y) \<Rightarrow> map_option (Cons (char_of (16 * x + y))) (QueryUnescape r)
              | _ \<Rightarrow> None)
         | _ \<Rightarrow> None)
      else map_option (Cons (if c = CHR ''+'' then CHR '' '' else c)) (QueryUnescape s))"

lemma unhex_hex_digit: "n < 16 \<Longrightarrow> unhex (hex_digit n) = Some n"
  by (auto simp: unhex_def hex_digit_def Let_def)

lemma unreserved_not [simp]:
  "\<not> unreserved (CHR ''%'')" "\<not> unreserved (CHR ''+'')" "\<not> unreserved (CHR ''&'')"
  "\<not> unreserved (CHR ''='')" "\<not> unreserved (CHR '';'')" "\<not> unreserved (CHR ''?'')"
  "\<not> unreserved (CHR ''#'')"
  by (simp_all add: unreserved_def is_alnum_def)

lemma QueryUnescape_escape_char:
  "QueryUnescape (escape_char c @ t) = map_option (Cons c) (QueryUnescape t)"
proof -
  consider "unreserved c" | "\<not> unreserved c" "c = CHR '' ''" | "\<not> unreserved c" "c \<noteq> CHR '' ''" by blast
  then show ?thesis
  proof cases
    case 1
    then have "c \<noteq> CHR ''%''" "c \<noteq> CHR ''+''" by auto
    with 1 show ?thesis by (simp add: escape_char_def)
  next
    case 2
    then show ?thesis by (simp add: escape_char_def)
  next
    case 3
    let ?n = "of_char c :: nat"
    have "?n div 16 < 16" using nat_of_char_less_256 [of c] by (simp add: div_less_iff_less_mult del: nat_of_char_less_256)
    moreover have "16 * (?n div 16) + ?n mod 16 = ?n" by simp
    ultimately show ?thesis using 3 by (simp add: escape_char_def unhex_hex_digit)
  qed
qed

lemma QueryUnescape_QueryEscape: "QueryUnescape (QueryEscape s) = Some s"
proof (induction s)
  case (Cons c s)
  have "QueryEscape (c # s) = escape_char c @ QueryEscape s" by (simp add: QueryEscape_def)
  then show ?case by (simp add: QueryUnescape_escape_char Cons)
qed (simp add: QueryEscape_def)

text \<open>The bytes an escaped text cannot contain.\<close>

lemma hex_digit_alnum: "n < 16 \<Longrightarrow> is_alnum (hex_digit n)"
  by (auto simp: is_alnum_def hex_digit_def Let_def)

lemma is_alnum_not [simp]:
  "\<not> is_alnum (CHR ''&'')" "\<not> is_alnum (CHR ''='')" "\<not> is_alnum (CHR '';'')" "\<not> is_alnum (CHR ''?'')"
  "\<not> is_alnum (CHR ''#'')"
  by (simp_all add: is_alnum_def)

lemma QueryEscape_no:
  assumes "x \<in> {CHR ''&'', CHR ''='', CHR '';'', CHR ''?'', CHR ''#''}"
  shows "x \<notin> set (QueryEscape s)"
proof -
  have "x \<notin> set (escape_char c)" for c
  proof -
    have n: "(of_char c :: nat) div 16 < 16" "(of_char c :: nat) mod 16 < 16"
      using nat_of_char_less_256 [of c]
      by (simp_all add: div_less_iff_less_mult del: nat_of_char_less_256)
    have "\<not> unreserved x" "\<not> is_alnum x" using assms by auto
    then have "x \<noteq> hex_digit (of_char c div 16)" "x \<noteq> hex_digit (of_char c mod 16)"
      using hex_digit_alnum [OF n(1)] hex_digit_alnum [OF n(2)] by auto
    with assms \<open>\<not> unreserved x\<close> show ?thesis by (auto simp: escape_char_def)
  qed
  then show ?thesis by (simp add: QueryEscape_def)
qed

section \<open>Values\<close>

text \<open>
  \<open>url.Values\<close>: the lists of values by key, as an association list (without repeated keys) in
  the order in which a range over the map visits it. \<open>Encode\<close> sorts the keys.
\<close>

type_synonym url_values = "(string \<times> string list) list"

definition encode_pair :: "string \<times> string \<Rightarrow> string" where
  "encode_pair kv = QueryEscape (fst kv) @ ''='' @ QueryEscape (snd kv)"

fun join :: "string \<Rightarrow> string list \<Rightarrow> string" where
  "join sep [] = []"
| "join sep [x] = x"
| "join sep (x # y # xs) = x @ sep @ join sep (y # xs)"

definition values_of :: "url_values \<Rightarrow> string \<Rightarrow> string list" where
  "values_of vs k = (case map_of vs k of None \<Rightarrow> [] | Some xs \<Rightarrow> xs)"

definition value_pairs :: "url_values \<Rightarrow> (string \<times> string) list" where
  "value_pairs vs = concat (map (\<lambda>k. map (Pair k) (values_of vs k)) (sort (map fst vs)))"

definition Encode :: "url_values \<Rightarrow> string" where
  "Encode vs = join ''&'' (map encode_pair (value_pairs vs))"

text \<open>
  \<open>Values.Get\<close>: the first value, or the empty string. \<open>ParseQuery\<close> as the list of the pairs it
  appends, in order, with the error it returns; a piece that is malformed is skipped.
\<close>

definition first_value :: "string list \<Rightarrow> string" where
  "first_value xs = (case xs of [] \<Rightarrow> [] | x # _ \<Rightarrow> x)"

fun split_on :: "char \<Rightarrow> string \<Rightarrow> string list" where
  "split_on c [] = [[]]"
| "split_on c (x # xs) =
     (if x = c then [] # split_on c xs
      else case split_on c xs of [] \<Rightarrow> [[x]] | y # ys \<Rightarrow> (x # y) # ys)"

fun cut :: "char \<Rightarrow> string \<Rightarrow> string \<times> string" where
  "cut c [] = ([], [])"
| "cut c (x # xs) = (if x = c then ([], xs) else let (a, b) = cut c xs in (x # a, b))"

definition parse_piece :: "string \<Rightarrow> (string \<times> string) list \<times> bool" where
  "parse_piece p =
     (if CHR '';'' \<in> set p then ([], False)
      else if p = [] then ([], True)
      else
        let (k, v) = cut (CHR ''='') p
        in case (QueryUnescape k, QueryUnescape v) of
             (Some k1, Some v1) \<Rightarrow> ([(k1, v1)], True)
           | _ \<Rightarrow> ([], False))"

definition ParseQuery :: "string \<Rightarrow> (string \<times> string) list \<times> bool" where
  "ParseQuery q =
     (let rs = map parse_piece (split_on (CHR ''&'') q)
      in (concat (map fst rs), list_all snd rs))"

definition pairs_of :: "(string \<times> string) list \<Rightarrow> string \<Rightarrow> string list" where
  "pairs_of ps k = map snd (filter (\<lambda>p. fst p = k) ps)"

subsection \<open>Encoding, then parsing\<close>

lemma split_on_ne: "split_on c xs \<noteq> []"
  by (induction xs) (auto split: list.split)

lemma split_on_single: "c \<notin> set xs \<Longrightarrow> split_on c xs = [xs]"
  by (induction xs) auto

lemma split_on_append:
  "c \<notin> set xs \<Longrightarrow> split_on c (xs @ c # ys) = xs # split_on c ys"
  by (induction xs) auto

lemma split_on_join:
  assumes "\<forall>p \<in> set ps. c \<notin> set p" and "ps \<noteq> []"
  shows "split_on c (join [c] ps) = ps"
  using assms by (induction "[c]" ps rule: join.induct) (simp_all add: split_on_single split_on_append)

lemma split_on_middle:
  "split_on c (xs @ c # ys) = split_on c xs @ split_on c ys"
proof (induction xs)
  case (Cons x xs)
  show ?case
  proof (cases "x = c")
    case False
    obtain z zs where "split_on c xs = z # zs" using split_on_ne [of c xs] by (cases "split_on c xs") auto
    with Cons False show ?thesis by simp
  qed (simp add: Cons)
qed simp

lemma cut_append: "c \<notin> set xs \<Longrightarrow> cut c (xs @ c # ys) = (xs, ys)"
  by (induction xs) auto

lemma parse_piece_encode_pair: "parse_piece (encode_pair kv) = ([kv], True)"
proof -
  have "CHR '';'' \<notin> set (encode_pair kv)" by (simp add: encode_pair_def QueryEscape_no)
  moreover have "cut (CHR ''='') (encode_pair kv) = (QueryEscape (fst kv), QueryEscape (snd kv))"
    by (simp add: encode_pair_def cut_append QueryEscape_no)
  ultimately show ?thesis
    by (simp add: parse_piece_def QueryUnescape_QueryEscape) (simp add: encode_pair_def)
qed

lemma encode_pair_no_amp: "CHR ''&'' \<notin> set (encode_pair kv)"
  by (simp add: encode_pair_def QueryEscape_no)

lemma ParseQuery_Encode: "ParseQuery (Encode vs) = (value_pairs vs, True)"
proof (cases "value_pairs vs = []")
  case True
  then show ?thesis by (simp add: Encode_def ParseQuery_def parse_piece_def)
next
  case False
  have "split_on (CHR ''&'') (Encode vs) = map encode_pair (value_pairs vs)"
    using False by (simp add: Encode_def split_on_join encode_pair_no_amp)
  then show ?thesis by (simp add: ParseQuery_def parse_piece_encode_pair comp_def list_all_iff)
qed

lemma ParseQuery_append:
  "ParseQuery (p @ CHR ''&'' # q) =
     (fst (ParseQuery p) @ fst (ParseQuery q), snd (ParseQuery p) \<and> snd (ParseQuery q))"
  by (simp add: ParseQuery_def split_on_middle Let_def)

lemma pairs_of_append: "pairs_of (ps @ qs) k = pairs_of ps k @ pairs_of qs k"
  by (simp add: pairs_of_def)

lemma pairs_of_key: "pairs_of (map (Pair j) xs) k = (if j = k then xs else [])"
  by (induction xs) (auto simp: pairs_of_def)

lemma pairs_of_concat:
  assumes "distinct ks"
  shows "pairs_of (concat (map (\<lambda>k. map (Pair k) (f k)) ks)) k = (if k \<in> set ks then f k else [])"
  using assms
proof (induction ks)
  case Nil
  then show ?case by (simp add: pairs_of_def)
next
  case (Cons j ks)
  then show ?case by (auto simp: pairs_of_append pairs_of_key)
qed

text \<open>What a key has in the parsed encoding is what it had in the values.\<close>

lemma pairs_of_value_pairs:
  assumes "distinct (map fst vs)"
  shows "pairs_of (value_pairs vs) k = values_of vs k"
proof -
  have "pairs_of (value_pairs vs) k = (if k \<in> fst ` set vs then values_of vs k else [])"
    using assms by (simp add: value_pairs_def pairs_of_concat)
  moreover have "values_of vs k = []" if "k \<notin> fst ` set vs"
    using that by (simp add: values_of_def map_of_eq_None_iff [THEN iffD2])
  ultimately show ?thesis by auto
qed

end
