(* ===== verification/Observability.thy ===== *)
theory Observability
  imports Prelude
begin

text \<open>
  The environment, the context logger and the metrics (src/oneenv/env.go, src/onelog/onelog.go,
  src/oneprom/prom.go). A context is represented by the logger it carries; prometheus by the
  samples that were recorded.
\<close>

section \<open>Environment\<close>

record environment =
  env_Env :: string
  env_App :: string

definition GetEnv :: "environment \<Rightarrow> string" where "GetEnv c = env_Env c"
definition GetApp :: "environment \<Rightarrow> string" where "GetApp c = env_App c"
definition IsProd :: "environment \<Rightarrow> bool" where "IsProd c = (env_Env c = ''prod'')"
definition IsPre :: "environment \<Rightarrow> bool" where "IsPre c = (env_Env c = ''pre'')"
definition IsTest :: "environment \<Rightarrow> bool" where "IsTest c = (env_Env c = ''test'')"
definition IsDev :: "environment \<Rightarrow> bool" where "IsDev c = (env_Env c = ''dev'')"

text \<open>\<open>os.Getenv\<close> gives the empty string for a variable that is not set.\<close>

definition GetEnvWithDefault :: "(string \<Rightarrow> string) \<Rightarrow> string \<Rightarrow> string \<Rightarrow> string" where
  "GetEnvWithDefault getenv key defaultValue =
     (let val = getenv key in if val = [] then defaultValue else val)"

text \<open>
  \<open>Init\<close>: \<open>envconfig.Process\<close>, an argument, gets a copy of the struct and not a pointer to it, so
  whatever it makes of it, the caller's variable stays as it is. The library fills only what it gets
  a pointer to and refuses the rest: then \<open>Init\<close> always fails.
\<close>

datatype env_spec = ByValue environment | ByPointer environment

definition env_Init ::
  "(string \<Rightarrow> env_spec \<Rightarrow> env_spec \<times> string option) \<Rightarrow> environment \<Rightarrow> environment \<times> string option" where
  "env_Init Process env = (env, snd (Process [] (ByValue env)))"

lemma env_Init_fails:
  assumes "\<And>prefix env. Process prefix (ByValue env) = (ByValue env, Some err)"
  shows "env_Init Process env = (env, Some err)"
  by (simp add: env_Init_def assms)

text \<open>At most one of the four predicates holds.\<close>

lemma env_predicates_exclusive:
  "length (filter (\<lambda>f. f c) [IsProd, IsPre, IsTest, IsDev]) \<le> 1"
  by (simp add: IsProd_def IsPre_def IsTest_def IsDev_def)

section \<open>Logger\<close>

datatype log_value =
    LStr string | LBytes string | LStrs "string list" | LInt64 int | LInts64 "int list"
  | LAny string | LErr string

text \<open>A level of zerolog is a number; an event is logged from the logger's level upwards.\<close>

datatype log_level = Level (level_num: int)

abbreviation DebugLevel :: log_level where "DebugLevel \<equiv> Level 0"
abbreviation InfoLevel :: log_level where "InfoLevel \<equiv> Level 1"
abbreviation ErrorLevel :: log_level where "ErrorLevel \<equiv> Level 3"

instantiation log_level :: linorder
begin

definition less_eq_log_level :: "log_level \<Rightarrow> log_level \<Rightarrow> bool" where
  "a \<le> b \<longleftrightarrow> level_num a \<le> level_num b"

definition less_log_level :: "log_level \<Rightarrow> log_level \<Rightarrow> bool" where
  "a < b \<longleftrightarrow> level_num a < level_num b"

instance
  by standard (auto simp: less_eq_log_level_def less_log_level_def intro: log_level.expand)

end

text \<open>A zerolog logger: its level and the fields every event will carry, in order.\<close>

record logger =
  lg_level :: log_level
  lg_fields :: "(string \<times> log_value) list"

record log_state =
  ls_once :: bool
  ls_default :: logger

definition log_Init :: "environment \<Rightarrow> log_state \<Rightarrow> log_state" where
  "log_Init cfg s =
     (if ls_once s then s
      else
        let l = \<lparr>lg_level = lg_level (ls_default s),
                 lg_fields = [(''app'', LStr (GetApp cfg)), (''env'', LStr (GetEnv cfg))]\<rparr>
        in \<lparr>ls_once = True,
            ls_default = (if IsProd cfg then l\<lparr>lg_level := InfoLevel\<rparr>
                          else l\<lparr>lg_level := DebugLevel\<rparr>)\<rparr>)"

definition log_Get :: "log_state \<Rightarrow> logger" where "log_Get s = ls_default s"

text \<open>An event of level \<open>lvl\<close> is written by the logger.\<close>

definition log_enabled :: "logger \<Rightarrow> log_level \<Rightarrow> bool" where
  "log_enabled l lvl \<longleftrightarrow> lg_level l \<le> lvl"

text \<open>The first \<open>Init\<close> decides: in production debug events are dropped, elsewhere they are kept.\<close>

lemma log_Init_debug:
  assumes "\<not> ls_once s"
  shows "log_enabled (log_Get (log_Init cfg2 (log_Init cfg s))) DebugLevel \<longleftrightarrow> \<not> IsProd cfg"
    and "log_enabled (log_Get (log_Init cfg2 (log_Init cfg s))) InfoLevel"
  using assms by (simp_all add: log_enabled_def log_Get_def log_Init_def Let_def less_eq_log_level_def)

lemma log_enabled_mono: "log_enabled l a \<Longrightarrow> a \<le> b \<Longrightarrow> log_enabled l b"
  unfolding log_enabled_def by (rule order_trans)

definition log_field :: "string \<Rightarrow> log_value \<Rightarrow> logger \<Rightarrow> logger" where
  "log_field key val ctx = ctx\<lparr>lg_fields := lg_fields ctx @ [(key, val)]\<rparr>"

definition log_Level :: "logger \<Rightarrow> log_level \<Rightarrow> logger" where
  "log_Level ctx lvl = ctx\<lparr>lg_level := lvl\<rparr>"

definition log_Str :: "logger \<Rightarrow> string \<Rightarrow> string \<Rightarrow> logger" where
  "log_Str ctx key val = log_field key (LStr val) ctx"

definition log_Strs :: "logger \<Rightarrow> string \<Rightarrow> string list \<Rightarrow> logger" where
  "log_Strs ctx key val = log_field key (LStrs val) ctx"

definition log_Int64 :: "logger \<Rightarrow> string \<Rightarrow> int \<Rightarrow> logger" where
  "log_Int64 ctx key val = log_field key (LInt64 val) ctx"

definition log_Int64s :: "logger \<Rightarrow> string \<Rightarrow> int list \<Rightarrow> logger" where
  "log_Int64s ctx key val = log_field key (LInts64 val) ctx"

definition log_Bytes :: "logger \<Rightarrow> string \<Rightarrow> string \<Rightarrow> logger" where
  "log_Bytes ctx key val = log_field key (LBytes val) ctx"

definition log_Any :: "logger \<Rightarrow> string \<Rightarrow> string \<Rightarrow> logger" where
  "log_Any ctx key val = log_field key (LAny val) ctx"

definition log_Err :: "logger \<Rightarrow> string \<Rightarrow> string \<Rightarrow> logger" where
  "log_Err ctx key val = log_field key (LErr val) ctx"

text \<open>A string that is not shorter than the limit is cut; a negative limit cannot slice it.\<close>

definition log_StrWithSize :: "logger \<Rightarrow> string \<Rightarrow> string \<Rightarrow> int \<Rightarrow> logger outcome" where
  "log_StrWithSize ctx key val maxSize =
     (if maxSize = 0 \<or> int (length val) < maxSize then Done (log_field key (LStr val) ctx)
      else if maxSize < 0 then Panic ''slice bounds out of range''
      else Done (log_field key (LStr (take (nat maxSize) val)) ctx))"

definition log_BytesWithSize :: "logger \<Rightarrow> string \<Rightarrow> string \<Rightarrow> int \<Rightarrow> logger" where
  "log_BytesWithSize ctx key val maxSize =
     (if maxSize = 0 \<or> int (length val) < maxSize then log_field key (LBytes val) ctx else ctx)"

text \<open>
  At the limit a string is logged whole and a byte slice is left out; above it, the string is cut.
\<close>

lemma log_size_at_limit:
  assumes "0 < maxSize" and "maxSize \<le> int (length val)"
  shows "log_StrWithSize ctx key val maxSize = Done (log_Str ctx key (take (nat maxSize) val))"
    and "log_BytesWithSize ctx key val maxSize = ctx"
  using assms by (simp_all add: log_StrWithSize_def log_BytesWithSize_def log_Str_def)

section \<open>Metrics\<close>

text \<open>A sample: the metric, its label values in the order of declaration, and what was recorded.\<close>

datatype 'f sample_value = Added int | Observed 'f

record 'f prom =
  pm_once :: bool
  pm_ready :: bool
  pm_app :: string
  pm_env :: string
  pm_samples :: "(string \<times> string list \<times> 'f sample_value) list"

text \<open>The zero value of \<open>defaultProm\<close>, and \<open>Init\<close>, which registers the metrics once.\<close>

definition prom_zero :: "'f prom" where
  "prom_zero = \<lparr>pm_once = False, pm_ready = False, pm_app = [], pm_env = [], pm_samples = []\<rparr>"

definition prom_Init :: "environment \<Rightarrow> 'f prom \<Rightarrow> 'f prom" where
  "prom_Init cfg p =
     (if pm_once p then p
      else p\<lparr>pm_once := True, pm_ready := True, pm_app := GetApp cfg, pm_env := GetApp cfg\<rparr>)"

text \<open>Before \<open>Init\<close> the vectors are nil.\<close>

definition prom_record ::
  "string \<Rightarrow> string list \<Rightarrow> 'f sample_value \<Rightarrow> 'f prom \<Rightarrow> 'f prom outcome" where
  "prom_record metric labels v p =
     (if \<not> pm_ready p then Panic ''invalid memory address or nil pointer dereference''
      else Done (p\<lparr>pm_samples := pm_samples p @ [(metric, labels, v)]\<rparr>))"

definition prom_uptime :: "environment \<Rightarrow> 'f prom \<Rightarrow> 'f prom outcome" where
  "prom_uptime cfg p = prom_record ''server_uptime_total'' [GetApp cfg, GetEnv cfg] (Added 1) p"

definition Statsd :: "string \<Rightarrow> string \<Rightarrow> int \<Rightarrow> 'f prom \<Rightarrow> 'f prom outcome" where
  "Statsd target key add p =
     (if add \<le> 0 then Done p
      else prom_record ''server_call_total'' [pm_app p, pm_env p, target, key] (Added add) p)"

definition Timing :: "string \<Rightarrow> string \<Rightarrow> 'f \<Rightarrow> 'f prom \<Rightarrow> 'f prom outcome" where
  "Timing target key cost p =
     prom_record ''server_call_seconds'' [pm_app p, pm_env p, target, key] (Observed cost) p"

text \<open>The methods of \<open>prom\<close>, with the same bodies.\<close>

definition prom_Statsd :: "'f prom \<Rightarrow> string \<Rightarrow> string \<Rightarrow> int \<Rightarrow> 'f prom outcome" where
  "prom_Statsd p target key add =
     (if add \<le> 0 then Done p
      else prom_record ''server_call_total'' [pm_app p, pm_env p, target, key] (Added add) p)"

definition prom_Timing :: "'f prom \<Rightarrow> string \<Rightarrow> string \<Rightarrow> 'f \<Rightarrow> 'f prom outcome" where
  "prom_Timing p target key cost =
     prom_record ''server_call_seconds'' [pm_app p, pm_env p, target, key] (Observed cost) p"

lemma prom_methods: "prom_Statsd p target key add = Statsd target key add p"
  "prom_Timing p target key cost = Timing target key cost p"
  by (simp_all add: prom_Statsd_def Statsd_def prom_Timing_def Timing_def)

definition ServerStartedCounter :: "string \<Rightarrow> 'f prom \<Rightarrow> 'f prom outcome" where
  "ServerStartedCounter handlerName p =
     prom_record ''server_started_total'' [pm_app p, pm_env p, handlerName] (Added 1) p"

definition ServerHandledCounter :: "(int \<Rightarrow> string) \<Rightarrow> string \<Rightarrow> int \<Rightarrow> 'f prom \<Rightarrow> 'f prom outcome" where
  "ServerHandledCounter ToString handlerName code p =
     prom_record ''server_handled_total'' [pm_app p, pm_env p, handlerName, ToString code] (Added 1) p"

text \<open>A duration in whole milliseconds, with Go's truncating division.\<close>

definition Milliseconds :: "int \<Rightarrow> int" where
  "Milliseconds d = (if d < 0 then - ((- d) div 1000000) else d div 1000000)"

definition ServerHandledHistogram ::
  "(int \<Rightarrow> 'f) \<Rightarrow> string \<Rightarrow> int \<Rightarrow> 'f prom \<Rightarrow> 'f prom outcome" where
  "ServerHandledHistogram ToFloat64 handlerName cost p =
     prom_record ''server_handling_seconds'' [pm_app p, pm_env p, handlerName]
       (Observed (ToFloat64 (Milliseconds cost))) p"

text \<open>Any sequence of calls of the package, later calls of \<open>Init\<close> included.\<close>

datatype 'f prom_call =
    CInit environment
  | CStatsd string string int
  | CTiming string string 'f
  | CStarted string
  | CHandled string int
  | CHandling string int

definition prom_call ::
  "(int \<Rightarrow> string) \<Rightarrow> (int \<Rightarrow> 'f) \<Rightarrow> 'f prom_call \<Rightarrow> 'f prom \<Rightarrow> 'f prom outcome" where
  "prom_call ToString ToFloat64 c p =
     (case c of
        CInit cfg \<Rightarrow> Done (prom_Init cfg p)
      | CStatsd target key add \<Rightarrow> Statsd target key add p
      | CTiming target key cost \<Rightarrow> Timing target key cost p
      | CStarted h \<Rightarrow> ServerStartedCounter h p
      | CHandled h code \<Rightarrow> ServerHandledCounter ToString h code p
      | CHandling h cost \<Rightarrow> ServerHandledHistogram ToFloat64 h cost p)"

fun prom_calls ::
  "(int \<Rightarrow> string) \<Rightarrow> (int \<Rightarrow> 'f) \<Rightarrow> 'f prom_call list \<Rightarrow> 'f prom \<Rightarrow> 'f prom outcome" where
  "prom_calls ToString ToFloat64 [] p = Done p"
| "prom_calls ToString ToFloat64 (c # cs) p =
     obind (prom_call ToString ToFloat64 c p) (prom_calls ToString ToFloat64 cs)"

definition prom_labelled :: "string \<Rightarrow> 'f prom \<Rightarrow> bool" where
  "prom_labelled app p \<longleftrightarrow> pm_once p \<and> pm_ready p \<and> pm_app p = app \<and> pm_env p = app \<and>
     (\<forall>(m, ls, v) \<in> set (pm_samples p). take 2 ls = [app, app] \<and> (\<forall>n. v = Added n \<longrightarrow> 0 < n))"

lemma prom_labelled_call:
  assumes "prom_labelled app p"
  shows "\<exists>q. prom_call ToString ToFloat64 c p = Done q \<and> prom_labelled app q"
  using assms
  by (cases c) (auto simp: prom_call_def prom_labelled_def prom_Init_def Statsd_def Timing_def
      ServerStartedCounter_def ServerHandledCounter_def ServerHandledHistogram_def prom_record_def)

lemma prom_labelled_calls:
  "prom_labelled app p \<Longrightarrow> \<exists>q. prom_calls ToString ToFloat64 cs p = Done q \<and> prom_labelled app q"
proof (induction cs arbitrary: p)
  case (Cons c cs)
  obtain q where "prom_call ToString ToFloat64 c p = Done q" "prom_labelled app q"
    using prom_labelled_call [OF Cons.prems] by blast
  with Cons.IH [of q] show ?case by simp
qed simp

text \<open>
  Once the package is initialised no call panics and every counter only grows, but every
  sample it records, of every service metric, carries the application's name as its \<open>env\<close> label
  too: \<open>Init\<close> fills both labels from \<open>GetApp\<close>.
\<close>

theorem prom_env_label_is_app:
  "\<exists>q. prom_calls ToString ToFloat64 cs (prom_Init cfg prom_zero) = Done q \<and>
     (\<forall>(m, ls, v) \<in> set (pm_samples q).
        take 2 ls = [GetApp cfg, GetApp cfg] \<and> (\<forall>n. v = Added n \<longrightarrow> 0 < n))"
proof -
  have "prom_labelled (GetApp cfg) (prom_Init cfg prom_zero)"
    by (simp add: prom_labelled_def prom_Init_def prom_zero_def)
  from prom_labelled_calls [OF this, of ToString ToFloat64 cs] show ?thesis
    by (auto simp: prom_labelled_def)
qed

theorem prom_env_label_is_app_witness:
  "\<exists>q. prom_calls (\<lambda>n. []) (\<lambda>n. n) [CStarted ''H'', CStatsd ''t'' ''k'' 3]
      (prom_Init \<lparr>env_Env = ''prod'', env_App = ''shop''\<rparr> prom_zero) = Done q \<and>
    pm_samples q = [(''server_started_total'', [''shop'', ''shop'', ''H''], Added 1),
      (''server_call_total'', [''shop'', ''shop'', ''t'', ''k''], Added 3)]"
proof -
  obtain q where "prom_calls (\<lambda>n. []) (\<lambda>n. n) [CStarted ''H'', CStatsd ''t'' ''k'' 3]
      (prom_Init \<lparr>env_Env = ''prod'', env_App = ''shop''\<rparr> prom_zero) = Done q"
    using prom_env_label_is_app [of "\<lambda>n. []" "\<lambda>n. n" "[CStarted ''H'', CStatsd ''t'' ''k'' 3]"
      "\<lparr>env_Env = ''prod'', env_App = ''shop''\<rparr>"] by blast
  moreover from this have "pm_samples q = [(''server_started_total'', [''shop'', ''shop'', ''H''], Added 1),
      (''server_call_total'', [''shop'', ''shop'', ''t'', ''k''], Added 3)]"
    by (auto simp: prom_call_def prom_Init_def prom_zero_def ServerStartedCounter_def Statsd_def
      prom_record_def GetApp_def)
  ultimately show ?thesis by blast
qed

end
