(* ===== verification/Net.thy ===== *)
theory Net
  imports Go_Url Observability "HOL-Library.AList"
begin

text \<open>
  The HTTP clients of package onenet: requests and their settings (src/onenet/http.go), the two
  clients (standard.go over net/http, fast.go over fasthttp) and the global instances
  (global.go). Sending a request, the codecs and gzip are arguments.
\<close>

section \<open>Requests\<close>

text \<open>
  A request body by the case of the type switch that takes it. Messages and other values are
  opaque: numbers that the codecs know.
\<close>

type_synonym bytes = string
type_synonym headers = "(string \<times> string) list"

datatype body =
    BReader bytes | BForm url_values | BStr string | BBytes bytes | BProto nat | BOther nat | BNil

definition hour :: int where "hour = 3600000000000"
definition defaultTimeout :: int where "defaultTimeout = hour"
definition defaultLogBodySize :: int where "defaultLogBodySize = 1 * 1024"
definition defaultResBodySize :: int where "defaultResBodySize = 64 * 1024 * 1024"

text \<open>A header map is nil (\<open>None\<close>) or has entries.\<close>

record one_request =
  rq_Method :: string
  rq_URL :: string
  rq_Query :: url_values
  rq_Header :: "headers option"
  rq_ContentType :: string
  rq_Body :: body
  rq_Timeout :: int
  rq_LogLevel :: "log_level option"
  rq_MaxLogBodySize :: int
  rq_MaxResBodySize :: int
  rq_PromKey :: string

definition set_header :: "string \<Rightarrow> string \<Rightarrow> headers option \<Rightarrow> headers option outcome" where
  "set_header k v h =
     (case h of None \<Rightarrow> Panic ''assignment to entry in nil map''
      | Some hs \<Rightarrow> Done (Some (AList.update k v hs)))"

fun set_headers :: "headers \<Rightarrow> headers option \<Rightarrow> headers option outcome" where
  "set_headers [] h = Done h"
| "set_headers ((k, v) # kvs) h = obind (set_header k v h) (set_headers kvs)"

datatype req_setting =
    WithGzip bool
  | WithQuery url_values
  | WithHeader headers
  | WithContentType string
  | WithBody body
  | WithTimeout int
  | WithLogLevel log_level
  | WithMaxLogBodySize int
  | WithMaxResBodySize int
  | WithPromKey string

fun apply_setting :: "req_setting \<Rightarrow> one_request \<Rightarrow> one_request outcome" where
  "apply_setting (WithGzip enable) r =
     (if enable
      then obind (set_header ''Accept-Encoding'' ''gzip'' (rq_Header r)) (\<lambda>h. Done (r\<lparr>rq_Header := h\<rparr>))
      else Done (r\<lparr>rq_Header := map_option (AList.delete ''Accept-Encoding'') (rq_Header r)\<rparr>))"
| "apply_setting (WithQuery query) r = Done (r\<lparr>rq_Query := query\<rparr>)"
| "apply_setting (WithHeader header) r =
     obind (set_headers header (rq_Header r)) (\<lambda>h. Done (r\<lparr>rq_Header := h\<rparr>))"
| "apply_setting (WithContentType contentType) r = Done (r\<lparr>rq_ContentType := contentType\<rparr>)"
| "apply_setting (WithBody body) r = Done (r\<lparr>rq_Body := body\<rparr>)"
| "apply_setting (WithTimeout timeout) r = Done (r\<lparr>rq_Timeout := min (rq_Timeout r) timeout\<rparr>)"
| "apply_setting (WithLogLevel level) r = Done (r\<lparr>rq_LogLevel := Some level\<rparr>)"
| "apply_setting (WithMaxLogBodySize n) r = Done (r\<lparr>rq_MaxLogBodySize := n\<rparr>)"
| "apply_setting (WithMaxResBodySize n) r = Done (r\<lparr>rq_MaxResBodySize := n\<rparr>)"
| "apply_setting (WithPromKey key) r = Done (r\<lparr>rq_PromKey := key\<rparr>)"

fun apply_settings :: "req_setting list \<Rightarrow> one_request \<Rightarrow> one_request outcome" where
  "apply_settings [] r = Done r"
| "apply_settings (s # ss) r = obind (apply_setting s r) (apply_settings ss)"

definition NewOneRequest :: "string \<Rightarrow> string \<Rightarrow> req_setting list \<Rightarrow> one_request outcome" where
  "NewOneRequest method ul settings =
     apply_settings settings
       \<lparr>rq_Method = method, rq_URL = ul, rq_Query = [],
        rq_Header = Some [(''Accept-Encoding'', ''gzip'')], rq_ContentType = [], rq_Body = BNil,
        rq_Timeout = defaultTimeout, rq_LogLevel = None, rq_MaxLogBodySize = defaultLogBodySize,
        rq_MaxResBodySize = defaultResBodySize, rq_PromKey = []\<rparr>"

section \<open>Responses\<close>

text \<open>Where the body goes: the cases of the type switch on \<open>res.Res\<close>, with what is there.\<close>

datatype res_target = RWriter bytes | RString string | RBytes bytes | RProto nat | ROther nat

record one_response =
  rs_Res :: res_target
  rs_Header :: "headers option"
  rs_Status :: int

text \<open>
  What goes over the wire. A response body is the bytes that can be read and the error that the
  read after them gives, if not the end of the body.
\<close>

record wire_request =
  wq_method :: string
  wq_url :: string
  wq_headers :: headers
  wq_body :: "bytes option"

record wire_response =
  ws_status :: int
  ws_headers :: headers
  ws_body :: bytes
  ws_err :: "string option"

record net_ops =
  no_Do :: "wire_request \<Rightarrow> string + wire_response"
  no_BadRequest :: "string \<Rightarrow> string \<Rightarrow> string option"
  no_Canonical :: "string \<Rightarrow> string"
  no_ProtoMarshal :: "nat \<Rightarrow> string + bytes"
  no_JsonMarshal :: "body \<Rightarrow> string + bytes"
  no_ProtoUnmarshal :: "bytes \<Rightarrow> nat \<Rightarrow> nat \<times> string option"
  no_JsonUnmarshal :: "bytes \<Rightarrow> nat \<Rightarrow> nat \<times> string option"
  no_GzipHeader :: "bytes \<Rightarrow> string option"
  no_GzipRead :: "bytes \<Rightarrow> bytes \<times> string option"

section \<open>Shared steps of the two clients\<close>

text \<open>The URL with the query added; \<open>sep\<close> is what is put when there is a query already.\<close>

definition add_query :: "string \<Rightarrow> one_request \<Rightarrow> one_request" where
  "add_query sep r =
     (if rq_Query r = [] then r
      else if CHR ''?'' \<in> set (rq_URL r) then r\<lparr>rq_URL := rq_URL r @ sep @ Encode (rq_Query r)\<rparr>
      else r\<lparr>rq_URL := rq_URL r @ ''?'' @ Encode (rq_Query r)\<rparr>)"

text \<open>The bytes of the body, if the request has one, or the error of a codec.\<close>

definition body_bytes :: "net_ops \<Rightarrow> one_request \<Rightarrow> string + bytes option" where
  "body_bytes N r =
     (case rq_Body r of
        BReader b \<Rightarrow> Inr (Some b)
      | BForm vs \<Rightarrow> Inr (Some (Encode vs))
      | BStr s \<Rightarrow> Inr (Some s)
      | BBytes b \<Rightarrow> Inr (Some b)
      | BProto m \<Rightarrow> (case no_ProtoMarshal N m of Inl e \<Rightarrow> Inl e | Inr b \<Rightarrow> Inr (Some b))
      | v \<Rightarrow>
          if rq_ContentType r = ''application/json''
          then (case no_JsonMarshal N v of Inl e \<Rightarrow> Inl e | Inr b \<Rightarrow> Inr (Some b))
          else Inr None)"

definition add_content_type :: "one_request \<Rightarrow> one_request outcome" where
  "add_content_type r =
     (if rq_ContentType r = [] then Done r
      else obind (set_header ''Content-Type'' (rq_ContentType r) (rq_Header r))
             (\<lambda>h. Done (r\<lparr>rq_Header := h\<rparr>)))"

definition wire_headers :: "net_ops \<Rightarrow> one_request \<Rightarrow> headers" where
  "wire_headers N r =
     foldl (\<lambda>hs (k, v). AList.update (no_Canonical N k) v hs) []
       (case rq_Header r of None \<Rightarrow> [] | Some hs \<Rightarrow> hs)"

definition copy_headers :: "wire_response \<Rightarrow> one_response \<Rightarrow> one_response outcome" where
  "copy_headers w s =
     obind (set_headers (ws_headers w) (rs_Header s)) (\<lambda>h. Done (s\<lparr>rs_Header := h\<rparr>))"

text \<open>
  A gzip reader: nil, or with the error of a bad header, or about to read. A reader from the pool is
  reset, and then remembers the error of a bad header; without one (\<open>pooled\<close> says which) \<open>NewReader\<close>
  fails and the reader is nil. A nil reader cannot be used, nor closed when it is given back.
\<close>

datatype gzip_reader = NilReader | BadHeader string | Reading bytes

definition GetGzipReader :: "net_ops \<Rightarrow> bool \<Rightarrow> bytes \<Rightarrow> gzip_reader" where
  "GetGzipReader N pooled src =
     (if pooled
      then case no_GzipHeader N src of None \<Rightarrow> Reading src | Some e \<Rightarrow> BadHeader e
      else case no_GzipHeader N src of None \<Rightarrow> Reading src | Some e \<Rightarrow> NilReader)"

definition nil_reader :: "'a outcome" where
  "nil_reader = Panic ''invalid memory address or nil pointer dereference''"

definition PutGzipReader :: "gzip_reader \<Rightarrow> gzip_reader list \<Rightarrow> gzip_reader list outcome" where
  "PutGzipReader reader pool = (if reader = NilReader then nil_reader else Done (reader # pool))"

definition read_gzip :: "net_ops \<Rightarrow> gzip_reader \<Rightarrow> (bytes \<times> string option) outcome" where
  "read_gzip N reader =
     (case reader of NilReader \<Rightarrow> nil_reader | BadHeader e \<Rightarrow> Done ([], Some e) | Reading b \<Rightarrow> Done (no_GzipRead N b))"

text \<open>The fast client has methods of its own, of the same text.\<close>

definition fast_GetGzipReader :: "net_ops \<Rightarrow> bool \<Rightarrow> bytes \<Rightarrow> gzip_reader" where
  "fast_GetGzipReader N pooled src =
     (if pooled
      then case no_GzipHeader N src of None \<Rightarrow> Reading src | Some e \<Rightarrow> BadHeader e
      else case no_GzipHeader N src of None \<Rightarrow> Reading src | Some e \<Rightarrow> NilReader)"

definition fast_PutGzipReader :: "gzip_reader \<Rightarrow> gzip_reader list \<Rightarrow> gzip_reader list outcome" where
  "fast_PutGzipReader reader pool = (if reader = NilReader then nil_reader else Done (reader # pool))"

text \<open>Take a reader, read to the end, and give it back; what the pool holds then is of no consequence.\<close>

definition gunzip :: "net_ops \<Rightarrow> bool \<Rightarrow> bytes \<Rightarrow> (bytes \<times> string option) outcome" where
  "gunzip N pooled b =
     (let reader = GetGzipReader N pooled b
      in obind (read_gzip N reader) (\<lambda>res. obind (PutGzipReader reader []) (\<lambda>pool. Done res)))"

lemma gunzip_eq:
  "gunzip N pooled b =
     (case no_GzipHeader N b of
        None \<Rightarrow> Done (no_GzipRead N b)
      | Some e \<Rightarrow> if pooled then Done ([], Some e) else nil_reader)"
  by (simp add: gunzip_def GetGzipReader_def read_gzip_def PutGzipReader_def nil_reader_def split: option.split)

text \<open>No reader that is put into the pool is nil.\<close>

lemma pool_has_no_nil: "PutGzipReader reader pool = Done pool1 \<Longrightarrow> NilReader \<notin> set pool \<Longrightarrow> NilReader \<notin> set pool1"
  by (auto simp: PutGzipReader_def nil_reader_def split: if_splits)

definition content_encoding :: "wire_response \<Rightarrow> string" where
  "content_encoding w = (case map_of (ws_headers w) ''Content-Encoding'' of None \<Rightarrow> [] | Some v \<Rightarrow> v)"

definition decode_body :: "net_ops \<Rightarrow> bool \<Rightarrow> wire_response \<Rightarrow> bytes \<Rightarrow> (bytes \<times> string option) outcome" where
  "decode_body N pooled w b =
     (if content_encoding w = ''gzip'' then gunzip N pooled b else Done (b, None))"

definition store_body :: "net_ops \<Rightarrow> bytes \<Rightarrow> one_response \<Rightarrow> one_response \<times> string option" where
  "store_body N b s =
     (case rs_Res s of
        RString x \<Rightarrow> (s\<lparr>rs_Res := RString b\<rparr>, None)
      | RBytes x \<Rightarrow> (s\<lparr>rs_Res := RBytes b\<rparr>, None)
      | RProto m \<Rightarrow> (let (m1, e) = no_ProtoUnmarshal N b m in (s\<lparr>rs_Res := RProto m1\<rparr>, e))
      | ROther m \<Rightarrow> (let (m1, e) = no_JsonUnmarshal N b m in (s\<lparr>rs_Res := ROther m1\<rparr>, e))
      | RWriter x \<Rightarrow> (s, None))"

text \<open>The end of both \<open>do\<close> methods: undo the content encoding, then store.\<close>

definition finish ::
  "net_ops \<Rightarrow> bool \<Rightarrow> wire_response \<Rightarrow> one_request \<Rightarrow> one_response \<Rightarrow> bytes \<Rightarrow>
     ((one_request \<times> one_response) \<times> string option) outcome" where
  "finish N pooled w r s b =
     obind (decode_body N pooled w b) (\<lambda>(b1, err).
       case err of
         Some e \<Rightarrow> Done ((r, s), Some e)
       | None \<Rightarrow> (let (s1, e) = store_body N b1 s in Done ((r, s1), e)))"

section \<open>The clients\<close>

text \<open>\<open>io.LimitReader\<close> read to the end: it does not look past the limit.\<close>

definition limited_read :: "int \<Rightarrow> wire_response \<Rightarrow> bytes \<times> string option" where
  "limited_read n w =
     (if n \<le> int (length (ws_body w)) then (take (nat n) (ws_body w), None)
      else (ws_body w, ws_err w))"

definition std_do ::
  "net_ops \<Rightarrow> bool \<Rightarrow> one_request \<Rightarrow> one_response \<Rightarrow>
     ((one_request \<times> one_response) \<times> string option) outcome" where
  "std_do N pooled r s =
     (let r1 = add_query ''&'' r
      in case body_bytes N r1 of
        Inl e \<Rightarrow> Done ((r1, s), Some e)
      | Inr b \<Rightarrow>
          (case no_BadRequest N (rq_Method r1) (rq_URL r1) of
             Some e \<Rightarrow> Done ((r1, s), Some e)
           | None \<Rightarrow>
               obind (add_content_type r1) (\<lambda>r2.
               case no_Do N \<lparr>wq_method = rq_Method r2, wq_url = rq_URL r2,
                       wq_headers = wire_headers N r2, wq_body = b\<rparr> of
                 Inl e \<Rightarrow> Done ((r2, s), Some e)
               | Inr w \<Rightarrow>
                   obind (copy_headers w s) (\<lambda>s1.
                   case rs_Res s1 of
                     RWriter out \<Rightarrow> Done ((r2, s1\<lparr>rs_Res := RWriter (out @ ws_body w)\<rparr>), ws_err w)
                   | _ \<Rightarrow>
                       let (b1, err) = (if rq_MaxResBodySize r2 \<noteq> 0
                             then limited_read (rq_MaxResBodySize r2) w else (ws_body w, ws_err w))
                       in case err of
                            Some e \<Rightarrow> Done ((r2, s1), Some e)
                          | None \<Rightarrow> finish N pooled w r2 s1 b1))))"

text \<open>
  In the fast client there is no separate construction of the request that could fail, the whole
  body has been read by \<open>Do\<close>, and a slice with a negative bound panics.
\<close>

definition fast_limit :: "int \<Rightarrow> bytes \<Rightarrow> bytes outcome" where
  "fast_limit n b =
     (if n = 0 then Done b
      else if n < int (length b)
      then (if n < 0 then Panic ''slice bounds out of range'' else Done (take (nat n) b))
      else Done b)"

definition fast_do ::
  "net_ops \<Rightarrow> bool \<Rightarrow> one_request \<Rightarrow> one_response \<Rightarrow>
     ((one_request \<times> one_response) \<times> string option) outcome" where
  "fast_do N pooled r s =
     (let r1 = add_query [] r
      in case body_bytes N r1 of
        Inl e \<Rightarrow> Done ((r1, s), Some e)
      | Inr b \<Rightarrow>
          obind (add_content_type r1) (\<lambda>r2.
          case no_Do N \<lparr>wq_method = rq_Method r2, wq_url = rq_URL r2,
                  wq_headers = wire_headers N r2, wq_body = b\<rparr> of
            Inl e \<Rightarrow> Done ((r2, s), Some e)
          | Inr w \<Rightarrow>
              obind (copy_headers w s) (\<lambda>s1.
              case rs_Res s1 of
                RWriter out \<Rightarrow> Done ((r2, s1\<lparr>rs_Res := RWriter (out @ ws_body w)\<rparr>), None)
              | _ \<Rightarrow>
                  obind (fast_limit (rq_MaxResBodySize r2) (ws_body w)) (\<lambda>b1.
                    finish N pooled w r2 s1 b1))))"

text \<open>
  \<open>Call\<close>: \<open>saferun.TimeoutRun\<close> (an argument) runs \<open>do\<close> under the timeout of the request.
\<close>

definition call_timeout :: "one_request \<Rightarrow> int" where
  "call_timeout r = (if rq_Timeout r = 0 then defaultTimeout else rq_Timeout r)"

definition std_Call :: "(int \<Rightarrow> 'a outcome \<Rightarrow> 'b) \<Rightarrow>
    (one_request \<Rightarrow> one_response \<Rightarrow> 'a outcome) \<Rightarrow> one_request \<Rightarrow> one_response \<Rightarrow> 'b" where
  "std_Call TimeoutRun body r s = TimeoutRun (call_timeout r) (body r s)"

definition fast_Call :: "(int \<Rightarrow> 'a outcome \<Rightarrow> 'b) \<Rightarrow>
    (one_request \<Rightarrow> one_response \<Rightarrow> 'a outcome) \<Rightarrow> one_request \<Rightarrow> one_response \<Rightarrow> 'b" where
  "fast_Call TimeoutRun body r s = TimeoutRun (call_timeout r) (body r s)"

section \<open>The global clients\<close>

datatype transport = NetHttp | FastHttp

record http_client =
  hc_transport :: transport
  hc_insecureSkipVerify :: bool
  hc_maxConnsPerHost :: int
  hc_maxIdleConnsPerHost :: "int option"
  hc_idleConnTimeout :: int
  hc_timeout :: int

definition stdCli :: http_client where
  "stdCli = \<lparr>hc_transport = NetHttp, hc_insecureSkipVerify = False, hc_maxConnsPerHost = 16384,
     hc_maxIdleConnsPerHost = Some 1024, hc_idleConnTimeout = 600000000000, hc_timeout = defaultTimeout\<rparr>"

definition stdInsecureCli :: http_client where
  "stdInsecureCli = \<lparr>hc_transport = NetHttp, hc_insecureSkipVerify = True, hc_maxConnsPerHost = 16384,
     hc_maxIdleConnsPerHost = Some 1024, hc_idleConnTimeout = 600000000000, hc_timeout = defaultTimeout\<rparr>"

definition fastCli :: http_client where
  "fastCli = \<lparr>hc_transport = FastHttp, hc_insecureSkipVerify = False, hc_maxConnsPerHost = 16384,
     hc_maxIdleConnsPerHost = None, hc_idleConnTimeout = 600000000000, hc_timeout = defaultTimeout\<rparr>"

definition fastInsecureCli :: http_client where
  "fastInsecureCli = \<lparr>hc_transport = FastHttp, hc_insecureSkipVerify = True, hc_maxConnsPerHost = 16384,
     hc_maxIdleConnsPerHost = None, hc_idleConnTimeout = 600000000000, hc_timeout = defaultTimeout\<rparr>"

definition GetStd :: http_client where "GetStd = stdInsecureCli"
definition GetStdInsecure :: http_client where "GetStdInsecure = stdInsecureCli"
definition GetFast :: http_client where "GetFast = fastCli"
definition GetFastInsecure :: http_client where "GetFastInsecure = fastInsecureCli"

section \<open>What a call leaves behind\<close>

text \<open>The query of a URL: what follows the first question mark.\<close>

definition url_query :: "string \<Rightarrow> string" where
  "url_query u = snd (cut (CHR ''?'') u)"

lemma copy_headers_frame:
  "copy_headers w s = Done s1 \<Longrightarrow> rs_Status s1 = rs_Status s \<and> rs_Res s1 = rs_Res s"
  by (auto simp: copy_headers_def obind_Done_iff)

lemma add_content_type_frame:
  "add_content_type r = Done r1 \<Longrightarrow> rq_URL r1 = rq_URL r \<and> rq_Query r1 = rq_Query r
     \<and> rq_MaxResBodySize r1 = rq_MaxResBodySize r"
  by (auto simp: add_content_type_def obind_Done_iff split: if_splits)

lemma store_body_status: "store_body N b s = (s1, e) \<Longrightarrow> rs_Status s1 = rs_Status s"
  by (auto simp: store_body_def split: res_target.splits prod.splits)

text \<open>What \<open>do\<close> keeps of its two arguments: \<open>kept r s\<close> is established once for both clients.\<close>

definition kept :: "one_request \<Rightarrow> one_response \<Rightarrow>
    ((one_request \<times> one_response) \<times> string option) outcome \<Rightarrow> bool" where
  "kept r s m = opost (\<lambda>((r1, s1), e). rq_URL r1 = rq_URL r \<and> rq_Query r1 = rq_Query r
                        \<and> rs_Status s1 = rs_Status s) m"

lemma kept_Done [simp]:
  "kept r s (Done ((r1, s1), e)) \<longleftrightarrow>
     rq_URL r1 = rq_URL r \<and> rq_Query r1 = rq_Query r \<and> rs_Status s1 = rs_Status s"
  by (simp add: kept_def)

lemma kept_obind: "(\<And>x. m = Done x \<Longrightarrow> kept r s (f x)) \<Longrightarrow> kept r s (obind m f)"
  by (cases m) (simp_all add: kept_def)

lemma kept_finish: "kept r s (finish N pooled w r s b)"
  by (auto simp: finish_def intro!: kept_obind dest: store_body_status
      split: option.splits prod.splits)

lemma kept_finish_from [simp]:
  assumes "rq_URL r1 = rq_URL r" and "rq_Query r1 = rq_Query r" and "rs_Status s1 = rs_Status s"
  shows "kept r s (finish N pooled w r1 s1 b)"
  using kept_finish [of r1 s1 N pooled w b] assms by (simp add: kept_def)

lemma add_query_Query [simp]: "rq_Query (add_query sep r) = rq_Query r"
  by (simp add: add_query_def)

lemma kept_std_do: "kept (add_query ''&'' r) s (std_do N pooled r s)"
  by (auto simp: std_do_def Let_def split: sum.splits option.splits res_target.splits prod.splits
      intro!: kept_obind
      dest!: add_content_type_frame copy_headers_frame)

lemma kept_fast_do: "kept (add_query [] r) s (fast_do N pooled r s)"
  by (auto simp: fast_do_def Let_def split: sum.splits option.splits res_target.splits prod.splits
      intro!: kept_obind
      dest!: add_content_type_frame copy_headers_frame)

lemma url_query_append: "CHR ''?'' \<notin> set base \<Longrightarrow> url_query (base @ ''?'' @ q) = q"
  by (simp add: url_query_def cut_append)

lemma url_query_later:
  "CHR ''?'' \<in> set u \<Longrightarrow> url_query (u @ x) = url_query u @ x"
  unfolding url_query_def by (induction u) (auto split: prod.splits)

lemma url_query_no_mark: "CHR ''?'' \<notin> set u \<Longrightarrow> url_query u = []"
  unfolding url_query_def by (induction u) (auto split: prod.splits)

lemma add_query_std_pairs:
  assumes "rq_Query r \<noteq> []"
  shows "ParseQuery (url_query (rq_URL (add_query ''&'' r))) =
           (fst (ParseQuery (url_query (rq_URL r))) @ value_pairs (rq_Query r),
            snd (ParseQuery (url_query (rq_URL r))))"
proof (cases "CHR ''?'' \<in> set (rq_URL r)")
  case True
  with assms show ?thesis
    by (simp add: add_query_def url_query_later ParseQuery_append ParseQuery_Encode)
next
  case False
  with assms url_query_append [OF False, of "Encode (rq_Query r)"] show ?thesis
    by (simp add: add_query_def url_query_no_mark ParseQuery_Encode)
      (simp add: ParseQuery_def parse_piece_def)
qed

section \<open>Properties\<close>

text \<open>
  Merging of the query. After a call of the standard client the URL of the request (the one
  that was sent) carries, when its query is parsed by a server, the pairs that it had before
  followed by the pairs of the query setting, whatever bytes these contain, and it is
  well formed if it was before.\<close>

theorem std_do_merges_query:
  assumes "rq_Query r \<noteq> []"
  shows "opost (\<lambda>((r1, s1), e).
           ParseQuery (url_query (rq_URL r1)) =
             (fst (ParseQuery (url_query (rq_URL r))) @ value_pairs (rq_Query r),
              snd (ParseQuery (url_query (rq_URL r))))) (std_do N pooled r s)"
  by (rule opost_mono [OF kept_std_do [of r s N pooled, unfolded kept_def]])
    (auto simp: add_query_std_pairs [OF assms])

text \<open>A concrete server that answers every request with the URL that was asked for.\<close>

definition echo_ops :: net_ops where
  "echo_ops =
     \<lparr>no_Do = (\<lambda>q. Inr \<lparr>ws_status = 200, ws_headers = [(''Content-Type'', ''text/plain'')],
                        ws_body = wq_url q, ws_err = None\<rparr>),
      no_BadRequest = (\<lambda>m u. None), no_Canonical = (\<lambda>k. k),
      no_ProtoMarshal = (\<lambda>m. Inr []), no_JsonMarshal = (\<lambda>b. Inr []),
      no_ProtoUnmarshal = (\<lambda>b m. (m, None)), no_JsonUnmarshal = (\<lambda>b m. (m, None)),
      no_GzipHeader = (\<lambda>b. None), no_GzipRead = (\<lambda>b. (b, None))\<rparr>"

definition sample_request :: one_request where
  "sample_request =
     \<lparr>rq_Method = ''GET'', rq_URL = ''/p?a=1'', rq_Query = [(''b'', [''2'', ''&''])],
      rq_Header = Some [], rq_ContentType = [], rq_Body = BNil, rq_Timeout = hour,
      rq_LogLevel = None, rq_MaxLogBodySize = 1, rq_MaxResBodySize = 1, rq_PromKey = []\<rparr>"

definition sample_response :: "headers option \<Rightarrow> one_response" where
  "sample_response h = \<lparr>rs_Res = RString [], rs_Header = h, rs_Status = 0\<rparr>"

lemma sample_pairs: "ParseQuery (url_query (rq_URL sample_request)) = ([(''a'', ''1'')], True)"
  by code_simp

lemma sample_std_do_done:
  "\<exists>x. std_do echo_ops False sample_request (sample_response (Some [])) = Done x"
  by (simp add: std_do_def sample_request_def sample_response_def echo_ops_def body_bytes_def
      add_query_def add_content_type_def copy_headers_def set_header_def limited_read_def
      finish_def decode_body_def content_encoding_def store_body_def)

theorem std_do_merges_query_witness:
  "\<exists>r1 s1 e. std_do echo_ops False sample_request (sample_response (Some [])) = Done ((r1, s1), e)
     \<and> ParseQuery (url_query (rq_URL r1)) = ([(''a'', ''1''), (''b'', ''2''), (''b'', ''&'')], True)"
proof -
  obtain r1 s1 e
    where x: "std_do echo_ops False sample_request (sample_response (Some [])) = Done ((r1, s1), e)"
    using sample_std_do_done by auto
  have q: "rq_Query sample_request \<noteq> []" by (simp add: sample_request_def)
  have v: "value_pairs (rq_Query sample_request) = [(''b'', ''2''), (''b'', ''&'')]" by code_simp
  from std_do_merges_query [OF q, of echo_ops False "sample_response (Some [])"] x
  have "ParseQuery (url_query (rq_URL r1)) = ([(''a'', ''1''), (''b'', ''2''), (''b'', ''&'')], True)"
    by (simp add: opost_def sample_pairs v)
  with x show ?thesis by blast
qed

text \<open>
  The request is changed by the call: calling the standard client again with the request
  that the first call left (whatever the result of that call was) sends the query twice. Each
  key then has its values of the URL followed by two copies of those of the query.\<close>

theorem std_do_again_repeats_query:
  assumes "rq_Query r \<noteq> []" and "distinct (map fst (rq_Query r))"
  shows "opost (\<lambda>((r1, s1), e1). opost (\<lambda>((r2, s2), e2).
           pairs_of (fst (ParseQuery (url_query (rq_URL r2)))) k =
             pairs_of (fst (ParseQuery (url_query (rq_URL r)))) k
               @ values_of (rq_Query r) k @ values_of (rq_Query r) k)
           (std_do N pooled r1 s1)) (std_do N pooled r s)"
proof (rule opost_mono [OF kept_std_do [of r s N pooled, unfolded kept_def]], clarify)
  fix r1 :: one_request and s1 :: one_response and e1 :: "string option"
  assume u: "rq_URL r1 = rq_URL (add_query ''&'' r)" and q: "rq_Query r1 = rq_Query (add_query ''&'' r)"
  from q assms(1) have q1: "rq_Query r1 \<noteq> []" by simp
  show "opost (\<lambda>((r2, s2), e2).
          pairs_of (fst (ParseQuery (url_query (rq_URL r2)))) k =
            pairs_of (fst (ParseQuery (url_query (rq_URL r)))) k
              @ values_of (rq_Query r) k @ values_of (rq_Query r) k) (std_do N pooled r1 s1)"
    by (rule opost_mono [OF kept_std_do [of r1 s1 N pooled, unfolded kept_def]])
      (use q in \<open>auto simp: add_query_std_pairs [OF q1] u add_query_std_pairs [OF assms(1)]
        pairs_of_append pairs_of_value_pairs [OF assms(2)]\<close>)
qed

lemma sample_std_do_again:
  "\<exists>r1 s1 e1 x. std_do echo_ops False sample_request (sample_response (Some [])) = Done ((r1, s1), e1)
     \<and> std_do echo_ops False r1 s1 = Done x"
  by (simp add: std_do_def sample_request_def sample_response_def echo_ops_def body_bytes_def
      add_query_def add_content_type_def copy_headers_def set_header_def limited_read_def
      finish_def decode_body_def content_encoding_def store_body_def)

theorem std_do_again_repeats_query_witness:
  "\<exists>r1 s1 e1 r2 s2 e2.
     std_do echo_ops False sample_request (sample_response (Some [])) = Done ((r1, s1), e1)
     \<and> std_do echo_ops False r1 s1 = Done ((r2, s2), e2)
     \<and> pairs_of (fst (ParseQuery (url_query (rq_URL r2)))) ''b'' = [''2'', ''&'', ''2'', ''&'']"
proof -
  obtain r1 s1 e1 r2 s2 e2
    where x: "std_do echo_ops False sample_request (sample_response (Some [])) = Done ((r1, s1), e1)"
      and y: "std_do echo_ops False r1 s1 = Done ((r2, s2), e2)"
    using sample_std_do_again by (metis surj_pair)
  have q: "rq_Query sample_request \<noteq> []" "distinct (map fst (rq_Query sample_request))"
    by (simp_all add: sample_request_def)
  have v: "values_of (rq_Query sample_request) ''b'' = [''2'', ''&'']" by code_simp
  from std_do_again_repeats_query [OF q, of "''b''" echo_ops False "sample_response (Some [])"] x y
  have "pairs_of (fst (ParseQuery (url_query (rq_URL r2)))) ''b'' = [''2'', ''&'', ''2'', ''&'']"
    by (simp add: opost_def sample_pairs v) (simp add: pairs_of_def)
  with x y show ?thesis by blast
qed

lemma QueryUnescape_escape_append:
  "QueryUnescape (QueryEscape s @ t) = map_option ((@) s) (QueryUnescape t)"
proof (induction s)
  case Nil
  then show ?case by (simp add: QueryEscape_def map_option.id [unfolded id_def])
next
  case (Cons c s)
  have "QueryEscape (c # s) @ t = escape_char c @ QueryEscape s @ t" by (simp add: QueryEscape_def)
  then show ?case by (simp add: QueryUnescape_escape_char Cons option.map_comp comp_def)
qed

lemma parse_piece_glued:
  "parse_piece (encode_pair (k, v) @ encode_pair (k2, v2)) = ([(k, v @ k2 @ ''='' @ v2)], True)"
proof -
  let ?p = "encode_pair (k, v) @ encode_pair (k2, v2)"
  have "CHR '';'' \<notin> set ?p" by (simp add: encode_pair_def QueryEscape_no)
  moreover have "?p \<noteq> []" by (simp add: encode_pair_def)
  moreover have "cut (CHR ''='') ?p =
      (QueryEscape k, QueryEscape v @ QueryEscape k2 @ ''='' @ QueryEscape v2)"
    by (simp add: encode_pair_def cut_append QueryEscape_no)
  moreover have "QueryUnescape (''='' @ QueryEscape v2) = Some (''='' @ v2)"
    by (simp add: QueryUnescape_QueryEscape)
  ultimately show ?thesis
    by (simp add: parse_piece_def QueryUnescape_QueryEscape QueryUnescape_escape_append)
qed

lemma ParseQuery_glued:
  assumes "value_pairs vs = (k2, v2) # ps"
  shows "ParseQuery (encode_pair (k, v) @ Encode vs) = ((k, v @ k2 @ ''='' @ v2) # ps, True)"
proof -
  have "split_on (CHR ''&'') (encode_pair (k, v) @ Encode vs)
          = (encode_pair (k, v) @ encode_pair (k2, v2)) # map encode_pair ps"
  proof (cases ps)
    case Nil
    with assms show ?thesis by (simp add: Encode_def split_on_single encode_pair_no_amp)
  next
    case (Cons q qs)
    have "encode_pair (k, v) @ Encode vs
        = (encode_pair (k, v) @ encode_pair (k2, v2)) @ CHR ''&'' # join ''&'' (map encode_pair ps)"
      using assms Cons by (simp add: Encode_def)
    moreover have "split_on (CHR ''&'') (join ''&'' (map encode_pair ps)) = map encode_pair ps"
      using Cons by (intro split_on_join) (auto simp: encode_pair_no_amp)
    moreover note split_on_append [of "CHR ''&''" "encode_pair (k, v) @ encode_pair (k2, v2)"
        "join ''&'' (map encode_pair ps)"]
    ultimately show ?thesis by (simp add: encode_pair_no_amp)
  qed
  then show ?thesis
    by (simp add: ParseQuery_def parse_piece_glued parse_piece_encode_pair comp_def list_all_iff)
qed

text \<open>
  The fast client adds no separator when the URL has a query already: the first pair of the
  query setting is lost as a key and becomes part of the value of the last pair of the URL,
  which is what a server sees. (The standard client adds the separator.)\<close>

theorem fast_do_glues_query:
  assumes "rq_URL r = base @ ''?'' @ encode_pair (k, v)" and "CHR ''?'' \<notin> set base"
    and "value_pairs (rq_Query r) = (k2, v2) # ps"
  shows "opost (\<lambda>((r1, s1), e).
           ParseQuery (url_query (rq_URL r1)) = ((k, v @ k2 @ ''='' @ v2) # ps, True))
           (fast_do N pooled r s)"
proof (rule opost_mono [OF kept_fast_do [of r s N pooled, unfolded kept_def]], clarify)
  fix r1 :: one_request and s1 :: one_response and e1 :: "string option"
  assume "rq_URL r1 = rq_URL (add_query [] r)"
  moreover have "rq_Query r \<noteq> []" using assms(3) by (auto simp: value_pairs_def)
  ultimately have "rq_URL r1 = base @ ''?'' @ encode_pair (k, v) @ Encode (rq_Query r)"
    using assms(1) by (simp add: add_query_def)
  then show "ParseQuery (url_query (rq_URL r1)) = ((k, v @ k2 @ ''='' @ v2) # ps, True)"
    by (simp only: url_query_append [OF assms(2)] ParseQuery_glued [OF assms(3)])
qed

lemma sample_fast_do_done:
  "\<exists>x. fast_do echo_ops False sample_request (sample_response (Some [])) = Done x"
  by (simp add: fast_do_def sample_request_def sample_response_def echo_ops_def body_bytes_def
      add_query_def add_content_type_def copy_headers_def set_header_def fast_limit_def
      finish_def decode_body_def content_encoding_def store_body_def)

theorem fast_do_glues_query_witness:
  "\<exists>r1 s1 e. fast_do echo_ops False sample_request (sample_response (Some [])) = Done ((r1, s1), e)
     \<and> ParseQuery (url_query (rq_URL r1)) = ([(''a'', ''1b=2''), (''b'', ''&'')], True)"
proof -
  obtain r1 s1 e
    where x: "fast_do echo_ops False sample_request (sample_response (Some [])) = Done ((r1, s1), e)"
    using sample_fast_do_done by auto
  have u: "rq_URL sample_request = ''/p'' @ ''?'' @ encode_pair (''a'', ''1'')" by code_simp
  have b: "CHR ''?'' \<notin> set ''/p''" by simp
  have v: "value_pairs (rq_Query sample_request) = (''b'', ''2'') # [(''b'', ''&'')]" by code_simp
  from fast_do_glues_query [OF u b v, of echo_ops False "sample_response (Some [])"] x
  have "ParseQuery (url_query (rq_URL r1)) = ([(''a'', ''1b=2''), (''b'', ''&'')], True)"
    by (simp add: opost_def)
  with x show ?thesis by blast
qed

lemma fast_limit_take:
  "0 \<le> n \<Longrightarrow> fast_limit n b = Done (if n = 0 then b else take (nat n) b)"
  by (auto simp: fast_limit_def)

lemma limited_read_take: "ws_err w = None \<Longrightarrow> limited_read n w = (take (nat n) (ws_body w), None)"
  by (auto simp: limited_read_def)

lemma add_query_no_mark:
  "CHR ''?'' \<notin> set (rq_URL r) \<or> rq_Query r = [] \<Longrightarrow> add_query sep r = add_query sep' r"
  by (auto simp: add_query_def)

lemma add_query_MaxResBodySize [simp]:
  "rq_MaxResBodySize (add_query sep r) = rq_MaxResBodySize r"
  by (simp add: add_query_def)

lemma obind_cong_Done: "(\<And>x. m = Done x \<Longrightarrow> f x = g x) \<Longrightarrow> obind m f = obind m g"
  by (cases m) auto


definition plain_request :: one_request where
  "plain_request = sample_request\<lparr>rq_URL := ''/p'', rq_MaxResBodySize := 4\<rparr>"


text \<open>
  Neither client ever stores the status of the reply: a caller that looks at the status of
  the response sees what it put there itself, whatever the server answered.\<close>

theorem do_never_sets_status:
  "opost (\<lambda>((r1, s1), e). rs_Status s1 = rs_Status s) (std_do N pooled r s)
     \<and> opost (\<lambda>((r1, s1), e). rs_Status s1 = rs_Status s) (fast_do N pooled r s)"
  using opost_mono [OF kept_std_do [of r s N pooled, unfolded kept_def]]
    opost_mono [OF kept_fast_do [of r s N pooled, unfolded kept_def]]
  by (simp add: case_prod_beta)

text \<open>The deadlines that a list of settings asks for.\<close>

fun timeouts :: "req_setting list \<Rightarrow> int list" where
  "timeouts [] = []"
| "timeouts (WithTimeout t # ss) = t # timeouts ss"
| "timeouts (s # ss) = timeouts ss"

lemma set_headers_Some: "\<exists>hs'. set_headers kvs (Some hs) = Done (Some hs')"
  by (induction kvs arbitrary: hs) (auto simp: set_header_def)

lemma apply_setting_Done:
  assumes "rq_Header r = Some hs"
  shows "\<exists>r1 hs1. apply_setting x r = Done r1 \<and> rq_Header r1 = Some hs1
     \<and> rq_Timeout r1 = foldl min (rq_Timeout r) (timeouts [x])
     \<and> rq_Method r1 = rq_Method r \<and> rq_URL r1 = rq_URL r"
proof (cases x)
  case (WithHeader kvs)
  then show ?thesis using assms set_headers_Some [of kvs hs] by auto
qed (use assms in \<open>auto simp: set_header_def\<close>)

lemma timeouts_Cons: "timeouts (x # ss) = timeouts [x] @ timeouts ss"
  by (cases x) simp_all

lemma apply_settings_Done:
  assumes "rq_Header r = Some hs"
  shows "\<exists>r1. apply_settings ss r = Done r1
     \<and> rq_Timeout r1 = foldl min (rq_Timeout r) (timeouts ss)
     \<and> rq_Method r1 = rq_Method r \<and> rq_URL r1 = rq_URL r"
  using assms
proof (induction ss arbitrary: r hs)
  case (Cons x ss)
  from apply_setting_Done [OF Cons.prems, of x] obtain r1 hs1
    where r1: "apply_setting x r = Done r1" "rq_Header r1 = Some hs1"
      "rq_Timeout r1 = foldl min (rq_Timeout r) (timeouts [x])"
      "rq_Method r1 = rq_Method r" "rq_URL r1 = rq_URL r" by blast
  from Cons.IH [OF r1(2)] r1 show ?case by (simp add: timeouts_Cons [of x ss])
qed simp

lemma foldl_min: "foldl min (a::int) xs = Min (insert a (set xs))"
proof (induction xs arbitrary: a)
  case (Cons x xs)
  have "Min (insert (min a x) (set xs)) = Min (insert a (insert x (set xs)))"
    by (cases "xs = []") (auto simp: min.assoc)
  with Cons show ?case by simp
qed simp

text \<open>
  A request is always built, and its deadline is the shortest of one hour and all the
  timeouts asked for, in whatever order: a timeout setting can shorten the default, never
  extend it. A deadline of zero counts as none, and the call then takes the hour.\<close>

theorem new_request_deadline:
  "\<exists>r. NewOneRequest method ul ss = Done r \<and> rq_Method r = method \<and> rq_URL r = ul
     \<and> rq_Timeout r = Min (insert hour (set (timeouts ss)))
     \<and> call_timeout r = (if Min (insert hour (set (timeouts ss))) = 0 then hour
                         else Min (insert hour (set (timeouts ss))))"
proof -
  let ?r = "\<lparr>rq_Method = method, rq_URL = ul, rq_Query = [],
        rq_Header = Some [(''Accept-Encoding'', ''gzip'')], rq_ContentType = [], rq_Body = BNil,
        rq_Timeout = defaultTimeout, rq_LogLevel = None, rq_MaxLogBodySize = defaultLogBodySize,
        rq_MaxResBodySize = defaultResBodySize, rq_PromKey = []\<rparr>"
  have "rq_Header ?r = Some [(''Accept-Encoding'', ''gzip'')]" by simp
  from apply_settings_Done [OF this, of ss] obtain r1 where r1: "apply_settings ss ?r = Done r1"
    "rq_Timeout r1 = foldl min (rq_Timeout ?r) (timeouts ss)"
    "rq_Method r1 = method" "rq_URL r1 = ul" by auto
  have t: "rq_Timeout r1 = Min (insert hour (set (timeouts ss)))"
    using r1(2) by (simp add: foldl_min defaultTimeout_def)
  have "NewOneRequest method ul ss = Done r1" using r1(1) by (simp only: NewOneRequest_def)
  then show ?thesis
    by (intro exI [of _ r1]) (simp only: r1(3,4) t call_timeout_def defaultTimeout_def simp_thms)
qed

text \<open>The clients that the package hands out: the plain one is the one that skips verification.\<close>

lemma get_std_skips_verification:
  "hc_insecureSkipVerify GetStd" "hc_insecureSkipVerify stdCli = False"
  "hc_insecureSkipVerify GetFast = False"
  by (simp_all add: GetStd_def stdInsecureCli_def stdCli_def GetFast_def fastCli_def)

end
