(* ===== verification/Governor.thy ===== *)
theory Governor
  imports Go_Url Observability "HOL-Library.AList"
begin

text \<open>
  The server side of the repository, package onegovernor: what it uses of net/http (headers,
  the response writer, the request and its context), the response helpers (response.go), the
  middlewares \<open>Recover\<close>, \<open>Prom\<close> and \<open>Logger\<close> (http.go), and the middleware \<open>Request\<close> with
  the accessors of what it puts into the context (request.go). The wrapper that counts what
  goes through a response writer is chi's and is an argument, as are the codecs, the clock and
  the generator of request ids.
\<close>

section \<open>Headers and response writers of net/http\<close>

definition to_upper :: "char \<Rightarrow> char" where
  "to_upper c = (let n = (of_char c :: nat) in if 97 \<le> n \<and> n \<le> 122 then char_of (n - 32) else c)"

definition to_lower :: "char \<Rightarrow> char" where
  "to_lower c = (let n = (of_char c :: nat) in if 65 \<le> n \<and> n \<le> 90 then char_of (n + 32) else c)"

text \<open>
  \<open>CanonicalMIMEHeaderKey\<close>: a capital at the start and after each hyphen; a key with a byte that
  is no token is left alone.
\<close>

fun canonical_from :: "bool \<Rightarrow> string \<Rightarrow> string" where
  "canonical_from up [] = []"
| "canonical_from up (c # s) =
     (if up then to_upper c else to_lower c) # canonical_from (c = CHR ''-'') s"

definition CanonicalKey :: "string \<Rightarrow> string" where
  "CanonicalKey k =
     (if list_all (\<lambda>c. is_alnum c \<or> c \<in> set ''!#$%&*+-.^_`|~'' \<or> of_char c = (39 :: nat)) k
      then canonical_from True k else k)"

text \<open>Headers with one value for each key, which is all that \<open>Get\<close> and \<open>Set\<close> can tell.\<close>

type_synonym http_header = "(string \<times> string) list"

definition Header_Get :: "http_header \<Rightarrow> string \<Rightarrow> string" where
  "Header_Get h k = (case map_of h (CanonicalKey k) of None \<Rightarrow> [] | Some v \<Rightarrow> v)"

definition Header_Set :: "string \<Rightarrow> string \<Rightarrow> http_header \<Rightarrow> http_header" where
  "Header_Set k v h = AList.update (CanonicalKey k) v h"

text \<open>
  A response writer: the header map the handler edits, the status and the copy of that map that
  are fixed by the first \<open>WriteHeader\<close>, and the body.
\<close>

record rw =
  rw_header :: http_header
  rw_sent :: "(int \<times> http_header) option"
  rw_body :: string

definition WriteHeader :: "int \<Rightarrow> rw \<Rightarrow> rw outcome" where
  "WriteHeader code w =
     (if rw_sent w \<noteq> None then Done w
      else if code < 100 \<or> 999 < code then Panic ''invalid WriteHeader code''
      else if code \<le> 199 \<and> code \<noteq> 101 then Done w
      else Done (w\<lparr>rw_sent := Some (code, rw_header w)\<rparr>))"

definition body_allowed :: "int \<Rightarrow> bool" where
  "body_allowed code = (199 < code \<and> code \<noteq> 204 \<and> code \<noteq> 304)"

definition Write :: "string \<Rightarrow> rw \<Rightarrow> rw outcome" where
  "Write bs w = obind (WriteHeader 200 w) (\<lambda>w1.
     Done (case rw_sent w1 of
         Some (code, _) \<Rightarrow> if body_allowed code then w1\<lparr>rw_body := rw_body w1 @ bs\<rparr> else w1
       | None \<Rightarrow> w1))"

definition set_rw_header :: "string \<Rightarrow> string \<Rightarrow> rw \<Rightarrow> rw" where
  "set_rw_header k v w = w\<lparr>rw_header := Header_Set k v (rw_header w)\<rparr>"

section \<open>Responses (response.go)\<close>

definition jsonContentType :: string where "jsonContentType = ''application/json; charset=utf-8''"
definition protobufContentType :: string where "protobufContentType = ''application/x-protobuf''"

definition Status :: "rw \<Rightarrow> int \<Rightarrow> rw outcome" where
  "Status w code = WriteHeader code w"

definition String :: "(string \<Rightarrow> 'v list \<Rightarrow> string) \<Rightarrow> rw \<Rightarrow> int \<Rightarrow> string \<Rightarrow> 'v list \<Rightarrow> rw outcome" where
  "String Sprintf w code fmt values =
     obind (WriteHeader code w) (Write (Sprintf fmt values))"

text \<open>An error of the codec is dropped: nothing is written then.\<close>

definition marshalled :: "string option \<Rightarrow> string" where
  "marshalled r = (case r of None \<Rightarrow> [] | Some bs \<Rightarrow> bs)"

definition Json :: "('v \<Rightarrow> string option) \<Rightarrow> rw \<Rightarrow> int \<Rightarrow> 'v \<Rightarrow> rw outcome" where
  "Json Marshal w code obj =
     obind (WriteHeader code w) (\<lambda>w1.
       Write (marshalled (Marshal obj)) (set_rw_header ''Content-Type'' jsonContentType w1))"

definition Proto :: "('v \<Rightarrow> string option) \<Rightarrow> rw \<Rightarrow> int \<Rightarrow> 'v \<Rightarrow> rw outcome" where
  "Proto Marshal w code obj =
     obind (WriteHeader code w) (\<lambda>w1.
       Write (marshalled (Marshal obj)) (set_rw_header ''Content-Type'' protobufContentType w1))"

section \<open>Requests and their context (request.go)\<close>

datatype ctx_key =
    requestIdCtxKey | requestMethodCtxKey | requestHostCtxKey | requestPathCtxKey
  | requestQueryCtxKey | requestQuerysCtxKey | requestBodyCtxKey | requestIPCtxKey
  | requestUACtxKey | requestReferCtxKey | OtherCtxKey string

datatype ctx_val = CtxStr string | CtxMap "string \<Rightarrow> string option" | CtxBytes string | CtxOther nat

text \<open>A context: its values and the logger that \<open>onelog.Ctx\<close> finds in it.\<close>

record context_ =
  cx_values :: "ctx_key \<Rightarrow> ctx_val option"
  cx_logger :: logger

definition WithValue :: "context_ \<Rightarrow> ctx_key \<Rightarrow> ctx_val \<Rightarrow> context_" where
  "WithValue ctx k v = ctx\<lparr>cx_values := (cx_values ctx)(k \<mapsto> v)\<rparr>"

record http_request =
  hr_Method :: string
  hr_ProtoMajor :: nat
  hr_Host :: string
  hr_Path :: string
  hr_RawQuery :: string
  hr_RemoteAddr :: string
  hr_Header :: http_header
  hr_ctx :: context_

text \<open>
  What a handler can see and change besides the request: the response writer, what is left to
  read of the request body, the metrics, and the access log. A handler ends by returning or with
  a panic value.
\<close>

record access =
  ac_status :: int
  ac_size :: int
  ac_method :: string
  ac_host :: string
  ac_path :: string
  ac_query :: string
  ac_ip :: string
  ac_ua :: string
  ac_refer :: string

record 'f served =
  sv_w :: rw
  sv_rbody :: string
  sv_prom :: "'f prom"
  sv_log :: "access list"

datatype panic_val = ErrAbortHandler | PanicError string | PanicOther string

type_synonym 'f handler = "http_request \<Rightarrow> 'f served \<Rightarrow> 'f served \<times> panic_val option"

text \<open>\<open>r.URL.Query()\<close>, of which the middleware keeps the first value of each key.\<close>

definition first_values :: "string \<Rightarrow> string \<Rightarrow> string option" where
  "first_values q k =
     (case pairs_of (fst (ParseQuery q)) k of [] \<Rightarrow> None | v # vs \<Rightarrow> Some v)"

definition UserAgent :: "http_request \<Rightarrow> string" where
  "UserAgent r = Header_Get (hr_Header r) ''User-Agent''"

definition Referer :: "http_request \<Rightarrow> string" where
  "Referer r = Header_Get (hr_Header r) ''Referer''"

definition request_ctx :: "http_request \<Rightarrow> string \<Rightarrow> context_" where
  "request_ctx r body =
     (let querys = first_values (hr_RawQuery r);
          ctx = hr_ctx r;
          ctx = WithValue ctx requestMethodCtxKey (CtxStr (hr_Method r));
          ctx = WithValue ctx requestHostCtxKey (CtxStr (hr_Host r));
          ctx = WithValue ctx requestPathCtxKey (CtxStr (hr_Path r));
          ctx = WithValue ctx requestQueryCtxKey (CtxStr (hr_RawQuery r));
          ctx = WithValue ctx requestQuerysCtxKey (CtxMap querys);
          ctx = WithValue ctx requestBodyCtxKey (CtxBytes body);
          ctx = WithValue ctx requestIPCtxKey (CtxStr (hr_RemoteAddr r));
          ctx = WithValue ctx requestUACtxKey (CtxStr (UserAgent r))
      in WithValue ctx requestReferCtxKey (CtxStr (Referer r)))"

definition Request :: "'f handler \<Rightarrow> 'f handler" where
  "Request h r s =
     (let body = sv_rbody s
      in h (r\<lparr>hr_ctx := request_ctx r body\<rparr>) (s\<lparr>sv_rbody := []\<rparr>))"

definition Value :: "context_ \<Rightarrow> ctx_key \<Rightarrow> ctx_val option" where
  "Value ctx key = cx_values ctx key"

definition StringValue :: "context_ \<Rightarrow> ctx_key \<Rightarrow> string" where
  "StringValue ctx key = (case cx_values ctx key of Some (CtxStr v) \<Rightarrow> v | _ \<Rightarrow> [])"

definition RequestID :: "context_ \<Rightarrow> string" where
  "RequestID ctx = StringValue ctx requestIdCtxKey"
definition RequestMethod :: "context_ \<Rightarrow> string" where
  "RequestMethod ctx = StringValue ctx requestMethodCtxKey"
definition RequestHost :: "context_ \<Rightarrow> string" where
  "RequestHost ctx = StringValue ctx requestHostCtxKey"
definition RequestPath :: "context_ \<Rightarrow> string" where
  "RequestPath ctx = StringValue ctx requestPathCtxKey"
definition RequestQuery :: "context_ \<Rightarrow> string" where
  "RequestQuery ctx = StringValue ctx requestQueryCtxKey"

text \<open>A nil map and an empty one cannot be told apart by reading.\<close>

definition RequestQuerys :: "context_ \<Rightarrow> string \<Rightarrow> string option" where
  "RequestQuerys ctx = (case cx_values ctx requestQuerysCtxKey of Some (CtxMap m) \<Rightarrow> m | _ \<Rightarrow> Map.empty)"
definition RequestBody :: "context_ \<Rightarrow> string" where
  "RequestBody ctx = (case cx_values ctx requestBodyCtxKey of Some (CtxBytes b) \<Rightarrow> b | _ \<Rightarrow> [])"
definition RequestIP :: "context_ \<Rightarrow> string" where
  "RequestIP ctx = StringValue ctx requestIPCtxKey"
definition RequestUA :: "context_ \<Rightarrow> string" where
  "RequestUA ctx = StringValue ctx requestUACtxKey"
definition RequestRefer :: "context_ \<Rightarrow> string" where
  "RequestRefer ctx = StringValue ctx requestReferCtxKey"

section \<open>Middlewares (http.go)\<close>

text \<open>A step of a middleware on the response writer or on the metrics.\<close>

definition on_w :: "(rw \<Rightarrow> rw outcome) \<Rightarrow> 'f served \<Rightarrow> 'f served \<times> panic_val option" where
  "on_w f s = (case f (sv_w s) of
      Done w \<Rightarrow> (s\<lparr>sv_w := w\<rparr>, None) | Panic e \<Rightarrow> (s, Some (PanicError e)) | Blocked \<Rightarrow> (s, None))"

definition on_prom :: "('f prom \<Rightarrow> 'f prom outcome) \<Rightarrow> 'f served \<Rightarrow> 'f served \<times> panic_val option" where
  "on_prom f s = (case f (sv_prom s) of
      Done p \<Rightarrow> (s\<lparr>sv_prom := p\<rparr>, None) | Panic e \<Rightarrow> (s, Some (PanicError e)) | Blocked \<Rightarrow> (s, None))"

definition and_then ::
  "'s \<times> panic_val option \<Rightarrow> ('s \<Rightarrow> 's \<times> panic_val option) \<Rightarrow> 's \<times> panic_val option" where
  "and_then m f = (case m of (s, None) \<Rightarrow> f s | (s, Some p) \<Rightarrow> (s, Some p))"

definition Recover :: "'f handler \<Rightarrow> 'f handler" where
  "Recover h r s =
     (case h r s of
        (s1, None) \<Rightarrow> (s1, None)
      | (s1, Some rvr) \<Rightarrow>
          if rvr = ErrAbortHandler then (s1, Some rvr) else on_w (WriteHeader 500) s1)"

text \<open>The label of a path and a method; names are ASCII here.\<close>

definition trim :: "char \<Rightarrow> string \<Rightarrow> string" where
  "trim c s = rev (dropWhile (\<lambda>x. x = c) (rev (dropWhile (\<lambda>x. x = c) s)))"

definition handler_name :: "string \<Rightarrow> string \<Rightarrow> string" where
  "handler_name path method =
     map to_upper
       (map (\<lambda>c. if c = CHR ''/'' then CHR ''_'' else c) (trim (CHR ''/'') path) @ ''-'' @ method)"

type_synonym ignore = "rw \<Rightarrow> http_request \<Rightarrow> bool"

text \<open>
  \<open>Wrap protoMajor h r s\<close> serves \<open>h\<close> through chi's wrapper, and gives the status and the number of
  bytes it counted. \<open>cost\<close> is the time that the call took.
\<close>

type_synonym 'f wrapper =
  "nat \<Rightarrow> 'f handler \<Rightarrow> http_request \<Rightarrow> 'f served \<Rightarrow> ('f served \<times> panic_val option) \<times> int \<times> int"

definition Prom ::
  "(int \<Rightarrow> string) \<Rightarrow> (int \<Rightarrow> 'f) \<Rightarrow> int \<Rightarrow> 'f wrapper \<Rightarrow> ignore list \<Rightarrow> 'f handler \<Rightarrow> 'f handler" where
  "Prom ToString ToFloat64 cost Wrap ignores h r s =
     (if list_ex (\<lambda>ignore. ignore (sv_w s) r) ignores then h r s
      else
        let handlerName = handler_name (hr_Path r) (hr_Method r)
        in and_then (on_prom (ServerStartedCounter handlerName) s) (\<lambda>s1.
           let (m, status, size) = Wrap (hr_ProtoMajor r) h r s1
           in and_then m (\<lambda>s2.
              and_then (on_prom (ServerHandledCounter ToString handlerName status) s2)
                (on_prom (ServerHandledHistogram ToFloat64 handlerName cost)))))"

definition Logger :: "string \<Rightarrow> 'f wrapper \<Rightarrow> ignore list \<Rightarrow> 'f handler \<Rightarrow> 'f handler" where
  "Logger NewString Wrap ignores h r s =
     (let requestID = Header_Get (hr_Header r) ''X-Request-ID'';
          requestID = (if requestID = [] then NewString else requestID);
          s1 = s\<lparr>sv_w := set_rw_header ''X-Request-ID'' requestID (sv_w s)\<rparr>;
          ctx = WithValue (hr_ctx r) requestIdCtxKey (CtxStr requestID);
          ctx = ctx\<lparr>cx_logger := log_Str (cx_logger ctx) ''requestId'' requestID\<rparr>;
          r1 = r\<lparr>hr_ctx := ctx\<rparr>
      in if list_ex (\<lambda>ignore. ignore (sv_w s1) r1) ignores then h r1 s1
         else
           let (m, status, size) = Wrap (hr_ProtoMajor r1) h r1 s1
           in and_then m (\<lambda>s2.
              (s2\<lparr>sv_log := sv_log s2 @ [\<lparr>ac_status = status, ac_size = size,
                  ac_method = hr_Method r1, ac_host = hr_Host r1, ac_path = hr_Path r1,
                  ac_query = hr_RawQuery r1, ac_ip = hr_RemoteAddr r1, ac_ua = UserAgent r1,
                  ac_refer = Referer r1\<rparr>]\<rparr>, None)))"

section \<open>Lemmas\<close>

lemma Header_Get_Set [simp]: "Header_Get (Header_Set k v h) k = v"
  by (simp add: Header_Get_def Header_Set_def update_conv')

lemma WriteHeader_final [simp]:
  "200 \<le> code \<Longrightarrow> code \<le> 999 \<Longrightarrow>
     WriteHeader code w = Done (if rw_sent w = None then w\<lparr>rw_sent := Some (code, rw_header w)\<rparr> else w)"
  by (simp add: WriteHeader_def)

lemma Write_sent:
  "rw_sent w = Some (code, h) \<Longrightarrow>
     Write bs w = Done (if body_allowed code then w\<lparr>rw_body := rw_body w @ bs\<rparr> else w)"
  by (simp add: Write_def WriteHeader_def)

lemma WithValue_values [simp]: "cx_values (WithValue ctx k v) = (cx_values ctx)(k \<mapsto> v)"
  by (simp add: WithValue_def)

lemmas accessor_defs = RequestID_def RequestMethod_def RequestHost_def RequestPath_def
  RequestQuery_def RequestQuerys_def RequestBody_def RequestIP_def RequestUA_def RequestRefer_def
  StringValue_def

text \<open>
  What chi documents of its wrapper: it is transparent, and its status is the status that was
  sent, 0 if none was.
\<close>

definition status_sent :: "rw \<Rightarrow> int" where
  "status_sent w = (case rw_sent w of None \<Rightarrow> 0 | Some (code, h) \<Rightarrow> code)"

definition wrap_law :: "'f wrapper \<Rightarrow> bool" where
  "wrap_law Wrap \<longleftrightarrow> (\<forall>pm h r s. fst (Wrap pm h r s) = h r s \<and>
     (rw_sent (sv_w s) = None \<longrightarrow> fst (snd (Wrap pm h r s)) = status_sent (sv_w (fst (h r s)))))"

definition plain_wrap :: "'f wrapper" where
  "plain_wrap pm h r s =
     (h r s, status_sent (sv_w (fst (h r s))), int (length (rw_body (sv_w (fst (h r s))))))"

lemma wrap_law_plain: "wrap_law plain_wrap"
  by (simp add: wrap_law_def plain_wrap_def)

lemma wrap_lawE:
  assumes "wrap_law Wrap"
  obtains st sz where "Wrap pm h r s = (h r s, st, sz)"
    and "rw_sent (sv_w s) = None \<Longrightarrow> st = status_sent (sv_w (fst (h r s)))"
  using assms unfolding wrap_law_def by (metis prod.collapse)

lemma on_prom_record:
  assumes "pm_ready (sv_prom s)"
  shows "on_prom (prom_record m ls v) s
     = (s\<lparr>sv_prom := (sv_prom s)\<lparr>pm_samples := pm_samples (sv_prom s) @ [(m, ls, v)]\<rparr>\<rparr>, None)"
  using assms by (simp add: on_prom_def prom_record_def)

text \<open>The samples of one handler: what is recorded when it starts and when it has returned.\<close>

definition started_sample :: "'f prom \<Rightarrow> string \<Rightarrow> string \<times> string list \<times> 'f sample_value" where
  "started_sample p h = (''server_started_total'', [pm_app p, pm_env p, h], Added 1)"

definition handled_samples ::
  "(int \<Rightarrow> string) \<Rightarrow> (int \<Rightarrow> 'f) \<Rightarrow> 'f prom \<Rightarrow> string \<Rightarrow> int \<Rightarrow> int
     \<Rightarrow> (string \<times> string list \<times> 'f sample_value) list" where
  "handled_samples ToString ToFloat64 p h status cost =
     [(''server_handled_total'', [pm_app p, pm_env p, h, ToString status], Added 1),
      (''server_handling_seconds'', [pm_app p, pm_env p, h], Observed (ToFloat64 (Milliseconds cost)))]"

definition started :: "string \<Rightarrow> 'f served \<Rightarrow> 'f served" where
  "started h s = s\<lparr>sv_prom := (sv_prom s)\<lparr>pm_samples :=
     pm_samples (sv_prom s) @ [started_sample (sv_prom s) h]\<rparr>\<rparr>"

lemma on_prom_started:
  "pm_ready (sv_prom s) \<Longrightarrow> on_prom (ServerStartedCounter h) s = (started h s, None)"
  by (simp add: on_prom_def ServerStartedCounter_def prom_record_def started_def started_sample_def)

lemma on_prom_handled:
  assumes "pm_ready (sv_prom s)"
  shows "and_then (on_prom (ServerHandledCounter ToString h status) s)
           (on_prom (ServerHandledHistogram ToFloat64 h cost))
     = (s\<lparr>sv_prom := (sv_prom s)\<lparr>pm_samples := pm_samples (sv_prom s)
          @ handled_samples ToString ToFloat64 (sv_prom s) h status cost\<rparr>\<rparr>, None)"
  using assms
  by (simp add: and_then_def on_prom_def ServerHandledCounter_def ServerHandledHistogram_def
      prom_record_def handled_samples_def)

lemma Prom_transparent:
  assumes "wrap_law Wrap" and "pm_ready (sv_prom s)" and "\<not> list_ex (\<lambda>ignore. ignore (sv_w s) r) ignores"
    and "rw_sent (sv_w s) = None" and "n = handler_name (hr_Path r) (hr_Method r)"
    and "h r (started n s) = (s2, p)" and "p = None \<Longrightarrow> pm_ready (sv_prom s2)"
  shows "Prom ToString ToFloat64 cost Wrap ignores h r s =
     (case p of
        Some v \<Rightarrow> (s2, Some v)
      | None \<Rightarrow> (s2\<lparr>sv_prom := (sv_prom s2)\<lparr>pm_samples := pm_samples (sv_prom s2)
          @ handled_samples ToString ToFloat64 (sv_prom s2) n (status_sent (sv_w s2)) cost\<rparr>\<rparr>, None))"
proof -
  have unsent: "rw_sent (sv_w (started n s)) = None" using assms(4) by (simp add: started_def)
  obtain st sz where w: "Wrap (hr_ProtoMajor r) h r (started n s) = ((s2, p), st, sz)"
    and st: "st = status_sent (sv_w s2)"
    using wrap_lawE [OF assms(1), of "hr_ProtoMajor r" h r "started n s"] unsent assms(6)
    by (metis fst_conv)
  have u: "Prom ToString ToFloat64 cost Wrap ignores h r s =
      and_then (s2, p) (\<lambda>s2. and_then (on_prom (ServerHandledCounter ToString n st) s2)
                (on_prom (ServerHandledHistogram ToFloat64 n cost)))"
    using assms(3)
    by (simp add: Prom_def on_prom_started [OF assms(2)] assms(5) [symmetric] w)
      (simp add: and_then_def w)
  show ?thesis
  proof (cases p)
    case None
    then show ?thesis
      unfolding u using on_prom_handled [OF assms(7) [OF None], of ToString n st ToFloat64 cost] st
      by (simp add: and_then_def [of "(s2, None)"])
  qed (simp add: u and_then_def)
qed

section \<open>Properties\<close>

text \<open>
  The JSON and the protobuf helpers fix the status line before they set the content type:
  in a response that was not begun, for every final status, the headers that are sent are those
  the handler had set before, so the content type is in the header map but not on the wire; the
  body is the encoding (nothing if it failed), and nothing for a status without a body.\<close>

theorem json_content_type_not_sent:
  assumes "rw_sent w = None" and "200 \<le> code" and "code \<le> 999"
  shows "\<exists>w1 w2. Json Marshal w code obj = Done w1 \<and> Proto Marshal w code obj = Done w2
     \<and> rw_sent w1 = Some (code, rw_header w) \<and> rw_sent w2 = Some (code, rw_header w)
     \<and> Header_Get (rw_header w1) ''Content-Type'' = jsonContentType
     \<and> Header_Get (rw_header w2) ''Content-Type'' = protobufContentType
     \<and> rw_body w1 = rw_body w @ (if body_allowed code then marshalled (Marshal obj) else [])
     \<and> rw_body w2 = rw_body w1"
  using assms by (simp add: Json_def Proto_def Write_sent set_rw_header_def)

definition fresh_rw :: rw where "fresh_rw = \<lparr>rw_header = [], rw_sent = None, rw_body = []\<rparr>"

theorem json_content_type_not_sent_witness:
  "\<exists>w1. Json (\<lambda>n. Some ''{}'') fresh_rw 200 (7 :: nat) = Done w1
     \<and> rw_sent w1 = Some (200, []) \<and> rw_body w1 = ''{}''"
proof -
  have "rw_sent fresh_rw = None" "(200::int) \<le> 200" "(200::int) \<le> 999" by (simp_all add: fresh_rw_def)
  from json_content_type_not_sent [OF this, of "\<lambda>n. Some ''{}''" "7::nat"] show ?thesis
    by (auto simp: fresh_rw_def body_allowed_def marshalled_def)
qed

text \<open>
  C34. The middleware \<open>Request\<close> serves the next handler with a context from which every accessor
  gives back the part of the request it is named after, the request id that was there is kept,
  and for a query that is the encoding of values each key has its first value. But the body has
  been read: the next handler finds it in the context only, and reads nothing from the request.\<close>

theorem request_context_roundtrip:
  assumes "hr_RawQuery r = Encode vs" and "distinct (map fst vs)"
  shows "\<exists>r1. Request h r s = h r1 (s\<lparr>sv_rbody := []\<rparr>) \<and> r1\<lparr>hr_ctx := hr_ctx r\<rparr> = r
     \<and> RequestMethod (hr_ctx r1) = hr_Method r \<and> RequestHost (hr_ctx r1) = hr_Host r
     \<and> RequestPath (hr_ctx r1) = hr_Path r \<and> RequestQuery (hr_ctx r1) = hr_RawQuery r
     \<and> RequestBody (hr_ctx r1) = sv_rbody s \<and> RequestIP (hr_ctx r1) = hr_RemoteAddr r
     \<and> RequestUA (hr_ctx r1) = UserAgent r \<and> RequestRefer (hr_ctx r1) = Referer r
     \<and> RequestID (hr_ctx r1) = RequestID (hr_ctx r)
     \<and> RequestQuerys (hr_ctx r1) =
         (\<lambda>k. case values_of vs k of [] \<Rightarrow> None | v # _ \<Rightarrow> Some v)"
proof -
  have "first_values (hr_RawQuery r) = (\<lambda>k. case values_of vs k of [] \<Rightarrow> None | v # _ \<Rightarrow> Some v)"
    using assms by (simp add: first_values_def fun_eq_iff ParseQuery_Encode pairs_of_value_pairs)
  then show ?thesis
    by (intro exI [of _ "r\<lparr>hr_ctx := request_ctx r (sv_rbody s)\<rparr>"])
      (simp add: Request_def request_ctx_def Let_def accessor_defs)
qed

definition sample_http :: http_request where
  "sample_http =
     \<lparr>hr_Method = ''POST'', hr_ProtoMajor = 1, hr_Host = ''h'', hr_Path = ''/a/b'',
      hr_RawQuery = ''k=1&k=2'', hr_RemoteAddr = ''ip'', hr_Header = [(''User-Agent'', ''ua'')],
      hr_ctx = \<lparr>cx_values = Map.empty, cx_logger = \<lparr>lg_level = InfoLevel, lg_fields = []\<rparr>\<rparr>\<rparr>"

definition sample_served :: "nat served" where
  "sample_served =
     \<lparr>sv_w = fresh_rw, sv_rbody = ''body'',
      sv_prom = prom_Init \<lparr>env_Env = ''prod'', env_App = ''shop''\<rparr> prom_zero, sv_log = []\<rparr>"

text \<open>A handler that answers with what it reads from the request and from the context.\<close>

definition echo_handler :: "nat handler" where
  "echo_handler r s =
     on_w (Write (sv_rbody s @ ''|'' @ RequestBody (hr_ctx r)
       @ (case RequestQuerys (hr_ctx r) ''k'' of None \<Rightarrow> [] | Some v \<Rightarrow> v))) s"

theorem request_context_roundtrip_witness:
  "rw_body (sv_w (fst (Request echo_handler sample_http sample_served))) = ''|body1''"
proof -
  let ?vs = "[(''k'', [''1'', ''2''])]"
  have q: "hr_RawQuery sample_http = Encode ?vs" by code_simp
  have d: "distinct (map fst ?vs)" by simp
  from request_context_roundtrip [OF q d, of echo_handler sample_served] obtain r1
    where r1: "Request echo_handler sample_http sample_served = echo_handler r1 (sample_served\<lparr>sv_rbody := []\<rparr>)"
      "RequestBody (hr_ctx r1) = sv_rbody sample_served"
      "RequestQuerys (hr_ctx r1) = (\<lambda>k. case values_of ?vs k of [] \<Rightarrow> None | v # _ \<Rightarrow> Some v)"
    by blast
  show ?thesis
    unfolding r1(1)
    by (simp add: echo_handler_def r1(2,3) values_of_def sample_served_def on_w_def Write_def
        fresh_rw_def body_allowed_def)
qed

text \<open>
  The order of \<open>Recover\<close> and \<open>Prom\<close> decides what the metrics show of a handler that panics
  before it has answered: the client gets a 500 either way and no panic escapes, but with
  \<open>Recover\<close> outside, the request stays counted as started and is never counted as handled; with
  \<open>Recover\<close> inside, it is counted as handled with status 500.\<close>

theorem recover_prom_order:
  assumes "wrap_law Wrap" and "pm_ready (sv_prom s)"
    and "\<not> list_ex (\<lambda>ignore. ignore (sv_w s) r) ignores" and "rw_sent (sv_w s) = None"
    and "n = handler_name (hr_Path r) (hr_Method r)"
    and "h r (started n s) = (s2, Some v)" and "v \<noteq> ErrAbortHandler"
    and "sv_prom s2 = sv_prom (started n s)" and "rw_sent (sv_w s2) = None"
  shows "\<exists>s3 s4. Recover (Prom ToString ToFloat64 cost Wrap ignores h) r s = (s3, None)
     \<and> Prom ToString ToFloat64 cost Wrap ignores (Recover h) r s = (s4, None)
     \<and> rw_sent (sv_w s3) = Some (500, rw_header (sv_w s2)) \<and> sv_w s4 = sv_w s3
     \<and> pm_samples (sv_prom s3) = pm_samples (sv_prom s) @ [started_sample (sv_prom s) n]
     \<and> pm_samples (sv_prom s4) = pm_samples (sv_prom s) @ [started_sample (sv_prom s) n]
          @ handled_samples ToString ToFloat64 (sv_prom s) n 500 cost"
proof -
  have ready: "pm_ready (sv_prom (started n s))" using assms(2) by (simp add: started_def)
  have inner: "Prom ToString ToFloat64 cost Wrap ignores h r s = (s2, Some v)"
    using Prom_transparent [where h = h, OF assms(1-6)] by simp
  have rec: "Recover h r (started n s) = on_w (WriteHeader 500) s2"
    using assms(6,7) by (simp add: Recover_def)
  let ?t = "s2\<lparr>sv_w := (sv_w s2)\<lparr>rw_sent := Some (500, rw_header (sv_w s2))\<rparr>\<rparr>"
  have w: "on_w (WriteHeader 500) s2 = (?t, None)" using assms(9) by (simp add: on_w_def)
  have outer: "Prom ToString ToFloat64 cost Wrap ignores (Recover h) r s
      = (?t\<lparr>sv_prom := (sv_prom s2)\<lparr>pm_samples := pm_samples (sv_prom s2)
          @ handled_samples ToString ToFloat64 (sv_prom s2) n 500 cost\<rparr>\<rparr>, None)"
    using Prom_transparent [OF assms(1-5), of "Recover h" ?t None ToString ToFloat64 cost]
      ready assms(8) rec w by (simp add: status_sent_def)
  have "Recover (Prom ToString ToFloat64 cost Wrap ignores h) r s = (?t, None)"
    using assms(7) by (simp add: Recover_def inner w)
  with outer assms(8) show ?thesis
    by (simp add: started_def handled_samples_def started_sample_def)
qed

definition panicking_handler :: "nat handler" where
  "panicking_handler r s = (s, Some (PanicOther ''boom''))"

definition sample_name :: string where "sample_name = ''A_B-POST''"

lemma sample_name_eq: "sample_name = handler_name (hr_Path sample_http) (hr_Method sample_http)"
  by code_simp

theorem recover_prom_order_witness:
  "\<exists>s3 s4. Recover (Prom (\<lambda>n. ''500'') nat 1 plain_wrap [] panicking_handler) sample_http sample_served = (s3, None)
     \<and> Prom (\<lambda>n. ''500'') nat 1 plain_wrap [] (Recover panicking_handler) sample_http sample_served = (s4, None)
     \<and> length (pm_samples (sv_prom s3)) = 1 \<and> length (pm_samples (sv_prom s4)) = 3"
proof -
  have 1: "pm_ready (sv_prom sample_served)" "rw_sent (sv_w sample_served) = None"
    by (simp_all add: sample_served_def prom_Init_def prom_zero_def fresh_rw_def)
  have 2: "\<not> list_ex (\<lambda>ignore. ignore (sv_w sample_served) sample_http) []" by simp
  have 3: "panicking_handler sample_http (started sample_name sample_served)
      = (started sample_name sample_served, Some (PanicOther ''boom''))"
    by (simp add: panicking_handler_def)
  have 4: "PanicOther ''boom'' \<noteq> ErrAbortHandler" by simp
  have 5: "rw_sent (sv_w (started sample_name sample_served)) = None"
    using 1(2) by (simp add: started_def)
  have 6: "pm_samples (sv_prom sample_served) = []"
    by (simp add: sample_served_def prom_Init_def prom_zero_def)
  from recover_prom_order [where h = panicking_handler, OF wrap_law_plain 1(1) 2 1(2) sample_name_eq 3 4 refl 5,
      of "\<lambda>n. ''500''" nat 1] 6
  show ?thesis by (auto simp: handled_samples_def)
qed

text \<open>
  The request id. Whatever the ignores are, the next handler of \<open>Logger\<close> runs with the id of
  the request header, or a new one if that is empty, in its context, in the fields of its logger
  and in the response header; its result is the result of the middleware, with one line added to
  the access log, with the status that was sent, exactly when no ignore holds and it did not panic.\<close>

theorem logger_request_id:
  assumes "wrap_law Wrap" and "rw_sent (sv_w s) = None"
    and "rid = (let x = Header_Get (hr_Header r) ''X-Request-ID'' in if x = [] then NewString else x)"
  shows "\<exists>r1 s1. r1\<lparr>hr_ctx := hr_ctx r\<rparr> = r \<and> RequestID (hr_ctx r1) = rid
     \<and> (''requestId'', LStr rid) \<in> set (lg_fields (cx_logger (hr_ctx r1)))
     \<and> Header_Get (rw_header (sv_w s1)) ''X-Request-ID'' = rid
     \<and> (\<exists>lines. Logger NewString Wrap ignores h r s
            = ((fst (h r1 s1))\<lparr>sv_log := sv_log (fst (h r1 s1)) @ lines\<rparr>, snd (h r1 s1))
          \<and> map ac_status lines =
              (if snd (h r1 s1) \<noteq> None \<or> list_ex (\<lambda>ignore. ignore (sv_w s1) r1) ignores then []
               else [status_sent (sv_w (fst (h r1 s1)))]))"
proof -
  let ?s1 = "s\<lparr>sv_w := set_rw_header ''X-Request-ID'' rid (sv_w s)\<rparr>"
  let ?c = "WithValue (hr_ctx r) requestIdCtxKey (CtxStr rid)"
  let ?r1 = "r\<lparr>hr_ctx := ?c\<lparr>cx_logger := log_Str (cx_logger ?c) ''requestId'' rid\<rparr>\<rparr>"
  obtain s2 p where h: "h ?r1 ?s1 = (s2, p)" by fastforce
  have unsent: "rw_sent (sv_w ?s1) = None" using assms(2) by (simp add: set_rw_header_def)
  obtain st sz where w: "Wrap (hr_ProtoMajor r) h ?r1 ?s1 = ((s2, p), st, sz)"
    and st: "st = status_sent (sv_w s2)"
    using wrap_lawE [OF assms(1), of "hr_ProtoMajor r" h ?r1 ?s1] unsent h by (metis fst_conv)
  have "\<exists>lines. Logger NewString Wrap ignores h r s
            = ((fst (h ?r1 ?s1))\<lparr>sv_log := sv_log (fst (h ?r1 ?s1)) @ lines\<rparr>, snd (h ?r1 ?s1))
          \<and> map ac_status lines =
              (if snd (h ?r1 ?s1) \<noteq> None \<or> list_ex (\<lambda>ignore. ignore (sv_w ?s1) ?r1) ignores then []
               else [status_sent (sv_w (fst (h ?r1 ?s1)))])"
  proof (cases "p \<noteq> None \<or> list_ex (\<lambda>ignore. ignore (sv_w ?s1) ?r1) ignores")
    case True
    then have "Logger NewString Wrap ignores h r s = (s2, p)"
      using h w by (auto simp: Logger_def Let_def assms(3) [unfolded Let_def, symmetric] and_then_def)
    with True h show ?thesis by (intro exI [of _ "[]"]) simp
  next
    case False
    then obtain l where "Logger NewString Wrap ignores h r s = (s2\<lparr>sv_log := sv_log s2 @ [l]\<rparr>, None)"
      "ac_status l = st"
      using h w by (auto simp: Logger_def Let_def assms(3) [unfolded Let_def, symmetric] and_then_def)
    with False h st show ?thesis by (intro exI [of _ "[l]"]) simp
  qed
  then show ?thesis
    by (intro exI [of _ ?r1] exI [of _ ?s1])
      (simp add: accessor_defs log_Str_def log_field_def set_rw_header_def)
qed

text \<open>A handler that answers with the id of the request.\<close>

definition id_handler :: "nat handler" where
  "id_handler r s = on_w (Write (RequestID (hr_ctx r))) s"

theorem logger_request_id_witness:
  "\<exists>r1 s1. RequestID (hr_ctx r1) = ''u-1'' \<and> Header_Get (rw_header (sv_w s1)) ''X-Request-ID'' = ''u-1''
     \<and> sv_w (fst (Logger ''u-1'' plain_wrap [] id_handler sample_http sample_served)) = sv_w (fst (id_handler r1 s1))
     \<and> rw_body (sv_w (fst (Logger ''u-1'' plain_wrap [] id_handler sample_http sample_served))) = ''u-1''"
proof -
  have u: "rw_sent (sv_w sample_served) = None" by (simp add: sample_served_def fresh_rw_def)
  have i: "''u-1'' = (let x = Header_Get (hr_Header sample_http) ''X-Request-ID''
      in if x = [] then ''u-1'' else x)"
    by code_simp
  have b: "rw_body (sv_w (fst (Logger ''u-1'' plain_wrap [] id_handler sample_http sample_served))) = ''u-1''"
    by code_simp
  from logger_request_id [OF wrap_law_plain u i, of "[]" id_handler] obtain r1 s1 lines
    where "RequestID (hr_ctx r1) = ''u-1''" "Header_Get (rw_header (sv_w s1)) ''X-Request-ID'' = ''u-1''"
      "Logger ''u-1'' plain_wrap [] id_handler sample_http sample_served
        = ((fst (id_handler r1 s1))\<lparr>sv_log := sv_log (fst (id_handler r1 s1)) @ lines\<rparr>, snd (id_handler r1 s1))"
    by blast
  with b show ?thesis by (intro exI [of _ r1] exI [of _ s1]) simp
qed

end
