(* ===== verification/Gin.thy ===== *)
theory Gin
  imports Governor
begin

text \<open>
  The package onegin around the gin framework: registering routes (src/onegin/gin.go), the shapes of
  the answers (response.go, ginerr/err.go), and the reading of requests (ginreq/req.go, args.go).
  Gin itself is the list of what was registered and answered; gzip, the JSON decoder and the
  conversions of package cast are arguments.
\<close>

section \<open>Routes (gin.go)\<close>

record 'h route =
  ro_Status :: int
  ro_Method :: string
  ro_Path :: string
  ro_Handler :: 'h

record 'h engine =
  en_registered :: "(string \<times> string \<times> 'h) list"
  en_PrefixPath :: string

definition gin_register :: "string \<Rightarrow> string \<Rightarrow> 'h \<Rightarrow> 'h engine \<Rightarrow> 'h engine" where
  "gin_register method path h i = i\<lparr>en_registered := en_registered i @ [(method, path, h)]\<rparr>"

definition AddRoutes :: "'h engine \<Rightarrow> 'h route \<Rightarrow> 'h engine" where
  "AddRoutes i r =
     (let path = en_PrefixPath i @ ro_Path r
      in if ro_Method r = ''GET'' then gin_register ''GET'' path (ro_Handler r) i
         else if ro_Method r = ''POST'' then gin_register ''POST'' path (ro_Handler r) i
         else if ro_Method r = ''PUT'' then gin_register ''PUT'' path (ro_Handler r) i
         else if ro_Method r = ''PATCH'' then gin_register ''PATCH'' path (ro_Handler r) i
         else if ro_Method r = ''DELETE'' then gin_register ''DELETE'' path (ro_Handler r) i
         else if ro_Method r = ''OPTIONS'' then gin_register ''OPTIONS'' path (ro_Handler r) i
         else i)"

section \<open>Answers (response.go, err.go)\<close>

text \<open>The fields of a JSON object; \<open>omitempty\<close> leaves out a zero.\<close>

datatype 'v json = JInt int | JStr string | JData 'v

type_synonym 'v answer = "int \<times> (string \<times> 'v json) list"

record gin_error =
  ge_Code :: int
  ge_Msg :: string

definition error_fields :: "gin_error \<Rightarrow> (string \<times> 'v json) list" where
  "error_fields e =
     (if ge_Code e = 0 then [] else [(''code'', JInt (ge_Code e))])
       @ (if ge_Msg e = [] then [] else [(''msg'', JStr (ge_Msg e))])"

definition gin_Error :: "'v answer list \<Rightarrow> int \<Rightarrow> gin_error \<Rightarrow> 'v answer list" where
  "gin_Error c status err = c @ [(status, error_fields err)]"

definition gin_Success :: "'v answer list \<Rightarrow> int \<Rightarrow> 'v option \<Rightarrow> 'v answer list" where
  "gin_Success c status data =
     (let res = [(''code'', JInt 0), (''msg'', JStr ''ok'')]
      in case data of
           None \<Rightarrow> c @ [(status, res)]
         | Some d \<Rightarrow> c @ [(status, res @ [(''data'', JData d)])])"

definition gin_JustSuccess :: "'v answer list \<Rightarrow> int \<Rightarrow> 'v answer list" where
  "gin_JustSuccess c status = c @ [(status, [(''code'', JInt 0), (''msg'', JStr ''ok'')])]"

record x_error =
  xe_Code :: int
  xe_Msg :: string

definition ginerr_New :: "int \<Rightarrow> string \<Rightarrow> x_error" where
  "ginerr_New code msg = \<lparr>xe_Code = code, xe_Msg = msg\<rparr>"

definition ginerr_Error :: "x_error \<Rightarrow> string" where
  "ginerr_Error x = xe_Msg x"

section \<open>Arguments (args.go)\<close>

text \<open>
  A request: the raw query of its URL (\<open>None\<close> if the URL is nil), its headers, what is left of its
  body, and the error at the end of the body, if any.
\<close>

record gin_request =
  gr_RawQuery :: "string option"
  gr_Header :: http_header
  gr_rest :: string
  gr_err :: "string option"

text \<open>\<open>Xargs\<close>: the request (which may be nil) and the query once it has been parsed.\<close>

record xargs =
  xa_r :: "gin_request option"
  xa_q :: "(string \<times> string) list option"

definition nil_deref :: "'a outcome" where
  "nil_deref = Panic ''invalid memory address or nil pointer dereference''"

text \<open>The line that logs the parsed query reads the URL even if it is nil.\<close>

definition Xargs_Get :: "string \<Rightarrow> xargs \<Rightarrow> (xargs \<times> string) outcome" where
  "Xargs_Get key x =
     (case xa_q x of
        Some q \<Rightarrow> Done (x, first_value (pairs_of q key))
      | None \<Rightarrow>
          (case xa_r x of
             None \<Rightarrow> nil_deref
           | Some r \<Rightarrow>
               (case gr_RawQuery r of
                  None \<Rightarrow> nil_deref
                | Some raw \<Rightarrow>
                    (let q = fst (ParseQuery raw)
                     in Done (x\<lparr>xa_q := Some q\<rparr>, first_value (pairs_of q key))))))"

definition XHeaders_Get :: "gin_request \<Rightarrow> string \<Rightarrow> string" where
  "XHeaders_Get r key = Header_Get (gr_Header r) key"

text \<open>\<open>XKeys\<close> converts what a portal gives; the conversion is cast's.\<close>

definition XKeys_convert :: "(string \<Rightarrow> 'a) \<Rightarrow> ('k \<Rightarrow> ('k \<times> string) outcome) \<Rightarrow> 'k \<Rightarrow> ('k \<times> 'a) outcome" where
  "XKeys_convert To get k = obind (get k) (\<lambda>(k1, s). Done (k1, To s))"

definition XKeys_String :: "('k \<Rightarrow> ('k \<times> string) outcome) \<Rightarrow> 'k \<Rightarrow> ('k \<times> string) outcome" where
  "XKeys_String get k = get k"

section \<open>Requests (req.go)\<close>

text \<open>The body is nil until it has been read.\<close>

record x_request =
  xr_r :: gin_request
  xr_query :: xargs
  xr_body :: "string option"

definition NewXRequest :: "gin_request \<Rightarrow> x_request" where
  "NewXRequest r = \<lparr>xr_r = r, xr_query = \<lparr>xa_r = Some r, xa_q = None\<rparr>, xr_body = None\<rparr>"

definition Binary :: "x_request \<Rightarrow> x_request \<times> string" where
  "Binary x =
     (case xr_body x of
        Some b \<Rightarrow> (x, b)
      | None \<Rightarrow>
          (let b = gr_rest (xr_r x)
           in (x\<lparr>xr_r := (xr_r x)\<lparr>gr_rest := []\<rparr>, xr_body := Some b\<rparr>, b)))"

definition XRequest_Header :: "x_request \<Rightarrow> http_header" where
  "XRequest_Header x = gr_Header (xr_r x)"

definition XRequest_Body :: "x_request \<Rightarrow> string option" where
  "XRequest_Body x = xr_body x"

definition XRequest_Query :: "x_request \<Rightarrow> xargs" where
  "XRequest_Query x = xr_query x"

text \<open>\<open>Body\<close> does not read: it is nil until \<open>Binary\<close> has read the body, and then what that gave.\<close>

lemma Body_after_Binary:
  "XRequest_Body (NewXRequest r) = None"
  "Binary x = (x1, b) \<Longrightarrow> XRequest_Body x1 = Some b \<and> XRequest_Header x1 = XRequest_Header x"
  by (auto simp: NewXRequest_def XRequest_Body_def XRequest_Header_def Binary_def Let_def split: option.splits)

text \<open>
  \<open>Gunzip b\<close>: the error of a bad header, or what can be read (up to an error, which is only logged).
  After a bad header the reader is nil and is used.
\<close>

definition BinaryGzip :: "(string \<Rightarrow> string + string) \<Rightarrow> x_request \<Rightarrow> (x_request \<times> string) outcome" where
  "BinaryGzip Gunzip x =
     (case xr_body x of
        Some b \<Rightarrow> Done (x, b)
      | None \<Rightarrow>
          (case Gunzip (gr_rest (xr_r x)) of
             Inl e \<Rightarrow> nil_deref
           | Inr b \<Rightarrow> Done (x\<lparr>xr_r := (xr_r x)\<lparr>gr_rest := []\<rparr>, xr_body := Some b\<rparr>, b)))"

text \<open>Decoding into \<open>js\<close>: the value then, and the error.\<close>

definition json_result :: "'j \<times> string option \<Rightarrow> 'j \<times> string option" where
  "json_result res = (case res of (js, e) \<Rightarrow> (js, map_option (\<lambda>t. ''json unmarshal '' @ t) e))"

definition req_Json :: "(string \<Rightarrow> 'j \<Rightarrow> 'j \<times> string option) \<Rightarrow> x_request \<Rightarrow> 'j \<Rightarrow> x_request \<times> 'j \<times> string option" where
  "req_Json Decode x js = (let (x1, b) = Binary x in (x1, json_result (Decode b js)))"

definition JsonUnGzip ::
  "(string \<Rightarrow> string + string) \<Rightarrow> (string \<Rightarrow> 'j \<Rightarrow> 'j \<times> string option) \<Rightarrow> x_request \<Rightarrow> 'j
     \<Rightarrow> (x_request \<times> 'j \<times> string option) outcome" where
  "JsonUnGzip Gunzip Decode x js =
     obind (BinaryGzip Gunzip x) (\<lambda>(x1, b). Done (x1, json_result (Decode b js)))"

definition JsonWrapper ::
  "(string \<Rightarrow> int) \<Rightarrow> (string \<Rightarrow> string + string) \<Rightarrow> (string \<Rightarrow> 'j \<Rightarrow> 'j \<times> string option)
     \<Rightarrow> gin_request \<Rightarrow> 'j \<Rightarrow> (gin_request \<times> 'j \<times> string option) outcome" where
  "JsonWrapper ToInt Gunzip Decode r js =
     (let x = NewXRequest r
      in obind (XKeys_convert ToInt (Xargs_Get ''gzip'') (xr_query x)) (\<lambda>(q, n).
        let x1 = x\<lparr>xr_query := q\<rparr>
        in if n = 1
           then obind (JsonUnGzip Gunzip Decode x1 js) (\<lambda>(x2, res). Done (xr_r x2, res))
           else (let (x2, res) = req_Json Decode x1 js in Done (xr_r x2, res))))"

section \<open>Properties\<close>

definition gin_methods :: "string list" where
  "gin_methods = [''GET'', ''POST'', ''PUT'', ''PATCH'', ''DELETE'', ''OPTIONS'']"

lemma AddRoutes_eq:
  "AddRoutes i r = (if ro_Method r \<in> set gin_methods
     then gin_register (ro_Method r) (en_PrefixPath i @ ro_Path r) (ro_Handler r) i else i)"
  by (auto simp: AddRoutes_def gin_methods_def Let_def)

text \<open>
  Registering routes one after the other registers, in order and under the prefix of the engine,
  exactly those whose method is one of six; a route with another method (HEAD, say) is dropped
  without an error.\<close>

theorem add_routes_filters:
  "foldl AddRoutes i rs =
     i\<lparr>en_registered := en_registered i @
        map (\<lambda>r. (ro_Method r, en_PrefixPath i @ ro_Path r, ro_Handler r))
          (filter (\<lambda>r. ro_Method r \<in> set gin_methods) rs)\<rparr>"
proof (induction rs arbitrary: i)
  case (Cons r rs)
  then show ?case by (simp add: AddRoutes_eq gin_register_def)
qed simp

text \<open>A body is read at most once: afterwards both ways of reading give what the first one gave.\<close>

datatype body_read = ReadPlain | ReadGzip

definition body_read :: "(string \<Rightarrow> string + string) \<Rightarrow> body_read \<Rightarrow> x_request \<Rightarrow> (x_request \<times> string) outcome" where
  "body_read Gunzip k x = (case k of ReadPlain \<Rightarrow> Done (Binary x) | ReadGzip \<Rightarrow> BinaryGzip Gunzip x)"

fun body_reads :: "(string \<Rightarrow> string + string) \<Rightarrow> body_read list \<Rightarrow> x_request \<Rightarrow> (x_request \<times> string list) outcome" where
  "body_reads Gunzip [] x = Done (x, [])"
| "body_reads Gunzip (k # ks) x =
     obind (body_read Gunzip k x) (\<lambda>(x1, b).
       obind (body_reads Gunzip ks x1) (\<lambda>(x2, bs). Done (x2, b # bs)))"

lemma body_read_cached: "xr_body x = Some b \<Longrightarrow> body_read Gunzip k x = Done (x, b)"
  by (cases k) (simp_all add: body_read_def Binary_def BinaryGzip_def)

lemma body_reads_cached:
  "xr_body x = Some b \<Longrightarrow> body_reads Gunzip ks x = Done (x, replicate (length ks) b)"
  by (induction ks) (simp_all add: body_read_cached)

text \<open>
  The cache of the body is shared by the two ways of reading it: in any sequence of reads of a
  new request that starts with a plain read, every read gives the raw bytes, so the gzip reads
  give the compressed text; if it starts with a gzip read, every read gives the decompressed text.
  A body with a bad gzip header panics on a gzip read.\<close>

theorem body_cache_shared:
  "body_reads Gunzip (ReadPlain # ks) (NewXRequest r) =
     Done ((fst (Binary (NewXRequest r))), replicate (Suc (length ks)) (gr_rest r))
   \<and> body_reads Gunzip (ReadGzip # ks) (NewXRequest r) =
     (case Gunzip (gr_rest r) of
        Inl e \<Rightarrow> Panic ''invalid memory address or nil pointer dereference''
      | Inr b \<Rightarrow> Done ((NewXRequest r)\<lparr>xr_r := r\<lparr>gr_rest := []\<rparr>, xr_body := Some b\<rparr>,
                     replicate (Suc (length ks)) b))"
proof
  show "body_reads Gunzip (ReadPlain # ks) (NewXRequest r) =
     Done ((fst (Binary (NewXRequest r))), replicate (Suc (length ks)) (gr_rest r))"
    by (simp add: body_read_def Binary_def NewXRequest_def Let_def body_reads_cached)
  show "body_reads Gunzip (ReadGzip # ks) (NewXRequest r) =
     (case Gunzip (gr_rest r) of
        Inl e \<Rightarrow> Panic ''invalid memory address or nil pointer dereference''
      | Inr b \<Rightarrow> Done ((NewXRequest r)\<lparr>xr_r := r\<lparr>gr_rest := []\<rparr>, xr_body := Some b\<rparr>,
                     replicate (Suc (length ks)) b))"
    by (simp add: body_read_def BinaryGzip_def NewXRequest_def nil_deref_def body_reads_cached split: sum.split)
qed

text \<open>
  \<open>JsonWrapper\<close> decodes the decompressed body exactly when the query says \<open>gzip=1\<close> (with whatever
  other pairs), the raw body otherwise; the request body has been read to its end then, and an
  error of the decoder is passed on with a prefix.\<close>

theorem json_wrapper_decodes:
  assumes "gr_RawQuery r = Some (Encode vs)" and "distinct (map fst vs)"
    and "Gunzip (gr_rest r) = Inr plain"
  shows "JsonWrapper ToInt Gunzip Decode r js =
     Done (r\<lparr>gr_rest := []\<rparr>,
       json_result (Decode (if ToInt (first_value (values_of vs ''gzip'')) = 1 then plain else gr_rest r) js))"
proof -
  have "pairs_of (fst (ParseQuery (Encode vs))) ''gzip'' = values_of vs ''gzip''"
    by (simp add: ParseQuery_Encode pairs_of_value_pairs [OF assms(2)])
  then show ?thesis
    by (simp add: JsonWrapper_def XKeys_convert_def Xargs_Get_def NewXRequest_def assms(1,3)
        JsonUnGzip_def BinaryGzip_def req_Json_def Binary_def Let_def)
qed

definition sample_gin :: gin_request where
  "sample_gin = \<lparr>gr_RawQuery = Some ''a=x&gzip=1'', gr_Header = [], gr_rest = ''zz7'', gr_err = None\<rparr>"

theorem json_wrapper_decodes_witness:
  "JsonWrapper (\<lambda>s. if s = ''1'' then 1 else 0) (\<lambda>b. Inr (drop 2 b)) (\<lambda>b js. (b, None)) sample_gin []
     = Done (sample_gin\<lparr>gr_rest := []\<rparr>, ''7'', None)"
proof -
  let ?vs = "[(''gzip'', [''1'']), (''a'', [''x''])]"
  have "Encode ?vs = ''a=x&gzip=1''" by code_simp
  then have 1: "gr_RawQuery sample_gin = Some (Encode ?vs)" by (simp add: sample_gin_def)
  have 2: "distinct (map fst ?vs)" by simp
  have 3: "(\<lambda>b. Inr (drop 2 b)) (gr_rest sample_gin) = (Inr ''7'' :: string + string)" by (simp add: sample_gin_def)
  from json_wrapper_decodes [where Gunzip = "\<lambda>b. Inr (drop 2 b)", OF 1 2 3, of "\<lambda>s. if s = ''1'' then 1 else 0" "\<lambda>b js. (b, None)" "[]"]
  show ?thesis by (simp add: values_of_def first_value_def json_result_def)
qed

text \<open>A nil URL, for which the code has a case, panics in the line that logs the query.\<close>

lemma nil_url_panics:
  "Xargs_Get key \<lparr>xa_r = Some (r\<lparr>gr_RawQuery := None\<rparr>), xa_q = None\<rparr>
     = Panic ''invalid memory address or nil pointer dereference''"
  by (simp add: Xargs_Get_def nil_deref_def)

end
