(* ===== verification/Http_Roundtrip.thy ===== *)
theory Http_Roundtrip
  imports Net Gin
begin

text \<open>
  The two ends of an HTTP call together: a request sent by a client of package onenet (src/onenet) and
  read by a handler with package ginreq (src/onegin/ginreq).
\<close>

section \<open>The server\<close>

text \<open>
  What the server's \<open>http.Request\<close> has of a request on the wire: the query of its URL, without a
  fragment, the headers and the body. The reply is a text.
\<close>

definition received :: "wire_request \<Rightarrow> gin_request" where
  "received w = \<lparr>gr_RawQuery = Some (url_query (fst (cut (CHR ''#'') (wq_url w)))), gr_Header = wq_headers w,
     gr_rest = (case wq_body w of None \<Rightarrow> [] | Some b \<Rightarrow> b), gr_err = None\<rparr>"

definition reply_text :: "string \<Rightarrow> wire_response" where
  "reply_text b = \<lparr>ws_status = 200, ws_headers = [], ws_body = b, ws_err = None\<rparr>"

definition query_of :: "gin_request \<Rightarrow> string \<Rightarrow> string outcome" where
  "query_of g key = obind (Xargs_Get key (xr_query (NewXRequest g))) (\<lambda>(q, v). Done v)"

section \<open>The query\<close>

lemma pairs_of_add_query:
  assumes "distinct (map fst (rq_Query r))"
  shows "pairs_of (fst (ParseQuery (url_query (rq_URL (add_query ''&'' r))))) key
    = pairs_of (fst (ParseQuery (url_query (rq_URL r)))) key @ values_of (rq_Query r) key"
proof (cases "rq_Query r = []")
  case True
  then show ?thesis by (simp add: add_query_def values_of_def)
next
  case False
  then show ?thesis by (simp add: add_query_std_pairs pairs_of_append pairs_of_value_pairs [OF assms])
qed

lemma query_of_received:
  "query_of (received w) key = Done (first_value (pairs_of (fst (ParseQuery (url_query (fst (cut (CHR ''#'') (wq_url w)))))) key))"
  by (simp add: query_of_def received_def NewXRequest_def Xargs_Get_def Let_def)

section \<open>The headers\<close>

lemma map_of_foldl_update:
  "map_of (foldl (\<lambda>hs (k, v). AList.update (f k) v hs) acc kvs) = map_of acc ++ map_of (rev (map (\<lambda>(k, v). (f k, v)) kvs))"
proof (induction kvs arbitrary: acc)
  case (Cons kv kvs)
  then show ?case by (cases kv) (simp add: AList.update_conv' map_add_upd_left map_add_def fun_eq_iff split: option.split)
qed simp

lemma wire_headers_Header_Get:
  assumes "rq_Header r = Some hs" and "no_Canonical N = CanonicalKey" and "distinct (map (CanonicalKey \<circ> fst) hs)"
    and "(k, v) \<in> set hs"
  shows "Header_Get (wire_headers N r) k = v"
proof -
  let ?kvs = "map (\<lambda>(k, v). (CanonicalKey k, v)) hs"
  have d: "distinct (map fst (rev ?kvs))"
    using assms(3) by (simp add: comp_def case_prod_beta flip: rev_map)
  have "(CanonicalKey k, v) \<in> set (rev ?kvs)" using assms(4) by force
  then have "map_of (rev ?kvs) (CanonicalKey k) = Some v" by (simp add: map_of_eq_Some_iff [OF d])
  then show ?thesis
    using map_of_foldl_update [of CanonicalKey "[]" hs] by (simp add: Header_Get_def wire_headers_def assms(1,2))
qed

section \<open>The URL\<close>

lemma cut_absent: "c \<notin> set xs \<Longrightarrow> fst (cut c xs) = xs"
  by (induction xs) (auto split: prod.splits)

lemma set_join: "set (join sep xs) \<subseteq> set sep \<union> (\<Union>x \<in> set xs. set x)"
  by (induction sep xs rule: join.induct) auto

lemma Encode_no_hash: "CHR ''#'' \<notin> set (Encode vs)"
proof -
  have "CHR ''#'' \<notin> set (encode_pair kv)" for kv by (simp add: encode_pair_def QueryEscape_no)
  then show ?thesis using set_join [of "''&''" "map encode_pair (value_pairs vs)"] by (auto simp: Encode_def)
qed

lemma add_query_no_fragment:
  "CHR ''#'' \<notin> set (rq_URL r) \<Longrightarrow> CHR ''#'' \<notin> set sep \<Longrightarrow>
     fst (cut (CHR ''#'') (rq_URL (add_query sep r))) = rq_URL (add_query sep r)"
  by (rule cut_absent) (simp add: add_query_def Encode_no_hash)

section \<open>The call\<close>

lemma add_content_type_keeps:
  assumes "rq_Header r = Some hs"
  obtains hs1 where "add_content_type r = Done (r\<lparr>rq_Header := Some hs1\<rparr>)"
proof (cases "rq_ContentType r = []")
  case True
  then have "add_content_type r = Done (r\<lparr>rq_Header := Some hs\<rparr>)"
    using assms by (simp add: add_content_type_def)
  then show thesis by (rule that)
next
  case False
  then have "add_content_type r
      = Done (r\<lparr>rq_Header := Some (AList.update ''Content-Type'' (rq_ContentType r) hs)\<rparr>)"
    using assms by (simp add: add_content_type_def set_header_def)
  then show thesis by (rule that)
qed

lemma body_bytes_add_query [simp]: "body_bytes N (add_query sep r) = body_bytes N r"
  by (simp add: body_bytes_def add_query_def split: body.split)

lemma add_query_Header [simp]: "rq_Header (add_query sep r) = rq_Header r"
  by (simp add: add_query_def)

text \<open>The text that a client with a size limit keeps.\<close>

definition clip :: "int \<Rightarrow> string \<Rightarrow> string" where
  "clip n b = (if n = 0 then b else take (nat n) b)"

lemma finish_text:
  assumes "rs_Res s = RString x"
  shows "finish N pooled (reply_text b) r s c = Done ((r, s\<lparr>rs_Res := RString c\<rparr>), None)"
  using assms
  by (simp add: finish_def decode_body_def content_encoding_def reply_text_def store_body_def)

lemma std_do_text:
  assumes "rq_Header r = Some hs" and "body_bytes N r = Inr b" and "\<And>m u. no_BadRequest N m u = None"
    and "no_Do N = (\<lambda>w. Inr (reply_text (H (received w))))" and "rs_Res s = RString x"
    and "0 \<le> rq_MaxResBodySize r"
  obtains hs1 w where "std_do N pooled r s = Done (((add_query ''&'' r)\<lparr>rq_Header := Some hs1\<rparr>,
        s\<lparr>rs_Res := RString (clip (rq_MaxResBodySize r) (H (received w)))\<rparr>), None)"
    "wq_url w = rq_URL (add_query ''&'' r)" "wq_body w = b"
    "wq_headers w = wire_headers N ((add_query ''&'' r)\<lparr>rq_Header := Some hs1\<rparr>)"
proof -
  let ?r1 = "add_query ''&'' r"
  obtain hs1 where hs1: "add_content_type ?r1 = Done (?r1\<lparr>rq_Header := Some hs1\<rparr>)"
    by (rule add_content_type_keeps [of ?r1 hs]) (simp_all add: assms(1))
  let ?r2 = "?r1\<lparr>rq_Header := Some hs1\<rparr>"
  let ?w = "\<lparr>wq_method = rq_Method ?r2, wq_url = rq_URL ?r2, wq_headers = wire_headers N ?r2, wq_body = b\<rparr>"
  have copy: "copy_headers (reply_text t) s = Done s" for t
    by (simp add: copy_headers_def reply_text_def)
  have read: "limited_read n (reply_text t) = (take (nat n) t, None)" for n t
    by (simp add: limited_read_take reply_text_def)
  have "std_do N pooled r s = Done ((?r2, s\<lparr>rs_Res := RString (clip (rq_MaxResBodySize r) (H (received ?w)))\<rparr>), None)"
    using assms by (simp add: std_do_def Let_def hs1 copy read finish_text clip_def)
      (simp add: reply_text_def)
  then show thesis by (rule that) simp_all
qed

lemma fast_do_text:
  assumes "rq_Header r = Some hs" and "body_bytes N r = Inr b"
    and "no_Do N = (\<lambda>w. Inr (reply_text (H (received w))))" and "rs_Res s = RString x"
    and "0 \<le> rq_MaxResBodySize r"
  obtains hs1 w where "fast_do N pooled r s = Done (((add_query [] r)\<lparr>rq_Header := Some hs1\<rparr>,
        s\<lparr>rs_Res := RString (clip (rq_MaxResBodySize r) (H (received w)))\<rparr>), None)"
    "wq_url w = rq_URL (add_query [] r)" "wq_body w = b"
    "wq_headers w = wire_headers N ((add_query [] r)\<lparr>rq_Header := Some hs1\<rparr>)"
proof -
  let ?r1 = "add_query [] r"
  obtain hs1 where hs1: "add_content_type ?r1 = Done (?r1\<lparr>rq_Header := Some hs1\<rparr>)"
    by (rule add_content_type_keeps [of ?r1 hs]) (simp_all add: assms(1))
  let ?r2 = "?r1\<lparr>rq_Header := Some hs1\<rparr>"
  let ?w = "\<lparr>wq_method = rq_Method ?r2, wq_url = rq_URL ?r2, wq_headers = wire_headers N ?r2, wq_body = b\<rparr>"
  have copy: "copy_headers (reply_text t) s = Done s" for t
    by (simp add: copy_headers_def reply_text_def)
  have "fast_do N pooled r s = Done ((?r2, s\<lparr>rs_Res := RString (clip (rq_MaxResBodySize r) (H (received ?w)))\<rparr>), None)"
    using assms(1-4) fast_limit_take [OF assms(5)]
    by (simp add: fast_do_def Let_def hs1 copy finish_text clip_def) (simp add: reply_text_def)
  then show thesis by (rule that) simp_all
qed

text \<open>What a handler finds in a request that carries query \<open>q\<close> after that of the URL, and body \<open>b\<close>.\<close>

definition carries :: "net_ops \<Rightarrow> one_request \<Rightarrow> bytes option \<Rightarrow> headers \<Rightarrow> gin_request \<Rightarrow> bool" where
  "carries N r b hs g \<longleftrightarrow>
     (\<forall>key. query_of g key =
        Done (first_value (pairs_of (fst (ParseQuery (url_query (rq_URL r)))) key @ values_of (rq_Query r) key))) \<and>
     snd (Binary (NewXRequest g)) = (case b of None \<Rightarrow> [] | Some t \<Rightarrow> t) \<and>
     (no_Canonical N = CanonicalKey \<longrightarrow> distinct (map (CanonicalKey \<circ> fst) hs) \<longrightarrow>
        (\<forall>(k, v) \<in> set hs. XHeaders_Get g k = v))"

lemma carries_received:
  assumes "distinct (map fst (rq_Query r))" and "CHR ''#'' \<notin> set (rq_URL r)"
    and "wq_url w = rq_URL (add_query ''&'' r)" and "wq_body w = b"
    and "wq_headers w = wire_headers N ((add_query ''&'' r)\<lparr>rq_Header := Some hs1\<rparr>)"
  shows "carries N r b hs1 (received w)"
proof -
  have "query_of (received w) key =
      Done (first_value (pairs_of (fst (ParseQuery (url_query (rq_URL r)))) key @ values_of (rq_Query r) key))" for key
    by (simp add: query_of_received assms(3) add_query_no_fragment assms(2) pairs_of_add_query [OF assms(1)])
  moreover have "snd (Binary (NewXRequest (received w))) = (case b of None \<Rightarrow> [] | Some t \<Rightarrow> t)"
    by (simp add: Binary_def NewXRequest_def received_def assms(4) Let_def)
  moreover have "XHeaders_Get (received w) k = v"
    if "no_Canonical N = CanonicalKey" "distinct (map (CanonicalKey \<circ> fst) hs1)" "(k, v) \<in> set hs1" for k v
    using wire_headers_Header_Get [OF _ that, of "(add_query ''&'' r)\<lparr>rq_Header := Some hs1\<rparr>"]
    by (simp add: XHeaders_Get_def received_def assms(5))
  ultimately show ?thesis unfolding carries_def by auto
qed

section \<open>Properties\<close>


text \<open>
  Both clients put the query at the end of the URL, after a fragment if it has one, and so the server
  sees none of it: it finds in the request what the URL had before its fragment, and nothing else.
\<close>

theorem fragment_swallows_query:
  assumes "CHR ''#'' \<in> set (rq_URL r)" and "wq_url w = rq_URL (add_query sep r)"
  shows "query_of (received w) key
    = Done (first_value (pairs_of (fst (ParseQuery (url_query (fst (cut (CHR ''#'') (rq_URL r)))))) key))"
proof -
  have cut: "fst (cut (CHR ''#'') (u @ x)) = fst (cut (CHR ''#'') u)" if "CHR ''#'' \<in> set u" for u x
    using that by (induction u) (auto split: prod.splits)
  have "fst (cut (CHR ''#'') (rq_URL (add_query sep r))) = fst (cut (CHR ''#'') (rq_URL r))"
    using cut [OF assms(1)] by (simp add: add_query_def)
  then show ?thesis by (simp add: query_of_received assms(2))
qed

theorem fragment_swallows_query_witness:
  "query_of (received \<lparr>wq_method = ''GET'', wq_url = rq_URL (add_query ''&'' (sample_request\<lparr>rq_URL := ''/p#top''\<rparr>)),
     wq_headers = [], wq_body = None\<rparr>) ''b'' = Done []"
proof -
  have "fst (ParseQuery (url_query (fst (cut (CHR ''#'') ''/p#top'')))) = []" by code_simp
  with fragment_swallows_query [of "sample_request\<lparr>rq_URL := ''/p#top''\<rparr>"
      "\<lparr>wq_method = ''GET'', wq_url = rq_URL (add_query ''&'' (sample_request\<lparr>rq_URL := ''/p#top''\<rparr>)),
        wq_headers = [], wq_body = None\<rparr>" "''&''" "''b''"]
  show ?thesis by (simp add: pairs_of_def first_value_def)
qed

text \<open>A handler that joins the query value and the body.\<close>

definition greet :: "gin_request \<Rightarrow> string" where
  "greet g = (case query_of g ''name'' of Done v \<Rightarrow> v | _ \<Rightarrow> []) @ snd (Binary (NewXRequest g))"

definition greet_ops :: net_ops where
  "greet_ops = echo_ops\<lparr>no_Do := \<lambda>w. Inr (reply_text (greet (received w))), no_Canonical := CanonicalKey\<rparr>"

definition greet_request :: one_request where
  "greet_request = sample_request\<lparr>rq_URL := ''/hello'', rq_Query := [(''name'', [''a&b ''])], rq_Body := BStr ''!'',
     rq_MaxResBodySize := 0\<rparr>"


end
