(* ===== verification/Middleware_Stack.thy ===== *)
theory Middleware_Stack
  imports Governor "HOL-Library.Sublist"
begin

text \<open>
  The middlewares of package onegovernor (src/onegovernor/http.go, request.go) composed: what a service
  that is wrapped in any number of them, in any order, promises its clients and its metrics. The
  contract of a middleware is a locale, contracts compose, and a stack keeps the composed contract.
\<close>

section \<open>Stacks\<close>

text \<open>
  A middleware with its arguments; of \<open>Prom\<close> also the time the call takes, of \<open>Logger\<close> the id that
  \<open>uuid.NewString\<close> gives. The first of a stack is the outermost.
\<close>

datatype middleware =
    MRecover
  | MRequest
  | MProm "ignore list" int
  | MLogger "ignore list" string

fun wrap_in ::
  "(int \<Rightarrow> string) \<Rightarrow> (int \<Rightarrow> 'f) \<Rightarrow> 'f wrapper \<Rightarrow> middleware \<Rightarrow> 'f handler \<Rightarrow> 'f handler" where
  "wrap_in ToString ToFloat64 Wrap MRecover = Recover"
| "wrap_in ToString ToFloat64 Wrap MRequest = Request"
| "wrap_in ToString ToFloat64 Wrap (MProm ignores cost) = Prom ToString ToFloat64 cost Wrap ignores"
| "wrap_in ToString ToFloat64 Wrap (MLogger ignores new) = Logger new Wrap ignores"

fun stack ::
  "(int \<Rightarrow> string) \<Rightarrow> (int \<Rightarrow> 'f) \<Rightarrow> 'f wrapper \<Rightarrow> middleware list \<Rightarrow> 'f handler \<Rightarrow> 'f handler" where
  "stack ToString ToFloat64 Wrap [] = id"
| "stack ToString ToFloat64 Wrap (m # ms) =
     wrap_in ToString ToFloat64 Wrap m \<circ> stack ToString ToFloat64 Wrap ms"

text \<open>The request and the state with which a middleware calls the next handler.\<close>

fun enter :: "middleware \<Rightarrow> http_request \<times> 'f served \<Rightarrow> http_request \<times> 'f served" where
  "enter MRecover (r, s) = (r, s)"
| "enter MRequest (r, s) = (r\<lparr>hr_ctx := request_ctx r (sv_rbody s)\<rparr>, s\<lparr>sv_rbody := []\<rparr>)"
| "enter (MProm ignores cost) (r, s) =
     (if list_ex (\<lambda>ignore. ignore (sv_w s) r) ignores then (r, s)
      else (r, started (handler_name (hr_Path r) (hr_Method r)) s))"
| "enter (MLogger ignores new) (r, s) =
     (let x = Header_Get (hr_Header r) ''X-Request-ID'';
          rid = (if x = [] then new else x);
          ctx = WithValue (hr_ctx r) requestIdCtxKey (CtxStr rid)
      in (r\<lparr>hr_ctx := ctx\<lparr>cx_logger := log_Str (cx_logger ctx) ''requestId'' rid\<rparr>\<rparr>,
          s\<lparr>sv_w := set_rw_header ''X-Request-ID'' rid (sv_w s)\<rparr>))"

fun entry :: "middleware list \<Rightarrow> http_request \<times> 'f served \<Rightarrow> http_request \<times> 'f served" where
  "entry [] = id"
| "entry (m # ms) = entry ms \<circ> enter m"

text \<open>What becomes of a panic of the next handler.\<close>

fun carried :: "middleware list \<Rightarrow> panic_val option \<Rightarrow> panic_val option" where
  "carried [] p = p"
| "carried (MRecover # ms) p = (if carried ms p = Some ErrAbortHandler then Some ErrAbortHandler else None)"
| "carried (m # ms) p = carried ms p"

section \<open>What a handler promises\<close>

text \<open>
  A handler only adds: to the metrics, to the access log and to the body of the response, it does not
  change a status line that was sent, and it reads the request body from the front.
\<close>

abbreviation ready :: "'f served \<Rightarrow> bool" where
  "ready s \<equiv> pm_ready (sv_prom s)"

definition grows :: "'f served \<Rightarrow> 'f served \<Rightarrow> bool" where
  "grows s s' \<longleftrightarrow> (ready s \<longrightarrow> ready s') \<and> prefix (pm_samples (sv_prom s)) (pm_samples (sv_prom s')) \<and>
     prefix (sv_log s) (sv_log s') \<and> (rw_sent (sv_w s) \<noteq> None \<longrightarrow> rw_sent (sv_w s') = rw_sent (sv_w s)) \<and>
     prefix (rw_body (sv_w s)) (rw_body (sv_w s')) \<and> suffix (sv_rbody s') (sv_rbody s)"

definition behaved :: "'f handler \<Rightarrow> bool" where
  "behaved h \<longleftrightarrow> (\<forall>r s. ready s \<longrightarrow> grows s (fst (h r s)))"

text \<open>The requests that were counted as started and not as handled.\<close>

definition count_metric :: "string \<Rightarrow> 'f served \<Rightarrow> int" where
  "count_metric metric s = int (length (filter (\<lambda>x. fst x = metric) (pm_samples (sv_prom s))))"

definition unhandled :: "'f served \<Rightarrow> int" where
  "unhandled s = count_metric ''server_started_total'' s - count_metric ''server_handled_total'' s"

text \<open>
  On the way in a middleware changes of the request the context only, and nothing of the response
  but its header map. On the way out it leaves the response as the handler left it, except that a
  panic it does not pass on is answered with status 500 if nothing was sent.
\<close>

definition same_request :: "http_request \<Rightarrow> http_request \<Rightarrow> bool" where
  "same_request r r1 \<longleftrightarrow> r1\<lparr>hr_ctx := hr_ctx r\<rparr> = r"

definition same_response :: "'f served \<Rightarrow> 'f served \<Rightarrow> bool" where
  "same_response s s1 \<longleftrightarrow> rw_sent (sv_w s1) = rw_sent (sv_w s) \<and> rw_body (sv_w s1) = rw_body (sv_w s)"

definition left_as :: "panic_val option \<Rightarrow> panic_val option \<Rightarrow> 'f served \<Rightarrow> 'f served \<Rightarrow> bool" where
  "left_as p q s s' \<longleftrightarrow> grows s s' \<and> sv_w s' =
     (if p = q \<or> rw_sent (sv_w s) \<noteq> None then sv_w s
      else (sv_w s)\<lparr>rw_sent := Some (500, rw_header (sv_w s))\<rparr>)"

lemma grows_refl [simp]: "grows s s"
  by (simp add: grows_def)

lemma grows_trans [trans]: "grows s1 s2 \<Longrightarrow> grows s2 s3 \<Longrightarrow> grows s1 s3"
  unfolding grows_def by (metis prefix_order.trans suffix_order.trans)

lemma grows_ready: "grows s s' \<Longrightarrow> ready s \<Longrightarrow> ready s'"
  by (simp add: grows_def)

lemma behavedD: "behaved h \<Longrightarrow> ready s \<Longrightarrow> h r s = (s', p) \<Longrightarrow> grows s s' \<and> ready s'"
  unfolding behaved_def by (metis fst_conv grows_ready)

lemma same_request_refl [simp]: "same_request r r"
  by (simp add: same_request_def)

lemma same_request_trans: "same_request r r1 \<Longrightarrow> same_request r1 r2 \<Longrightarrow> same_request r r2"
  unfolding same_request_def by (cases r; cases r1; cases r2) simp

lemma same_response_refl [simp]: "same_response s s"
  by (simp add: same_response_def)

lemma left_as_refl [simp]: "left_as p p s s"
  by (simp add: left_as_def)

section \<open>The contract of a middleware\<close>

locale contract =
  fixes M :: "'f handler \<Rightarrow> 'f handler"
    and into :: "http_request \<times> 'f served \<Rightarrow> http_request \<times> 'f served"
    and out :: "panic_val option \<Rightarrow> panic_val option"
  assumes enters: "into (r, s) = (r1, s1) \<Longrightarrow> ready s \<Longrightarrow>
      grows s s1 \<and> same_request r r1 \<and> same_response s s1"
    and outs: "out p = p \<or> out p = None"
    and leaves: "into (r, s) = (r1, s1) \<Longrightarrow> ready s \<Longrightarrow> ready s2 \<Longrightarrow> h r1 s1 = (s2, p) \<Longrightarrow>
      \<exists>s3. M h r s = (s3, out p) \<and> left_as p (out p) s2 s3
        \<and> (p = None \<longrightarrow> unhandled s3 = unhandled s2 - (unhandled s1 - unhandled s))
        \<and> (out p \<noteq> None \<longrightarrow> unhandled s3 = unhandled s2)"
begin

lemma out_None [simp]: "out None = None"
  using outs [of None] by simp

lemma call:
  assumes "behaved h" and "ready s"
  obtains r1 s1 s2 p s3 where "into (r, s) = (r1, s1)" "h r1 s1 = (s2, p)" "ready s1" "ready s2"
    "M h r s = (s3, out p)" "left_as p (out p) s2 s3" "grows s s1" "grows s1 s2" "grows s2 s3"
proof -
  obtain r1 s1 where i: "into (r, s) = (r1, s1)" by fastforce
  obtain s2 p where h: "h r1 s1 = (s2, p)" by fastforce
  have 1: "grows s s1" "ready s1" using enters [OF i assms(2)] assms(2) grows_ready by auto
  have 2: "grows s1 s2" "ready s2" using behavedD [OF assms(1) 1(2) h] by auto
  obtain s3 where "M h r s = (s3, out p)" "left_as p (out p) s2 s3"
    using leaves [of r s r1 s1 s2 h p] i assms(2) 2(2) h by blast
  with that [of r1 s1 s2 p s3] i h 1 2 show thesis by (simp add: left_as_def)
qed

lemma keeps_behaved: "behaved h \<Longrightarrow> behaved (M h)"
  unfolding behaved_def [of "M h"] by (metis call fst_conv grows_trans)

end

lemma contract_id: "contract id id id"
  by unfold_locales auto

lemma left_as_trans:
  assumes "left_as p q s1 s2" and "left_as q q' s2 s3" and "q = p \<or> q = None" and "q' = q \<or> q' = None"
  shows "left_as p q' s1 s3"
  using assms grows_trans [of s1 s2 s3] unfolding left_as_def by (auto split: if_splits)

lemma contract_comp:
  fixes M1 M2 :: "'f handler \<Rightarrow> 'f handler"
  assumes "contract M1 into1 out1" and "contract M2 into2 out2"
  shows "contract (M1 \<circ> M2) (into2 \<circ> into1) (out1 \<circ> out2)"
proof
  fix r r2 and s s2 :: "'f served"
  assume i: "(into2 \<circ> into1) (r, s) = (r2, s2)" and s: "ready s"
  obtain r1 s1 where i1: "into1 (r, s) = (r1, s1)" by fastforce
  with i have i2: "into2 (r1, s1) = (r2, s2)" by simp
  have e1: "grows s s1" "same_request r r1" "same_response s s1" "ready s1"
    using contract.enters [OF assms(1) i1 s] s grows_ready by auto
  then show "grows s s2 \<and> same_request r r2 \<and> same_response s s2"
    using contract.enters [OF assms(2) i2 e1(4)]
    by (auto simp: same_response_def intro: grows_trans same_request_trans)
  fix s3 :: "'f served" and h :: "'f handler" and p :: "panic_val option"
  assume s3: "ready s3" and h: "h r2 s2 = (s3, p)"
  obtain s4 where s4: "M2 h r1 s1 = (s4, out2 p)" "left_as p (out2 p) s3 s4"
      "p = None \<longrightarrow> unhandled s4 = unhandled s3 - (unhandled s2 - unhandled s1)"
      "out2 p \<noteq> None \<longrightarrow> unhandled s4 = unhandled s3"
    using contract.leaves [where h = h, OF assms(2) i2 e1(4) s3 h] by blast
  have "ready s4" using s4(2) s3 grows_ready unfolding left_as_def by blast
  then obtain s5 where s5: "M1 (M2 h) r s = (s5, out1 (out2 p))" "left_as (out2 p) (out1 (out2 p)) s4 s5"
      "out2 p = None \<longrightarrow> unhandled s5 = unhandled s4 - (unhandled s1 - unhandled s)"
      "out1 (out2 p) \<noteq> None \<longrightarrow> unhandled s5 = unhandled s4"
    using contract.leaves [where h = "M2 h", OF assms(1) i1 s _ s4(1)] by auto
  have o: "out2 p = p \<or> out2 p = None" "out1 (out2 p) = out2 p \<or> out1 (out2 p) = None"
    using contract.outs [OF assms(2)] contract.outs [OF assms(1)] by auto
  have "left_as p (out1 (out2 p)) s3 s5" using left_as_trans [OF s4(2) s5(2) o] .
  with s4 s5 o show "\<exists>s'. (M1 \<circ> M2) h r s = (s', (out1 \<circ> out2) p) \<and> left_as p ((out1 \<circ> out2) p) s3 s'
      \<and> (p = None \<longrightarrow> unhandled s' = unhandled s3 - (unhandled s2 - unhandled s))
      \<and> ((out1 \<circ> out2) p \<noteq> None \<longrightarrow> unhandled s' = unhandled s3)"
    by (intro exI [of _ s5]) auto
next
  fix p
  show "(out1 \<circ> out2) p = p \<or> (out1 \<circ> out2) p = None"
    using contract.outs [OF assms(2), of p] contract.outs [OF assms(1), of p] contract.out_None [OF assms(1)]
    by auto
qed


subsection \<open>The middlewares keep it\<close>

lemma sent_500:
  "\<exists>s2. on_w (WriteHeader 500) s1 = (s2, None) \<and> left_as (Some v) None s1 s2 \<and> unhandled s2 = unhandled s1"
  by (simp add: on_w_def left_as_def grows_def unhandled_def count_metric_def)

interpretation recover: contract Recover "enter MRecover" "carried [MRecover]"
proof
  fix r r1 and s s1 :: "'f served"
  assume i: "enter MRecover (r, s) = (r1, s1)"
  then show "grows s s1 \<and> same_request r r1 \<and> same_response s s1" by simp
  fix s2 :: "'f served" and h :: "'f handler" and p :: "panic_val option"
  assume h: "h r1 s1 = (s2, p)"
  show "\<exists>s3. Recover h r s = (s3, carried [MRecover] p) \<and> left_as p (carried [MRecover] p) s2 s3
      \<and> (p = None \<longrightarrow> unhandled s3 = unhandled s2 - (unhandled s1 - unhandled s))
      \<and> (carried [MRecover] p \<noteq> None \<longrightarrow> unhandled s3 = unhandled s2)"
    using i h sent_500 [of s2] by (cases p) (auto simp: Recover_def)
qed auto

interpretation request: contract Request "enter MRequest" "carried [MRequest]"
proof
  fix r r1 and s s1 :: "'f served"
  assume i: "enter MRequest (r, s) = (r1, s1)"
  then show "grows s s1 \<and> same_request r r1 \<and> same_response s s1"
    by (auto simp: grows_def same_request_def same_response_def)
  fix s2 :: "'f served" and h :: "'f handler" and p :: "panic_val option"
  assume "h r1 s1 = (s2, p)"
  with i show "\<exists>s3. Request h r s = (s3, carried [MRequest] p) \<and> left_as p (carried [MRequest] p) s2 s3
      \<and> (p = None \<longrightarrow> unhandled s3 = unhandled s2 - (unhandled s1 - unhandled s))
      \<and> (carried [MRequest] p \<noteq> None \<longrightarrow> unhandled s3 = unhandled s2)"
    by (auto simp: Request_def unhandled_def count_metric_def)
qed auto

text \<open>\<open>Prom\<close> and \<open>Logger\<close> keep it over a wrapper that does what chi documents.\<close>

lemma started_more:
  "grows s (started n s)" "same_response s (started n s)" "unhandled (started n s) = unhandled s + 1"
  by (simp_all add: grows_def same_response_def started_def unhandled_def count_metric_def started_sample_def)

definition handled :: "(int \<Rightarrow> string) \<Rightarrow> (int \<Rightarrow> 'f) \<Rightarrow> string \<Rightarrow> int \<Rightarrow> int \<Rightarrow> 'f served \<Rightarrow> 'f served" where
  "handled ToString ToFloat64 n st cost s = s\<lparr>sv_prom := (sv_prom s)\<lparr>pm_samples :=
     pm_samples (sv_prom s) @ handled_samples ToString ToFloat64 (sv_prom s) n st cost\<rparr>\<rparr>"

lemma handled_more:
  "grows s (handled ToString ToFloat64 n st cost s)" "sv_w (handled ToString ToFloat64 n st cost s) = sv_w s"
  "unhandled (handled ToString ToFloat64 n st cost s) = unhandled s - 1"
  by (simp_all add: grows_def handled_def unhandled_def count_metric_def handled_samples_def)

lemma Prom_counted:
  assumes "wrap_law Wrap" and "ready s" and "ready s2" and "n = handler_name (hr_Path r) (hr_Method r)"
    and "\<not> list_ex (\<lambda>ignore. ignore (sv_w s) r) ignores" and "h r (started n s) = (s2, p)"
  shows "\<exists>st. Prom ToString ToFloat64 cost Wrap ignores h r s =
     (if p = None then handled ToString ToFloat64 n st cost s2 else s2, p)"
proof -
  obtain st sz where w: "Wrap (hr_ProtoMajor r) h r (started n s) = ((s2, p), st, sz)"
    using wrap_lawE [OF assms(1), of "hr_ProtoMajor r" h r "started n s"] assms(6) by metis
  show ?thesis
    using assms(5) w on_prom_handled [OF assms(3), of ToString n st ToFloat64 cost]
    by (cases p) (auto simp: Prom_def on_prom_started [OF assms(2)] assms(4) [symmetric] and_then_def
        handled_def split: prod.splits)
qed

locale chi =
  fixes Wrap :: "'f wrapper"
  assumes wraps: "wrap_law Wrap"
begin

lemma prom_contract:
  "contract (Prom ToString ToFloat64 cost Wrap ignores) (enter (MProm ignores cost)) (carried [MProm ignores cost])"
proof
  fix r r1 and s s1 :: "'f served"
  assume i: "enter (MProm ignores cost) (r, s) = (r1, s1)" and s: "ready s"
  show "grows s s1 \<and> same_request r r1 \<and> same_response s s1"
    using i started_more by (auto split: if_splits)
  fix s2 :: "'f served" and h :: "'f handler" and p :: "panic_val option"
  assume s2: "ready s2" and h: "h r1 s1 = (s2, p)"
  let ?P = "Prom ToString ToFloat64 cost Wrap ignores h r s"
  show "\<exists>s3. ?P = (s3, carried [MProm ignores cost] p) \<and> left_as p (carried [MProm ignores cost] p) s2 s3
      \<and> (p = None \<longrightarrow> unhandled s3 = unhandled s2 - (unhandled s1 - unhandled s))
      \<and> (carried [MProm ignores cost] p \<noteq> None \<longrightarrow> unhandled s3 = unhandled s2)"
  proof (cases "list_ex (\<lambda>ignore. ignore (sv_w s) r) ignores")
    case True
    with i h show ?thesis by (simp add: Prom_def)
  next
    case False
    let ?n = "handler_name (hr_Path r) (hr_Method r)"
    have "r1 = r" "s1 = started ?n s" using False i by auto
    with Prom_counted [where h = h and p = p, OF wraps s s2 refl False] h obtain st
      where "?P = (if p = None then handled ToString ToFloat64 ?n st cost s2 else s2, p)" by blast
    with \<open>s1 = _\<close> show ?thesis by (auto simp: left_as_def handled_more started_more)
  qed
qed auto

lemma logger_contract:
  "contract (Logger new Wrap ignores) (enter (MLogger ignores new)) (carried [MLogger ignores new])"
proof
  fix r r1 and s s1 :: "'f served"
  assume i: "enter (MLogger ignores new) (r, s) = (r1, s1)"
  then show "grows s s1 \<and> same_request r r1 \<and> same_response s s1"
    by (auto simp: Let_def grows_def same_request_def same_response_def set_rw_header_def)
  fix s2 :: "'f served" and h :: "'f handler" and p :: "panic_val option"
  assume h: "h r1 s1 = (s2, p)"
  have u: "unhandled s1 = unhandled s"
    using i by (auto simp: Let_def unhandled_def count_metric_def)
  obtain st sz where w: "Wrap (hr_ProtoMajor r1) h r1 s1 = ((s2, p), st, sz)"
    using wrap_lawE [OF wraps, of "hr_ProtoMajor r1" h r1 s1] h by metis
  have "Logger new Wrap ignores h r s = (if list_ex (\<lambda>ignore. ignore (sv_w s1) r1) ignores then h r1 s1
         else and_then (s2, p) (\<lambda>s2. (s2\<lparr>sv_log := sv_log s2 @ [\<lparr>ac_status = st, ac_size = sz,
                  ac_method = hr_Method r1, ac_host = hr_Host r1, ac_path = hr_Path r1,
                  ac_query = hr_RawQuery r1, ac_ip = hr_RemoteAddr r1, ac_ua = UserAgent r1,
                  ac_refer = Referer r1\<rparr>]\<rparr>, None)))"
    using i w by (auto simp: Logger_def Let_def)
  with h u show "\<exists>s3. Logger new Wrap ignores h r s = (s3, carried [MLogger ignores new] p)
      \<and> left_as p (carried [MLogger ignores new] p) s2 s3
      \<and> (p = None \<longrightarrow> unhandled s3 = unhandled s2 - (unhandled s1 - unhandled s))
      \<and> (carried [MLogger ignores new] p \<noteq> None \<longrightarrow> unhandled s3 = unhandled s2)"
    by (cases p) (auto simp: and_then_def left_as_def grows_def unhandled_def count_metric_def)
qed auto

lemma middleware_contract: "contract (wrap_in ToString ToFloat64 Wrap m) (enter m) (carried [m])"
  by (cases m) (simp_all only: wrap_in.simps recover.contract_axioms request.contract_axioms
    prom_contract logger_contract)

lemma carried_Cons: "carried (m # ms) = carried [m] \<circ> carried ms"
  by (rule ext, cases m) auto

lemma stack_contract: "contract (stack ToString ToFloat64 Wrap ms) (entry ms) (carried ms)"
proof (induction ms)
  case Nil
  then show ?case using contract_id by (simp add: id_def)
next
  case (Cons m ms)
  show ?case
    unfolding stack.simps entry.simps carried_Cons [of m ms]
    by (rule contract_comp [OF middleware_contract Cons.IH])
qed

end

interpretation plain: chi plain_wrap
  by unfold_locales (rule wrap_law_plain)


section \<open>What a stack promises\<close>

lemma carried_eq: "carried ms p = (if MRecover \<in> set ms \<and> p \<noteq> Some ErrAbortHandler then None else p)"
proof (induction ms)
  case (Cons m ms)
  then show ?case by (cases m) auto
qed simp

lemma Logger_ctx_body [simp]:
  "RequestBody (cx\<lparr>cx_logger := l\<rparr>) = RequestBody cx"
  "RequestBody (WithValue cx requestIdCtxKey v) = RequestBody cx"
  by (simp_all add: RequestBody_def)

lemma request_ctx_body [simp]: "RequestBody (request_ctx r b) = b"
  by (simp add: RequestBody_def request_ctx_def Let_def)

text \<open>Where the handler finds the body of the request.\<close>

lemma entry_body:
  "entry ms (r, s) = (r1, s1) \<Longrightarrow>
     sv_rbody s1 = (if MRequest \<in> set ms then [] else sv_rbody s) \<and>
     RequestBody (hr_ctx r1) =
       (if MRequest \<notin> set ms then RequestBody (hr_ctx r)
        else if count_list ms MRequest = 1 then sv_rbody s else [])"
proof (induction ms arbitrary: r s)
  case (Cons m ms)
  obtain r' s' where m: "enter m (r, s) = (r', s')" by fastforce
  with Cons.prems have "entry ms (r', s') = (r1, s1)" by simp
  from Cons.IH [OF this] m show ?case
    by (cases m) (auto simp: Let_def started_def count_list_0_iff split: if_splits)
qed simp

text \<open>
  C32. A service behind any stack of the middlewares. The next handler is called with the request
  unchanged but for its context, nothing sent yet, and the body of the request, if \<open>Request\<close> is
  once in the stack, in the context and no more to be read; with \<open>Request\<close> twice the body is lost.
  No middleware panics by itself. The response is the handler's, and a panic that is not the abort
  of the response passes the stack if and only if \<open>Recover\<close> is not in it, wherever it stands; the
  answer is then status 500, with the headers as they are, unless a status was sent.\<close>

theorem service_stack_safe:
  assumes "wrap_law Wrap" and "behaved h" and "pm_ready (sv_prom s)"
    and "entry ms (r, s) = (r1, s1)" and "h r1 s1 = (s2, p)"
  shows "\<exists>s3. stack ToString ToFloat64 Wrap ms h r s
           = (s3, if MRecover \<in> set ms \<and> p \<noteq> Some ErrAbortHandler then None else p)
     \<and> sv_w s3 = (if MRecover \<in> set ms \<and> p \<notin> {None, Some ErrAbortHandler} \<and> rw_sent (sv_w s2) = None
          then (sv_w s2)\<lparr>rw_sent := Some (500, rw_header (sv_w s2))\<rparr> else sv_w s2)
     \<and> grows s s1 \<and> grows s1 s2 \<and> grows s2 s3
     \<and> same_request r r1 \<and> same_response s s1
     \<and> sv_rbody s1 = (if MRequest \<in> set ms then [] else sv_rbody s)
     \<and> RequestBody (hr_ctx r1) =
         (if MRequest \<notin> set ms then RequestBody (hr_ctx r)
          else if count_list ms MRequest = 1 then sv_rbody s else [])"
proof -
  note c = chi.stack_contract [OF chi.intro [OF assms(1)], of ToString ToFloat64 ms]
  have 1: "grows s s1" "same_request r r1" "same_response s s1" "ready s1"
    using contract.enters [OF c assms(4) assms(3)] assms(3) grows_ready by auto
  have 2: "grows s1 s2" "ready s2" using behavedD [OF assms(2) 1(4) assms(5)] by auto
  obtain s3 where "stack ToString ToFloat64 Wrap ms h r s = (s3, carried ms p)"
      "left_as p (carried ms p) s2 s3"
    using contract.leaves [where h = h, OF c assms(4) assms(3) 2(2) assms(5)] by auto
  with 1 2 entry_body [OF assms(4)] show ?thesis
    by (intro exI [of _ s3]) (auto simp: carried_eq left_as_def)
qed

lemma behaved_echo: "behaved echo_handler"
  by (simp add: behaved_def echo_handler_def on_w_def Write_def WriteHeader_def grows_def
      split: option.splits)

text \<open>A handler that reads the body from the context and then panics.\<close>

definition failing_handler :: "nat handler" where
  "failing_handler r s = (s, Some (PanicOther (RequestBody (hr_ctx r))))"

lemma behaved_failing: "behaved failing_handler"
  by (simp add: behaved_def failing_handler_def)

definition sample_stack :: "middleware list" where
  "sample_stack = [MLogger [] ''u-1'', MRecover, MProm [] 1, MRequest]"

lemma sample_ready: "pm_ready (sv_prom sample_served)"
  by (simp add: sample_served_def prom_Init_def prom_zero_def)

theorem service_stack_safe_witness:
  "\<exists>s3. stack (\<lambda>n. ''500'') nat plain_wrap sample_stack failing_handler sample_http sample_served = (s3, None)
     \<and> rw_sent (sv_w s3) = Some (500, [(''X-Request-Id'', ''u-1'')])
     \<and> failing_handler (fst (entry sample_stack (sample_http, sample_served)))
         (snd (entry sample_stack (sample_http, sample_served)))
       = (snd (entry sample_stack (sample_http, sample_served)), Some (PanicOther ''body''))"
proof -
  obtain r1 s1 where e: "entry sample_stack (sample_http, sample_served) = (r1, s1)" by fastforce
  obtain s2 p where f: "failing_handler r1 s1 = (s2, p)" by fastforce
  have p: "s2 = s1" "p = Some (PanicOther (RequestBody (hr_ctx r1)))" using f by (auto simp: failing_handler_def)
  have h: "rw_header (sv_w (snd (entry sample_stack (sample_http, sample_served)))) = [(''X-Request-Id'', ''u-1'')]"
    by code_simp
  from service_stack_safe [where h = failing_handler, OF wrap_law_plain behaved_failing sample_ready e f,
      of "\<lambda>n. ''500''" nat] p h e f
  show ?thesis
    by (auto simp: same_response_def sample_stack_def sample_served_def fresh_rw_def)
qed


section \<open>The metrics of a stack\<close>

text \<open>A handler that leaves the two counters of requests alone.\<close>

definition uncounted :: "'f handler \<Rightarrow> bool" where
  "uncounted h \<longleftrightarrow> (\<forall>r s. unhandled (fst (h r s)) = unhandled s)"

definition proms :: "middleware list \<Rightarrow> nat" where
  "proms ms = length (filter (\<lambda>m. case m of MProm _ _ \<Rightarrow> True | _ \<Rightarrow> False) ms)"

definition ignores_nothing :: "middleware list \<Rightarrow> bool" where
  "ignores_nothing ms = list_all (\<lambda>m. case m of MProm ignores _ \<Rightarrow> ignores = [] | _ \<Rightarrow> True) ms"

lemma entry_append: "entry (ms1 @ ms2) = entry ms2 \<circ> entry ms1"
  by (induction ms1) auto

lemma stack_append: "stack ToString ToFloat64 Wrap (ms1 @ ms2)
   = stack ToString ToFloat64 Wrap ms1 \<circ> stack ToString ToFloat64 Wrap ms2"
  by (induction ms1) auto

lemma entry_counts:
  "entry ms (r, s) = (r1, s1) \<Longrightarrow> unhandled s \<le> unhandled s1 \<and> unhandled s1 \<le> unhandled s + int (proms ms)
     \<and> (ignores_nothing ms \<longrightarrow> unhandled s1 = unhandled s + int (proms ms))"
proof (induction ms arbitrary: r s)
  case (Cons m ms)
  obtain r' s' where m: "enter m (r, s) = (r', s')" by fastforce
  with Cons.prems have "entry ms (r', s') = (r1, s1)" by simp
  from Cons.IH [OF this] m show ?case
  proof (cases m)
    case (MProm ignores cost)
    with m Cons.IH [OF \<open>entry ms (r', s') = (r1, s1)\<close>] show ?thesis
      by (auto simp: proms_def ignores_nothing_def started_more split: if_splits)
  qed (auto simp: proms_def ignores_nothing_def unhandled_def count_metric_def Let_def)
qed (simp add: proms_def ignores_nothing_def)

text \<open>
  \<open>outer\<close> is the part of the stack up to its innermost \<open>Recover\<close>, empty if there is none; a panic
  reaches the middlewares of \<open>inner\<close>.
\<close>

lemma recovered_balance:
  assumes "chi Wrap" and "behaved g" and "pm_ready (sv_prom s)"
    and "entry outer (r, s) = (r0, s0)" and "g r0 s0 = (s2, p)" and "p = None \<or> outer \<noteq> [] \<and> last outer = MRecover"
    and "p \<noteq> Some ErrAbortHandler"
  shows "unhandled (fst (stack ToString ToFloat64 Wrap outer g r s)) = unhandled s2 - (unhandled s0 - unhandled s)"
proof -
  have balance: "unhandled (fst (stack ToString ToFloat64 Wrap ms g' r s)) = unhandled s' - (unhandled s0 - unhandled s)"
    if "behaved g'" and "g' r0 s0 = (s', None)" and "entry ms (r, s) = (r0, s0)" for g' s' ms
  proof -
    note c = chi.stack_contract [OF assms(1), of ToString ToFloat64 ms]
    have "ready s0" using contract.enters [OF c that(3) assms(3)] assms(3) grows_ready by auto
    then have "ready s'" using behavedD [OF that(1) _ that(2)] by simp
    then show ?thesis using contract.leaves [where h = g', OF c that(3) assms(3) _ that(2)] by auto
  qed
  show ?thesis
  proof (cases p)
    case None
    with balance [OF assms(2) _ assms(4)] assms(5) show ?thesis by simp
  next
    case (Some v)
    then obtain ms where ms: "outer = ms @ [MRecover]"
      using assms(6) by (metis append_butlast_last_id option.distinct(1))
    obtain s3 where "Recover g r0 s0 = (s3, None)" "unhandled s3 = unhandled s2"
      using assms(5,7) Some sent_500 [of s2] by (auto simp: Recover_def)
    moreover have "entry ms (r, s) = (r0, s0)" using assms(4) by (cases "entry ms (r, s)") (simp add: ms entry_append)
    ultimately show ?thesis
      using balance [OF recover.keeps_behaved [OF assms(2)]] by (simp add: ms stack_append)
  qed
qed

text \<open>
  C33. The metrics of a service behind a stack, whose handler does not count requests itself. A request
  that the handler answers is counted as often as handled as it is as started. One whose handler
  panics stays counted as started in every \<open>Prom\<close> between the innermost \<open>Recover\<close> and the handler
  that did not ignore it, in all of them if there is no \<open>Recover\<close> or if the panic aborts the
  response: so the two counters agree at rest only if \<open>Recover\<close> is inside every \<open>Prom\<close>.\<close>

theorem service_stack_accounts:
  assumes "wrap_law Wrap" and "behaved h" and "uncounted h" and "pm_ready (sv_prom s)"
    and "outer = [] \<or> last outer = MRecover" and "MRecover \<notin> set inner"
    and "entry outer (r, s) = (r0, s0)" and "entry inner (r0, s0) = (r1, s1)" and "h r1 s1 = (s2, p)"
  shows "unhandled (fst (stack ToString ToFloat64 Wrap (outer @ inner) h r s))
     = unhandled s + (case p of None \<Rightarrow> 0
         | Some v \<Rightarrow> if v = ErrAbortHandler then unhandled s1 - unhandled s else unhandled s1 - unhandled s0)
     \<and> unhandled s0 \<le> unhandled s1 \<and> unhandled s1 \<le> unhandled s0 + int (proms inner)
     \<and> (ignores_nothing inner \<longrightarrow> unhandled s1 = unhandled s0 + int (proms inner))"
proof -
  note counts = entry_counts [OF assms(8)]
  have u: "unhandled s2 = unhandled s1" using assms(3,9) unfolding uncounted_def by (metis fst_conv)
  have chi: "chi Wrap" using assms(1) by (rule chi.intro)
  note ci = chi.stack_contract [OF chi, of ToString ToFloat64 inner]
  note co = chi.stack_contract [OF chi, of ToString ToFloat64 outer]
  have s0: "ready s0" using contract.enters [OF co assms(7) assms(4)] assms(4) grows_ready by auto
  have s1: "ready s1" using contract.enters [OF ci assms(8) s0] s0 grows_ready by auto
  have s2: "ready s2" using behavedD [OF assms(2) s1 assms(9)] by simp
  let ?g = "stack ToString ToFloat64 Wrap inner h"
  have g: "behaved ?g" by (rule contract.keeps_behaved [OF ci assms(2)])
  obtain s3 where s3: "?g r0 s0 = (s3, p)" "p = None \<longrightarrow> unhandled s3 = unhandled s2 - (unhandled s1 - unhandled s0)"
      "p \<noteq> None \<longrightarrow> unhandled s3 = unhandled s2"
    using contract.leaves [where h = h, OF ci assms(8) s0 s2 assms(9)] assms(6) by (auto simp: carried_eq)
  have "ready s3" using behavedD [OF g s0 s3(1)] by simp
  have "unhandled (fst (stack ToString ToFloat64 Wrap (outer @ inner) h r s))
     = unhandled s + (case p of None \<Rightarrow> 0
         | Some v \<Rightarrow> if v = ErrAbortHandler then unhandled s1 - unhandled s else unhandled s1 - unhandled s0)"
  proof (cases "p = Some ErrAbortHandler \<or> outer = []")
    case True
    then show ?thesis
    proof (cases "outer = []")
      case True
      with assms(7) s3 u show ?thesis by (cases p) (auto simp: stack_append)
    next
      case False
      with True have "p = Some ErrAbortHandler" by simp
      with contract.leaves [where h = ?g, OF co assms(7) assms(4) \<open>ready s3\<close> s3(1)] s3(3) u show ?thesis
        by (auto simp: stack_append carried_eq)
    qed
  next
    case False
    with recovered_balance [OF chi g assms(4,7) s3(1)] assms(5) s3 u show ?thesis
      by (cases p) (auto simp: stack_append)
  qed
  with counts show ?thesis by blast
qed

definition outside_stack :: "middleware list" where
  "outside_stack = [MProm [] 1, MRecover, MProm [] 2, MLogger [] ''u-1'', MProm [\<lambda>w r. True] 3]"

theorem service_stack_accounts_witness:
  "unhandled (fst (stack (\<lambda>n. ''500'') nat plain_wrap outside_stack failing_handler sample_http sample_served)) = 1"
proof -
  let ?o = "[MProm [] 1, MRecover] :: middleware list"
  let ?i = "[MProm [] 2, MLogger [] ''u-1'', MProm [\<lambda>w r. True] 3] :: middleware list"
  obtain r0 s0 where o: "entry ?o (sample_http, sample_served) = (r0, s0)" by fastforce
  obtain r1 s1 where i: "entry ?i (r0, s0) = (r1, s1)" by fastforce
  obtain s2 p where f: "failing_handler r1 s1 = (s2, p)" by fastforce
  have p: "p = Some (PanicOther (RequestBody (hr_ctx r1)))" using f by (auto simp: failing_handler_def)
  have l: "?o = [] \<or> last ?o = MRecover" "MRecover \<notin> set ?i" by simp_all
  have u: "uncounted failing_handler" by (simp add: uncounted_def failing_handler_def)
  have 0: "unhandled sample_served = 0" by code_simp
  have 1: "unhandled s1 = unhandled s0 + 1"
    using i by (auto simp: Let_def started_more unhandled_def [of "x\<lparr>sv_w := y\<rparr>" for x y]
        count_metric_def [of _ "x\<lparr>sv_w := y\<rparr>" for x y] simp flip: unhandled_def count_metric_def)
  from service_stack_accounts [where h = failing_handler, OF wrap_law_plain behaved_failing u sample_ready l o i f,
      of "\<lambda>n. ''500''" nat] p 0 1
  show ?thesis by (simp add: outside_stack_def)
qed

end
