(* ===== verification/Sql_Builder.thy ===== *)
theory Sql_Builder
  imports Go_Url "HOL-Library.AList"
begin

text \<open>
  The statement builder of package onesql (src/onesql/builder.go). Squirrel, which turns the
  calls made on its builders into SQL, and the tables of operators of sqlutils are arguments;
  a builder is the list of the calls made on it.
\<close>

section \<open>Values and maps\<close>

text \<open>What an \<open>interface{}\<close> of a condition or of a row can hold.\<close>

datatype sqlval =
    SNil | SUints "nat list" | SStr string | SInt int | SBytes string | SMap "(string \<times> nat) list"
  | SOther nat

text \<open>A map, as an association list in the order in which a range over it goes.\<close>

type_synonym sql_map = "(string \<times> sqlval) list"

text \<open>Query, arguments and error, as \<open>ToSql\<close> returns them.\<close>

type_synonym query_result = "string \<times> sqlval list \<times> string option"

section \<open>The libraries\<close>

datatype 'c sel_call =
    Limit nat | Offset nat | OrderByClause string | Having string | GroupBy string | Where 'c

datatype ins_call = Columns "string list" | Values "sqlval list" | SetMap sql_map | Suffix string "sqlval list"

datatype verb = INSERT | REPLACE

record 'c squirrel =
  sq_Select :: "string \<Rightarrow> string \<Rightarrow> 'c sel_call list \<Rightarrow> query_result"
  sq_Update :: "string \<Rightarrow> sql_map \<Rightarrow> sql_map \<Rightarrow> query_result"
  sq_Delete :: "string \<Rightarrow> string \<Rightarrow> sql_map \<Rightarrow> query_result"
  sq_Insert :: "verb \<Rightarrow> string \<Rightarrow> ins_call list \<Rightarrow> query_result"

text \<open>
  Of sqlutils: the copy of a map (in the order of the second range), the split of a key into
  field, operator and error, the error for an unknown operator, the known operators, and the constructor of each operator.
\<close>

record 'c sqlutils =
  su_CopyWhere :: "sql_map \<Rightarrow> sql_map"
  su_SplitKey :: "string \<Rightarrow> string \<times> string \<times> string option"
  su_ErrUnsupportedOperator :: string
  su_OpOrder :: "string list"
  su_OpOp :: "string \<Rightarrow> (string \<Rightarrow> sqlval \<Rightarrow> string + 'c) option"

section \<open>Selecting\<close>

text \<open>
  The clauses of the special keys. The result is the error that ends the loop, or the calls and
  what is left of the copy.
\<close>

fun select_clauses ::
  "sql_map \<Rightarrow> 'c sel_call list \<Rightarrow> sql_map \<Rightarrow> (string + 'c sel_call list \<times> sql_map) outcome" where
  "select_clauses [] sel copied = Done (Inr (sel, copied))"
| "select_clauses ((k, v) # kvs) sel copied =
     (if k = ''_limit'' then
        (case v of
           SUints [n] \<Rightarrow> select_clauses kvs (sel @ [Limit n]) (AList.delete ''_limit'' copied)
         | SUints [m, n] \<Rightarrow> select_clauses kvs (sel @ [Limit n, Offset m]) (AList.delete ''_limit'' copied)
         | SUints _ \<Rightarrow> Done (Inl ''invalid limit'')
         | _ \<Rightarrow> Panic ''interface conversion: interface {} is not []uint'')
      else if k = ''_orderby'' then
        (case v of
           SStr s \<Rightarrow> select_clauses kvs (sel @ [OrderByClause s]) (AList.delete ''_orderby'' copied)
         | _ \<Rightarrow> Panic ''interface conversion: interface {} is not string'')
      else if k = ''_having'' then
        (case v of
           SStr s \<Rightarrow> select_clauses kvs (sel @ [Having s]) (AList.delete ''_having'' copied)
         | _ \<Rightarrow> Panic ''interface conversion: interface {} is not string'')
      else if k = ''_groupby'' then
        (case v of
           SStr s \<Rightarrow> select_clauses kvs (sel @ [GroupBy s]) (AList.delete ''_groupby'' copied)
         | _ \<Rightarrow> Panic ''interface conversion: interface {} is not string'')
      else select_clauses kvs sel copied)"

text \<open>The conditions. An unknown operator is reported before an error of the split.\<close>

fun formatWhere ::
  "'c sqlutils \<Rightarrow> sql_map \<Rightarrow> 'c sel_call list \<Rightarrow> (string + 'c sel_call list) outcome" where
  "formatWhere U [] sel = Done (Inr sel)"
| "formatWhere U ((k, v) # kvs) sel =
     (let (field, operator, err) = su_SplitKey U k
      in if operator \<notin> set (su_OpOrder U) then Done (Inl (su_ErrUnsupportedOperator U))
         else case err of
           Some e \<Rightarrow> Done (Inl e)
         | None \<Rightarrow>
             (case su_OpOp U operator of
                None \<Rightarrow> Panic ''invalid memory address or nil pointer dereference''
              | Some mk \<Rightarrow>
                  (case mk field v of
                     Inl e \<Rightarrow> Done (Inl e)
                   | Inr op \<Rightarrow> formatWhere U kvs (sel @ [Where op]))))"

definition select_field :: "string list \<Rightarrow> string" where
  "select_field selectedField = (if selectedField = [] then ''*'' else join '','' selectedField)"

definition buildSelect ::
  "'c squirrel \<Rightarrow> 'c sqlutils \<Rightarrow> string \<Rightarrow> sql_map \<Rightarrow> string list \<Rightarrow> query_result outcome" where
  "buildSelect Q U tableName conds selectedField =
     obind (select_clauses conds [] (su_CopyWhere U conds)) (\<lambda>r.
       case r of
         Inl e \<Rightarrow> Done ([], [], Some e)
       | Inr (sel, copied) \<Rightarrow>
           obind (formatWhere U copied sel) (\<lambda>r.
             case r of
               Inl e \<Rightarrow> Done ([], [], Some e)
             | Inr sel \<Rightarrow> Done (sq_Select Q (select_field selectedField) tableName sel)))"

definition BuildSelect ::
  "'c squirrel \<Rightarrow> 'c sqlutils \<Rightarrow> string \<Rightarrow> sql_map \<Rightarrow> string list \<Rightarrow> query_result outcome" where
  "BuildSelect Q U tableName conds selectedField = buildSelect Q U tableName conds selectedField"

definition BuildSelectWithContext ::
  "'c squirrel \<Rightarrow> 'c sqlutils \<Rightarrow> string \<Rightarrow> sql_map \<Rightarrow> string list \<Rightarrow> query_result outcome" where
  "BuildSelectWithContext Q U tableName conds selectedField =
     buildSelect Q U tableName conds selectedField"

section \<open>Changing\<close>

definition BuildUpdate :: "'c squirrel \<Rightarrow> string \<Rightarrow> sql_map \<Rightarrow> sql_map \<Rightarrow> query_result" where
  "BuildUpdate Q tableName conds update = sq_Update Q tableName update conds"

definition BuildDelete :: "'c squirrel \<Rightarrow> string \<Rightarrow> sql_map \<Rightarrow> query_result" where
  "BuildDelete Q tableName conds = sq_Delete Q [] tableName conds"

definition BuildUpsert :: "'c squirrel \<Rightarrow> string \<Rightarrow> sql_map \<Rightarrow> query_result" where
  "BuildUpsert Q tableName data =
     (let onUpCols = map (\<lambda>(k, v). k @ ''=?'') data;
          onUpArgs = map snd data
      in sq_Insert Q INSERT tableName
           [SetMap data, Suffix ''ON DUPLICATE KEY UPDATE'' [], Suffix (join '', '' onUpCols) onUpArgs])"

text \<open>The columns are those of the first row that has any; a row lists its values in that order.\<close>

definition row_values :: "string list \<Rightarrow> sql_map \<Rightarrow> sqlval list" where
  "row_values columns d = map (\<lambda>k. case map_of d k of Some v \<Rightarrow> v | None \<Rightarrow> SNil) columns"

fun insert_rows :: "string list \<Rightarrow> sqlval list list \<Rightarrow> sql_map list \<Rightarrow> string list \<times> sqlval list list" where
  "insert_rows columns values [] = (columns, values)"
| "insert_rows columns values (d # ds) =
     (if columns = [] then insert_rows (map fst d) (values @ [map snd d]) ds
      else insert_rows columns (values @ [row_values columns d]) ds)"

definition insert_calls :: "sql_map list \<Rightarrow> ins_call list" where
  "insert_calls data =
     (let (columns, values) = insert_rows [] [] data in Columns columns # map Values values)"

definition buildInsert :: "'c squirrel \<Rightarrow> verb \<Rightarrow> string \<Rightarrow> sql_map list \<Rightarrow> query_result" where
  "buildInsert Q vb tableName data = sq_Insert Q vb tableName (insert_calls data)"

definition BuildInsert :: "'c squirrel \<Rightarrow> string \<Rightarrow> sql_map list \<Rightarrow> query_result" where
  "BuildInsert Q tableName data = buildInsert Q INSERT tableName data"

definition BuildInsertIgnore :: "'c squirrel \<Rightarrow> string \<Rightarrow> sql_map list \<Rightarrow> query_result" where
  "BuildInsertIgnore Q tableName data =
     (let (query, args, _) = buildInsert Q INSERT tableName data in (query, args, None))"

definition BuildReplaceIgnore :: "'c squirrel \<Rightarrow> string \<Rightarrow> sql_map list \<Rightarrow> query_result" where
  "BuildReplaceIgnore Q tableName data =
     (let (query, args, _) = buildInsert Q REPLACE tableName data in (query, args, None))"

definition AggregateQuery :: "string + unit" where
  "AggregateQuery = Inl ''not implemented''"

section \<open>Lemmas\<close>

definition special_keys :: "string list" where
  "special_keys = [''_limit'', ''_orderby'', ''_having'', ''_groupby'']"

text \<open>The calls that a special key stands for, if its value has the right type and form.\<close>

definition clause_of :: "string \<Rightarrow> sqlval \<Rightarrow> 'c sel_call list option" where
  "clause_of k v =
     (case v of
        SUints [n] \<Rightarrow> if k = ''_limit'' then Some [Limit n] else None
      | SUints [m, n] \<Rightarrow> if k = ''_limit'' then Some [Limit n, Offset m] else None
      | SStr s \<Rightarrow>
          if k = ''_orderby'' then Some [OrderByClause s]
          else if k = ''_having'' then Some [Having s]
          else if k = ''_groupby'' then Some [GroupBy s] else None
      | _ \<Rightarrow> None)"

text \<open>The condition that any other key stands for.\<close>

definition cond_of :: "'c sqlutils \<Rightarrow> string \<Rightarrow> sqlval \<Rightarrow> 'c option" where
  "cond_of U k v =
     (case su_SplitKey U k of
        (field, operator, None) \<Rightarrow>
          if operator \<in> set (su_OpOrder U) then
            (case su_OpOp U operator of
               Some mk \<Rightarrow> (case mk field v of Inr c \<Rightarrow> Some c | Inl e \<Rightarrow> None)
             | None \<Rightarrow> None)
          else None
      | _ \<Rightarrow> None)"

definition good_entry :: "'c sqlutils \<Rightarrow> string \<times> sqlval \<Rightarrow> bool" where
  "good_entry U kv =
     (if fst kv \<in> set special_keys then clause_of (fst kv) (snd kv) \<noteq> (None :: 'c sel_call list option)
      else cond_of U (fst kv) (snd kv) \<noteq> None)"

definition clauses_of :: "sql_map \<Rightarrow> 'c sel_call list" where
  "clauses_of w = concat (map (\<lambda>(k, v). the (clause_of k v)) (filter (\<lambda>kv. fst kv \<in> set special_keys) w))"

definition conds_of :: "'c sqlutils \<Rightarrow> sql_map \<Rightarrow> 'c list" where
  "conds_of U w = map (\<lambda>(k, v). the (cond_of U k v)) (filter (\<lambda>kv. fst kv \<notin> set special_keys) w)"

definition drop_keys :: "string set \<Rightarrow> sql_map \<Rightarrow> sql_map" where
  "drop_keys K w = filter (\<lambda>kv. fst kv \<notin> K) w"

lemma drop_keys_delete: "drop_keys K (AList.delete k w) = drop_keys (insert k K) w"
  by (simp add: drop_keys_def AList.delete_eq case_prod_beta) (rule filter_cong, auto)

lemma select_clauses_step:
  assumes "k \<in> set special_keys" and "clause_of k v = Some (cs :: 'c sel_call list)"
  shows "select_clauses ((k, v) # kvs) sel copied = select_clauses kvs (sel @ cs) (AList.delete k copied)"
  using assms
  by (auto simp: special_keys_def clause_of_def split: sqlval.splits list.splits if_splits)

lemma select_clauses_skip:
  "k \<notin> set special_keys \<Longrightarrow> select_clauses ((k, v) # kvs) sel copied = select_clauses kvs sel copied"
  by (simp add: special_keys_def)

lemma select_clauses_bad:
  assumes "k \<in> set special_keys" and "clause_of k v = (None :: 'c sel_call list option)"
    and "select_clauses ((k, v) # kvs) sel copied = Done (x :: string + 'c sel_call list \<times> sql_map)"
  shows "\<exists>e. x = Inl e"
  using assms
  by (auto simp: special_keys_def clause_of_def split: sqlval.splits list.splits if_splits)

lemma select_clauses_good:
  fixes U :: "'c sqlutils" and sel :: "'c sel_call list"
  assumes "\<forall>kv \<in> set w. good_entry U kv"
  shows "select_clauses w sel copied
     = Done (Inr (sel @ clauses_of w, drop_keys (fst ` set w \<inter> set special_keys) copied))"
  using assms
proof (induction w arbitrary: sel copied)
  case Nil
  then show ?case by (simp add: clauses_of_def drop_keys_def)
next
  case (Cons kv w)
  obtain k v where kv: "kv = (k, v)" by (cases kv)
  show ?case
  proof (cases "k \<in> set special_keys")
    case True
    with Cons.prems kv obtain cs where cs: "clause_of k v = Some (cs :: 'c sel_call list)"
      by (auto simp: good_entry_def)
    have "clauses_of (kv # w) = cs @ clauses_of w" using True cs kv by (simp add: clauses_of_def)
    with Cons True show ?thesis
      by (simp add: kv select_clauses_step [OF True cs] drop_keys_delete del: select_clauses.simps)
  next
    case False
    then have "clauses_of (kv # w) = (clauses_of w :: 'c sel_call list)" using kv by (simp add: clauses_of_def)
    with Cons False show ?thesis
      by (simp add: kv select_clauses_skip [OF False] del: select_clauses.simps)
  qed
qed

lemma formatWhere_step:
  assumes "cond_of U k v = Some c"
  shows "formatWhere U ((k, v) # kvs) sel = formatWhere U kvs (sel @ [Where c])"
  using assms by (auto simp: cond_of_def split: prod.splits option.splits sum.splits if_splits)

lemma formatWhere_good:
  "\<forall>(k, v) \<in> set w. cond_of U k v \<noteq> None \<Longrightarrow>
     formatWhere U w sel = Done (Inr (sel @ map (\<lambda>(k, v). Where (the (cond_of U k v))) w))"
proof (induction w arbitrary: sel)
  case (Cons kv w)
  obtain k v c where kv: "kv = (k, v)" "cond_of U k v = Some c" using Cons.prems by (cases kv) auto
  with Cons show ?case by (simp add: formatWhere_step del: formatWhere.simps(2))
qed simp

lemma formatWhere_bad:
  "(k, v) \<in> set w \<Longrightarrow> cond_of U k v = None \<Longrightarrow> formatWhere U w sel = Done x \<Longrightarrow> \<exists>e. x = Inl e"
proof (induction w arbitrary: sel)
  case (Cons kv w)
  obtain j u where kv: "kv = (j, u)" by (cases kv)
  show ?case
  proof (cases "cond_of U j u")
    case None
    with Cons.prems(3) kv show ?thesis
      by (auto simp: cond_of_def split: prod.splits option.splits sum.splits if_splits)
  next
    case (Some c)
    with Cons kv show ?thesis by (auto simp: formatWhere_step simp del: formatWhere.simps(2))
  qed
qed simp

lemma select_clauses_rest:
  fixes sel :: "'c sel_call list"
  shows "select_clauses w sel copied = Done (Inr (sel1, rest)) \<Longrightarrow>
     rest = drop_keys (fst ` set w \<inter> set special_keys) copied
     \<and> (\<forall>(k, v) \<in> set w. k \<in> set special_keys \<longrightarrow> clause_of k v \<noteq> (None :: 'c sel_call list option))"
proof (induction w arbitrary: sel copied)
  case (Cons kv w)
  obtain k v where kv: "kv = (k, v)" by (cases kv)
  show ?case
  proof (cases "k \<in> set special_keys")
    case True
    with Cons.prems kv obtain cs where cs: "clause_of k v = Some (cs :: 'c sel_call list)"
      using select_clauses_bad [OF True] by fastforce
    with Cons.IH [of "sel @ cs" "AList.delete k copied"] Cons.prems kv True show ?thesis
      by (simp add: select_clauses_step drop_keys_delete del: select_clauses.simps)
  next
    case False
    with Cons.IH Cons.prems kv show ?thesis
      by (simp add: select_clauses_skip [OF False] del: select_clauses.simps)
  qed
qed (simp add: drop_keys_def)

text \<open>The copy that sqlutils makes has the entries of the map, in some order.\<close>

definition copies :: "'c sqlutils \<Rightarrow> bool" where
  "copies U \<longleftrightarrow> (\<forall>w. mset (su_CopyWhere U w) = mset w)"

lemma drop_keys_copy:
  assumes "copies U"
  shows "drop_keys (fst ` set w \<inter> set special_keys) (su_CopyWhere U w)
     = filter (\<lambda>kv. fst kv \<notin> set special_keys) (su_CopyWhere U w)"
proof -
  have "set (su_CopyWhere U w) = set w" using assms by (metis copies_def set_mset_mset)
  then show ?thesis unfolding drop_keys_def by (intro filter_cong) auto
qed

lemma insert_rows_fixed:
  "cols \<noteq> [] \<Longrightarrow> insert_rows cols vals ds = (cols, vals @ map (row_values cols) ds)"
  by (induction ds arbitrary: vals) simp_all

lemma row_values_self: "distinct (map fst d) \<Longrightarrow> row_values (map fst d) d = map snd d"
  by (auto simp: row_values_def map_of_is_SomeI)

lemma buildSelect_good:
  fixes U :: "'c sqlutils"
  assumes "copies U" and "\<forall>kv \<in> set w. good_entry U kv"
  shows "\<exists>cs. mset cs = mset (conds_of U w) \<and>
     buildSelect Q U t w fs = Done (sq_Select Q (select_field fs) t (clauses_of w @ map Where cs))"
proof -
  let ?rest = "filter (\<lambda>kv. fst kv \<notin> set special_keys) (su_CopyWhere U w)"
  have m: "mset ?rest = mset (filter (\<lambda>kv. fst kv \<notin> set special_keys) w)"
    using assms(1) by (simp add: copies_def)
  have "set (su_CopyWhere U w) = set w" using assms(1) by (metis copies_def set_mset_mset)
  then have "\<forall>(k, v) \<in> set ?rest. cond_of U k v \<noteq> None"
    using assms(2) by (fastforce simp: good_entry_def)
  from formatWhere_good [OF this, of "clauses_of w"]
  have f: "formatWhere U ?rest (clauses_of w)
      = Done (Inr (clauses_of w @ map Where (conds_of U ?rest)))"
    by (simp add: conds_of_def case_prod_beta comp_def)
  have "mset (conds_of U ?rest) = mset (conds_of U w)"
    using m unfolding conds_of_def by simp
  moreover have "buildSelect Q U t w fs
      = Done (sq_Select Q (select_field fs) t (clauses_of w @ map Where (conds_of U ?rest)))"
    using f by (simp add: buildSelect_def select_clauses_good [OF assms(2)] drop_keys_copy [OF assms(1)])
  ultimately show ?thesis by blast
qed

section \<open>Properties\<close>

text \<open>
  C37. What a well-formed condition map selects. If every special key has a value of its type and
  every other key an operator that is known, the query is the one of the clauses of the special
  keys followed by one condition for each other key and nothing else: no special key becomes a
  condition, whatever the orders in which the two ranges over the maps go.\<close>

theorem build_select_clauses:
  fixes U :: "'c sqlutils"
  assumes "copies U" and "\<forall>kv \<in> set w. good_entry U kv"
  shows "\<exists>cs. mset cs = mset (conds_of U w) \<and>
     buildSelect Q U t w fs = Done (sq_Select Q (select_field fs) t (clauses_of w @ map Where cs))"
  by (rule buildSelect_good [OF assms])

text \<open>Concrete libraries: keys are fields, compared by equality; a query shows its calls.\<close>

definition eq_utils :: "(string \<times> sqlval) sqlutils" where
  "eq_utils =
     \<lparr>su_CopyWhere = rev, su_SplitKey = (\<lambda>k. (k, if k = ''bad'' then ''?'' else ''='', None)),
      su_ErrUnsupportedOperator = ''unsupported'', su_OpOrder = [''=''],
      su_OpOp = (\<lambda>p. Some (\<lambda>k v. Inr (k, v)))\<rparr>"

definition limit_squirrel :: "(string \<times> sqlval) squirrel" where
  "limit_squirrel =
     \<lparr>sq_Select = (\<lambda>f t cs. (f, concat (map (\<lambda>c. case c of Limit n \<Rightarrow> [SInt (int n)] | Where x \<Rightarrow> [snd x] | _ \<Rightarrow> []) cs), None)),
      sq_Update = (\<lambda>t u w. ([], [], None)), sq_Delete = (\<lambda>f t w. ([], [], None)),
      sq_Insert = (\<lambda>vb t cs. ([], [], Some ''insert statements must have at least one set of values''))\<rparr>"

theorem build_select_clauses_witness:
  "buildSelect limit_squirrel eq_utils ''t''
     [(''age'', SInt 3), (''_limit'', SUints [0, 5])] [''a'', ''b''] = Done (''a,b'', [SInt 5, SInt 3], None)"
proof -
  have c: "copies eq_utils" by (simp add: copies_def eq_utils_def)
  have g: "\<forall>kv \<in> set [(''age'', SInt 3), (''_limit'', SUints [0, 5])]. good_entry eq_utils kv"
    by (simp add: good_entry_def special_keys_def clause_of_def cond_of_def eq_utils_def)
  from build_select_clauses [OF c g, of limit_squirrel "''t''" "[''a'', ''b'']"] obtain cs
    where "mset cs = mset (conds_of eq_utils [(''age'', SInt 3), (''_limit'', SUints [0, 5])])"
      and b: "buildSelect limit_squirrel eq_utils ''t'' [(''age'', SInt 3), (''_limit'', SUints [0, 5])] [''a'', ''b'']
        = Done (sq_Select limit_squirrel (select_field [''a'', ''b'']) ''t''
            (clauses_of [(''age'', SInt 3), (''_limit'', SUints [0, 5])] @ map Where cs))" by blast
  then have "cs = [(''age'', SInt 3)]"
    by (simp add: conds_of_def special_keys_def cond_of_def eq_utils_def)
  with b show ?thesis
    by (simp add: limit_squirrel_def select_field_def clauses_of_def special_keys_def clause_of_def)
qed

text \<open>
  C38. One ill-formed entry anywhere in the condition map, a special key with a value of another
  type or form (as the map that the comment documents for \<open>_having\<close>) or a key whose condition
  cannot be built, prevents the query: the builder returns an error and no query, or panics.\<close>

theorem build_select_rejects:
  fixes U :: "'c sqlutils"
  assumes "copies U" and "kv \<in> set w" and "\<not> good_entry U kv"
  shows "opost (\<lambda>(query, args, err). query = [] \<and> args = [] \<and> err \<noteq> None) (buildSelect Q U t w fs)"
proof -
  obtain k v where kv: "kv = (k, v)" by (cases kv)
  have "opost (\<lambda>(query, args, err). query = [] \<and> args = [] \<and> err \<noteq> None)
      (obind (formatWhere U rest sel) (\<lambda>r. case r of Inl e \<Rightarrow> Done ([], [], Some e)
         | Inr sel \<Rightarrow> Done (sq_Select Q (select_field fs) t sel)))"
    if "select_clauses w [] (su_CopyWhere U w) = Done (Inr (sel, rest))" for sel rest
  proof -
    note r = select_clauses_rest [OF that]
    have "k \<notin> set special_keys" using r kv assms(2,3) by (auto simp: good_entry_def)
    moreover have "set (su_CopyWhere U w) = set w" using assms(1) by (metis copies_def set_mset_mset)
    ultimately have "(k, v) \<in> set rest" "cond_of U k v = None"
      using r kv assms(2,3) by (auto simp: drop_keys_copy [OF assms(1)] good_entry_def)
    from formatWhere_bad [OF this] show ?thesis by (cases "formatWhere U rest sel") fastforce+
  qed
  then show ?thesis
    by (cases "select_clauses w ([] :: 'c sel_call list) (su_CopyWhere U w)")
      (auto simp: buildSelect_def split: sum.split)
qed

theorem build_select_rejects_witness:
  "opost (\<lambda>(query, args, err). query = [] \<and> args = [] \<and> err \<noteq> None)
     (buildSelect limit_squirrel eq_utils ''t'' [(''age'', SInt 3), (''bad'', SInt 4)] [])"
proof (rule build_select_rejects)
  show "copies eq_utils" by (simp add: copies_def eq_utils_def)
  show "(''bad'', SInt 4) \<in> set [(''age'', SInt 3), (''bad'', SInt 4)]" by simp
  show "\<not> good_entry eq_utils (''bad'', SInt 4)"
    by (simp add: good_entry_def special_keys_def cond_of_def eq_utils_def)
qed

text \<open>The value documented for \<open>_having\<close> is a map, and panics.\<close>

lemma having_map_panics:
  "buildSelect Q U t [(''_having'', SMap m)] fs
     = Panic ''interface conversion: interface {} is not string''"
  by (simp add: buildSelect_def)

text \<open>
  The rows of an insert. If the first row has a column, the columns are the keys of the first
  row and every row lists, in the same order, its values for these columns, with nil where it has
  none: the lengths agree, and keys that only later rows have are left out.\<close>

theorem insert_rows_aligned:
  assumes "d \<noteq> []" and "distinct (map fst d)"
  shows "insert_calls (d # ds)
     = Columns (map fst d) # map (\<lambda>r. Values (row_values (map fst d) r)) (d # ds)
       \<and> (\<forall>vs. Values vs \<in> set (insert_calls (d # ds)) \<longrightarrow> length vs = length d)"
proof -
  have "insert_calls (d # ds)
     = Columns (map fst d) # map (\<lambda>r. Values (row_values (map fst d) r)) (d # ds)"
    using assms by (simp add: insert_calls_def insert_rows_fixed row_values_self comp_def)
  then show ?thesis by (auto simp: row_values_def)
qed

theorem insert_rows_aligned_witness:
  "insert_calls [[(''a'', SInt 1), (''b'', SInt 2)], [(''c'', SInt 3), (''b'', SInt 4)]]
     = [Columns [''a'', ''b''], Values [SInt 1, SInt 2], Values [SNil, SInt 4]]"
  using insert_rows_aligned [of "[(''a'', SInt 1), (''b'', SInt 2)]" "[[(''c'', SInt 3), (''b'', SInt 4)]]"]
  by (simp add: row_values_def)

text \<open>
  The builders with \<open>Ignore\<close> in their name make the same calls as the plain insert (nothing asks
  the server to ignore duplicates) and drop the error of the builder: for data that cannot be
  inserted (no rows, for one) they return what \<open>ToSql\<close> left, with no error.\<close>

theorem insert_ignore_drops_error:
  "\<exists>query args err. BuildInsert Q t data = (query, args, err)
     \<and> BuildInsertIgnore Q t data = (query, args, None)
     \<and> BuildReplaceIgnore Q t data =
         (fst (sq_Insert Q REPLACE t (insert_calls data)),
          fst (snd (sq_Insert Q REPLACE t (insert_calls data))), None)"
  by (cases "sq_Insert Q INSERT t (insert_calls data)")
    (simp add: BuildInsert_def BuildInsertIgnore_def BuildReplaceIgnore_def buildInsert_def case_prod_beta)

end
