(* ===== verification/Sql_Scanner.thy ===== *)
theory Sql_Scanner
  imports Sql_Builder
begin

text \<open>
  The row scanner of package onesql (src/onesql/scanner.go): scanning rows into one object or
  into a slice, decoding rows into maps, and the variants that close the rows. The binding of a
  row, \<open>xreflect.Mirroring\<close>, \<open>sqlutils.ResolveDataFromRows\<close> and the float parser are arguments.
\<close>

section \<open>Rows\<close>

text \<open>
  Rows of a query: those that have not been read, and whether they are closed. \<open>Next\<close> closes the
  rows when it finds no more. An error of a close is \<open>rs_CloseErr\<close>.
\<close>

record 'row rows =
  rs_rows :: "'row list"
  rs_closed :: bool
  rs_CloseErr :: "string option"

definition Next :: "'row rows \<Rightarrow> 'row option \<times> 'row rows" where
  "Next r =
     (if rs_closed r then (None, r)
      else case rs_rows r of
        [] \<Rightarrow> (None, r\<lparr>rs_closed := True\<rparr>)
      | x # xs \<Rightarrow> (Some x, r\<lparr>rs_rows := xs\<rparr>))"

definition Close :: "'row rows \<Rightarrow> string option \<times> 'row rows" where
  "Close r = (if rs_closed r then (None, r) else (rs_CloseErr r, r\<lparr>rs_closed := True\<rparr>))"

section \<open>Scanning into a target\<close>

text \<open>
  A target: the nil interface, or a value of one of the kinds that the code tells apart, which
  is nil or not. \<open>IsNil\<close> panics on a value whose kind has no nil.
\<close>

datatype target_kind = PtrToSlice | PtrToOther | OtherNilable | NotNilable

datatype target = NoTarget | Target target_kind bool

definition target_IsNil :: "target_kind \<Rightarrow> bool \<Rightarrow> bool outcome" where
  "target_IsNil k isnil =
     (if k = NotNilable then Panic ''reflect: call of reflect.Value.IsNil'' else Done isnil)"

text \<open>
  What binding a row returns: an error, nil, or an object, behind a pointer (which may be nil) or
  not.
\<close>

datatype 'o bound = BNil | BPtr 'o | BNilPtr | BVal 'o

datatype 'o mirrored = MSlice "'o list" | MOne "'o bound"

record ('row, 'o, 't) scan_ops =
  sc_bind :: "('row \<Rightarrow> string + 'o bound) option"
  sc_Mirroring :: "'o mirrored \<Rightarrow> 't \<Rightarrow> 't \<times> string option"
  sc_ErrNotSettable :: string
  sc_ErrNilFunction :: string
  sc_ErrEmptyResult :: string
  sc_NewCloseErr :: "string option \<Rightarrow> string option"

text \<open>\<open>reflect.ValueOf(r).Elem()\<close>, appended to the slice.\<close>

fun bound_elem :: "'o bound \<Rightarrow> 'o outcome" where
  "bound_elem (BPtr x) = Done x"
| "bound_elem _ = Panic ''reflect: call of reflect.Value.Elem''"

text \<open>The loop that collects a slice: by recursion on the rows that are left.\<close>

fun scan_list ::
  "('row \<Rightarrow> string + 'o bound) \<Rightarrow> 'row list \<Rightarrow> 'o list \<Rightarrow> ((string + 'o list) \<times> 'row list \<times> bool) outcome" where
  "scan_list b [] res = Done (Inr res, [], True)"
| "scan_list b (x # xs) res =
     (case b x of
        Inl e \<Rightarrow> Done (Inl e, xs, False)
      | Inr r \<Rightarrow> obind (bound_elem r) (\<lambda>y. scan_list b xs (res @ [y])))"

text \<open>The result of a scan: the rows and the target after it, and the error.\<close>

definition scan_checked ::
  "('row, 'o, 't) scan_ops \<Rightarrow> target_kind \<Rightarrow> ('row \<Rightarrow> string + 'o bound) \<Rightarrow> 'row rows \<Rightarrow> 't
     \<Rightarrow> (('row rows \<times> 't) \<times> string option) outcome" where
  "scan_checked S k b r t =
     (if k = PtrToSlice then
        (if rs_closed r then
           (let (t1, err) = sc_Mirroring S (MSlice []) t in Done ((r, t1), err))
         else obind (scan_list b (rs_rows r) []) (\<lambda>(res, rest, closed).
           let r1 = r\<lparr>rs_rows := rest, rs_closed := closed\<rparr>
           in case res of
                Inl e \<Rightarrow> Done ((r1, t), Some e)
              | Inr xs \<Rightarrow> (let (t1, err) = sc_Mirroring S (MSlice xs) t in Done ((r1, t1), err))))
      else
        (case Next r of
           (None, r1) \<Rightarrow> Done ((r1, t), Some (sc_ErrEmptyResult S))
         | (Some x, r1) \<Rightarrow>
             (case b x of
                Inl e \<Rightarrow> Done ((r1, t), Some e)
              | Inr BNil \<Rightarrow> Done ((r1, t), Some (sc_ErrEmptyResult S))
              | Inr res \<Rightarrow> (let (t1, err) = sc_Mirroring S (MOne res) t in Done ((r1, t1), err)))))"

definition Scan ::
  "('row, 'o, 't) scan_ops \<Rightarrow> target \<Rightarrow> 'row rows \<Rightarrow> 't \<Rightarrow> (('row rows \<times> 't) \<times> string option) outcome" where
  "Scan S target r t =
     (case target of
        NoTarget \<Rightarrow> Done ((r, t), Some (sc_ErrNotSettable S))
      | Target k isnil \<Rightarrow>
          obind (target_IsNil k isnil) (\<lambda>n.
            if n \<or> k \<notin> {PtrToSlice, PtrToOther} then Done ((r, t), Some (sc_ErrNotSettable S))
            else case sc_bind S of
              None \<Rightarrow> Done ((r, t), Some (sc_ErrNilFunction S))
            | Some b \<Rightarrow> scan_checked S k b r t))"

text \<open>The end of the closing variants. Nil rows are left to the first call of a method.\<close>

definition close_after ::
  "('row, 'o, 't) scan_ops \<Rightarrow> 'row rows \<Rightarrow> string option \<Rightarrow> 'row rows \<times> string option" where
  "close_after S r err =
     (let (errClose, r1) = Close r
      in (r1, if err = None then sc_NewCloseErr S errClose else err))"

definition ScanClose ::
  "('row, 'o, 't) scan_ops \<Rightarrow> target \<Rightarrow> 'row rows \<Rightarrow> 't \<Rightarrow> (('row rows \<times> 't) \<times> string option) outcome" where
  "ScanClose S target r t =
     obind (Scan S target r t) (\<lambda>((r1, t1), err).
       let (r2, err1) = close_after S r1 err in Done ((r2, t1), err1))"

section \<open>Scanning into maps\<close>

text \<open>
  A column as the driver gives it: bytes or something else. Bytes are decoded to an integer, a
  float or a string.
\<close>

datatype 'f column = CBytes string | CInt int | CFloat 'f | CText string | COther nat

text \<open>\<open>strconv.Atoi\<close> on 64 bits.\<close>

definition digit_of :: "char \<Rightarrow> int option" where
  "digit_of c = (let n = (of_char c :: nat) in if 48 \<le> n \<and> n \<le> 57 then Some (int (n - 48)) else None)"

fun digits_value :: "int \<Rightarrow> string \<Rightarrow> int option" where
  "digits_value acc [] = Some acc"
| "digits_value acc (c # s) =
     (case digit_of c of None \<Rightarrow> None | Some d \<Rightarrow> digits_value (10 * acc + d) s)"

definition unsigned_value :: "string \<Rightarrow> int option" where
  "unsigned_value s = (if s = [] then None else digits_value 0 s)"

definition Atoi :: "string \<Rightarrow> int option" where
  "Atoi s =
     (case (case s of
              c # s1 \<Rightarrow>
                if c = CHR ''-'' then map_option uminus (unsigned_value s1)
                else if c = CHR ''+'' then unsigned_value s1 else unsigned_value s
            | [] \<Rightarrow> None) of
        Some n \<Rightarrow> if - (2 ^ 63) \<le> n \<and> n < 2 ^ 63 then Some n else None
      | None \<Rightarrow> None)"

definition decode_column :: "(string \<Rightarrow> 'f option) \<Rightarrow> 'f column \<Rightarrow> 'f column" where
  "decode_column ParseFloat v =
     (case v of
        CBytes s \<Rightarrow>
          (case Atoi s of
             Some n \<Rightarrow> CInt n
           | None \<Rightarrow> (case ParseFloat s of Some f \<Rightarrow> CFloat f | None \<Rightarrow> CText s))
      | _ \<Rightarrow> v)"

text \<open>\<open>ResolveDataFromRows\<close> reads the rows into one map each.\<close>

type_synonym ('row, 'f) resolve =
  "'row rows \<Rightarrow> 'row rows \<times> (string + (string \<times> 'f column) list list)"

definition ScanMap :: "('row, 'f) resolve \<Rightarrow> 'row rows \<Rightarrow> 'row rows \<times> (string + (string \<times> 'f column) list list)" where
  "ScanMap Resolve r = Resolve r"

definition ScanMapDecode ::
  "('row, 'f) resolve \<Rightarrow> (string \<Rightarrow> 'f option) \<Rightarrow> 'row rows
     \<Rightarrow> 'row rows \<times> (string + (string \<times> 'f column) list list)" where
  "ScanMapDecode Resolve ParseFloat r =
     (case Resolve r of
        (r1, Inl e) \<Rightarrow> (r1, Inl e)
      | (r1, Inr ms) \<Rightarrow> (r1, Inr (map (map (\<lambda>(k, v). (k, decode_column ParseFloat v))) ms)))"

text \<open>The closing variants return the maps beside the error.\<close>

definition map_close ::
  "('row, 'o, 't) scan_ops \<Rightarrow> 'row rows \<times> (string + (string \<times> 'f column) list list)
     \<Rightarrow> 'row rows \<times> (string \<times> 'f column) list list \<times> string option" where
  "map_close S res =
     (case res of
        (r, Inl e) \<Rightarrow> (let (r1, err) = close_after S r (Some e) in (r1, [], err))
      | (r, Inr ms) \<Rightarrow> (let (r1, err) = close_after S r None in (r1, ms, err)))"

definition ScanMapDecodeClose ::
  "('row, 'o, 't) scan_ops \<Rightarrow> ('row, 'f) resolve \<Rightarrow> (string \<Rightarrow> 'f option) \<Rightarrow> 'row rows
     \<Rightarrow> 'row rows \<times> (string \<times> 'f column) list list \<times> string option" where
  "ScanMapDecodeClose S Resolve ParseFloat r = map_close S (ScanMapDecode Resolve ParseFloat r)"

definition ScanMapClose ::
  "('row, 'o, 't) scan_ops \<Rightarrow> ('row, 'f) resolve \<Rightarrow> 'row rows
     \<Rightarrow> 'row rows \<times> (string \<times> 'f column) list list \<times> string option" where
  "ScanMapClose S Resolve r = map_close S (ScanMap Resolve r)"

section \<open>Lemmas\<close>

lemma scan_list_all:
  "\<forall>x \<in> set xs. b x = Inr (BPtr (f x)) \<Longrightarrow> scan_list b xs res = Done (Inr (res @ map f xs), [], True)"
  by (induction xs arbitrary: res) simp_all

lemma scan_list_error:
  "\<forall>x \<in> set xs. b x = Inr (BPtr (f x)) \<Longrightarrow> b y = Inl e \<Longrightarrow>
     scan_list b (xs @ y # ys) res = Done (Inl e, ys, False)"
  by (induction xs arbitrary: res) simp_all

lemma Close_closed: "Close r = (e, r1) \<Longrightarrow> rs_closed r1"
  by (auto simp: Close_def split: if_splits)

lemma close_after_closed: "close_after S r err = (r1, e) \<Longrightarrow> rs_closed r1 \<and> (err = None \<or> e = err)"
  by (auto simp: close_after_def Close_closed split: prod.splits if_splits)

subsection \<open>Decimal numerals\<close>

definition digit_char :: "nat \<Rightarrow> char" where
  "digit_char d = char_of (48 + d)"

fun show_nat :: "nat \<Rightarrow> string" where
  "show_nat n = (if n < 10 then [digit_char n] else show_nat (n div 10) @ [digit_char (n mod 10)])"

declare show_nat.simps [simp del]

definition show_int :: "int \<Rightarrow> string" where
  "show_int i = (if i < 0 then CHR ''-'' # show_nat (nat (- i)) else show_nat (nat i))"

lemma digit_of_char: "d < 10 \<Longrightarrow> digit_of (digit_char d) = Some (int d)"
  by (simp add: digit_of_def digit_char_def Let_def)

lemma digits_value_append:
  "digits_value acc (s @ t) = (case digits_value acc s of None \<Rightarrow> None | Some n \<Rightarrow> digits_value n t)"
  by (induction acc s rule: digits_value.induct) (auto split: option.split)

lemma digits_value_show_nat: "digits_value 0 (show_nat n) = Some (int n)"
proof (induction n rule: show_nat.induct)
  case (1 n)
  show ?case
  proof (cases "n < 10")
    case True
    then show ?thesis by (simp add: show_nat.simps [of n] digit_of_char)
  next
    case False
    have "10 * int (n div 10) + int (n mod 10) = int n" by presburger
    with 1 False show ?thesis
      by (simp add: show_nat.simps [of n] digits_value_append digit_of_char)
  qed
qed

lemma show_nat_head: "\<exists>d s. show_nat n = digit_char d # s \<and> d < 10"
proof (induction n rule: show_nat.induct)
  case (1 n)
  then show ?case by (cases "n < 10") (auto simp: show_nat.simps [of n])
qed

lemma digit_no_sign:
  assumes "d < 10"
  shows "digit_char d \<noteq> CHR ''-''" and "digit_char d \<noteq> CHR ''+''"
proof -
  have "digit_of (CHR ''-'') = None" "digit_of (CHR ''+'') = None" by (simp_all add: digit_of_def)
  then show "digit_char d \<noteq> CHR ''-''" "digit_char d \<noteq> CHR ''+''"
    using digit_of_char [OF assms] by auto
qed

lemma unsigned_value_show_nat: "unsigned_value (show_nat n) = Some (int n)"
  using show_nat_head [of n] by (auto simp: unsigned_value_def digits_value_show_nat)

lemma Atoi_show_int:
  assumes "- (2 ^ 63) \<le> i" and "i < 2 ^ 63"
  shows "Atoi (show_int i) = Some i"
proof (cases "i < 0")
  case True
  then show ?thesis using assms by (simp add: Atoi_def show_int_def unsigned_value_show_nat)
next
  case False
  obtain d s where s: "show_nat (nat i) = digit_char d # s" "d < 10" using show_nat_head by blast
  have "unsigned_value (digit_char d # s) = Some i"
    using False unsigned_value_show_nat [of "nat i"] s by simp
  with False s assms digit_no_sign [OF s(2)] show ?thesis by (simp add: Atoi_def show_int_def)
qed

text \<open>Texts that are no canonical numerals are turned into numbers too.\<close>

lemma Atoi_loses_text:
  "decode_column PF (CBytes ''007'') = CInt 7" "decode_column PF (CBytes ''+7'') = CInt 7"
  by (simp_all add: decode_column_def Atoi_def unsigned_value_def digit_of_def)

section \<open>Properties\<close>

text \<open>
  Scanning into a slice. If every row can be bound, the target gets all objects, in the order of
  the rows, and the rows are used up and closed. If the rows before some row can be bound and that
  one cannot, its error is returned, the target is as it was, and the rows after it are left
  unread and open.\<close>

theorem scan_slice_all_or_error:
  assumes "sc_bind S = Some b" and "\<forall>x \<in> set xs. b x = Inr (BPtr (f x))" and "b y = Inl e"
  shows "Scan S (Target PtrToSlice False) \<lparr>rs_rows = xs, rs_closed = False, rs_CloseErr = ce\<rparr> t =
           (let (t1, err) = sc_Mirroring S (MSlice (map f xs)) t
            in Done ((\<lparr>rs_rows = [], rs_closed = True, rs_CloseErr = ce\<rparr>, t1), err))
     \<and> Scan S (Target PtrToSlice False) \<lparr>rs_rows = xs @ y # ys, rs_closed = False, rs_CloseErr = ce\<rparr> t =
           Done ((\<lparr>rs_rows = ys, rs_closed = False, rs_CloseErr = ce\<rparr>, t), Some e)"
  using assms
  by (simp add: Scan_def target_IsNil_def scan_checked_def scan_list_all [OF assms(2)] scan_list_error [OF assms(2,3)])

text \<open>Rows that are numbers, of which zero cannot be bound; the mirroring copies a slice.\<close>

definition nat_scan :: "(nat, nat, nat list) scan_ops" where
  "nat_scan =
     \<lparr>sc_bind = Some (\<lambda>n. if n = 0 then Inl ''zero'' else Inr (BPtr (10 * n))),
      sc_Mirroring = (\<lambda>m t. case m of MSlice xs \<Rightarrow> (xs, None) | MOne (BPtr x) \<Rightarrow> ([x], None) | _ \<Rightarrow> (t, Some ''mirror'')),
      sc_ErrNotSettable = ''not settable'', sc_ErrNilFunction = ''nil function'',
      sc_ErrEmptyResult = ''empty'', sc_NewCloseErr = (\<lambda>e. e)\<rparr>"

theorem scan_slice_all_or_error_witness:
  "Scan nat_scan (Target PtrToSlice False) \<lparr>rs_rows = [1, 2], rs_closed = False, rs_CloseErr = None\<rparr> []
     = Done ((\<lparr>rs_rows = [], rs_closed = True, rs_CloseErr = None\<rparr>, [10, 20]), None)
   \<and> Scan nat_scan (Target PtrToSlice False) \<lparr>rs_rows = [1, 2, 0, 3], rs_closed = False, rs_CloseErr = None\<rparr> []
     = Done ((\<lparr>rs_rows = [3], rs_closed = False, rs_CloseErr = None\<rparr>, []), Some ''zero'')"
proof -
  let ?b = "\<lambda>n. if n = 0 then Inl ''zero'' else Inr (BPtr (10 * n)) :: string + nat bound"
  have 1: "sc_bind nat_scan = Some ?b" by (simp add: nat_scan_def)
  have 2: "\<forall>x \<in> set [1, 2]. ?b x = Inr (BPtr ((*) 10 x))" by simp
  have 3: "?b 0 = Inl ''zero''" by simp
  from scan_slice_all_or_error [OF 1 2 3, of None "[]" "[3]"] show ?thesis
    by (simp add: nat_scan_def)
qed

text \<open>
  Scanning into one object takes one row: without a row the error is that of an empty result and
  the target is as it was; with rows, only the first is bound and stored, and the others are left
  unread, whether or not there are any.\<close>

theorem scan_one_takes_first:
  assumes "sc_bind S = Some b" and "b x = Inr (BPtr z)"
  shows "Scan S (Target PtrToOther False) \<lparr>rs_rows = x # xs, rs_closed = False, rs_CloseErr = ce\<rparr> t =
           (let (t1, err) = sc_Mirroring S (MOne (BPtr z)) t
            in Done ((\<lparr>rs_rows = xs, rs_closed = False, rs_CloseErr = ce\<rparr>, t1), err))
     \<and> Scan S (Target PtrToOther False) \<lparr>rs_rows = [], rs_closed = False, rs_CloseErr = ce\<rparr> t =
           Done ((\<lparr>rs_rows = [], rs_closed = True, rs_CloseErr = ce\<rparr>, t), Some (sc_ErrEmptyResult S))"
  using assms by (simp add: Scan_def target_IsNil_def scan_checked_def Next_def)

theorem scan_one_takes_first_witness:
  "Scan nat_scan (Target PtrToOther False) \<lparr>rs_rows = [4, 0], rs_closed = False, rs_CloseErr = None\<rparr> []
     = Done ((\<lparr>rs_rows = [0], rs_closed = False, rs_CloseErr = None\<rparr>, [40]), None)
   \<and> Scan nat_scan (Target PtrToOther False) \<lparr>rs_rows = [], rs_closed = False, rs_CloseErr = None\<rparr> [7]
     = Done ((\<lparr>rs_rows = [], rs_closed = True, rs_CloseErr = None\<rparr>, [7]), Some ''empty'')"
proof -
  let ?b = "\<lambda>n. if n = 0 then Inl ''zero'' else Inr (BPtr (10 * n)) :: string + nat bound"
  have 1: "sc_bind nat_scan = Some ?b" by (simp add: nat_scan_def)
  have 2: "?b 4 = Inr (BPtr 40)" by simp
  from scan_one_takes_first [OF 1 2, of "[0]" None "[]"] scan_one_takes_first [OF 1 2, of "[]" None "[7]"]
  show ?thesis by (simp add: nat_scan_def)
qed

text \<open>
  Closing. \<open>ScanClose\<close>, when it returns, has closed the rows, whatever went wrong before, and an
  error of the scan itself is not hidden by the closing.\<close>

theorem scan_close_closes:
  "opost (\<lambda>((r2, t2), err2). rs_closed r2 \<and>
      (\<exists>r1 err1. Scan S target r t = Done ((r1, t2), err1) \<and> (err1 = None \<or> err2 = err1)))
     (ScanClose S target r t)"
proof -
  have "opost (\<lambda>((r2, t2), err2). rs_closed r2 \<and>
      (\<exists>r1 err1. Scan S target r t = Done ((r1, t2), err1) \<and> (err1 = None \<or> err2 = err1)))
     (let (r2, e2) = close_after S r1 err1 in Done ((r2, t1), e2))"
    if "Scan S target r t = Done ((r1, t1), err1)" for r1 t1 err1
    using that close_after_closed [of S r1 err1] by (cases "close_after S r1 err1") auto
  then show ?thesis
    by (cases "Scan S target r t") (auto simp: ScanClose_def)
qed

text \<open>
  C40. Decoding integers. A column whose bytes are the decimal text of a 64-bit integer, as a driver
  sends it, is decoded to that integer, in every row and for every column, so the table is
  recovered.\<close>

theorem scan_map_decode_roundtrip:
  assumes "Resolve r = (r1, Inr (map (map (\<lambda>(k, i). (k, CBytes (show_int i)))) tbl))"
    and "\<forall>row \<in> set tbl. \<forall>(k, i) \<in> set row. - (2 ^ 63) \<le> i \<and> i < 2 ^ 63"
  shows "ScanMapDecode Resolve PF r = (r1, Inr (map (map (\<lambda>(k, i). (k, CInt i))) tbl))"
proof -
  have "map (\<lambda>(k, v). (k, decode_column PF v)) (map (\<lambda>(k, i). (k, CBytes (show_int i))) row)
      = map (\<lambda>(k, i). (k, CInt i)) row" if "row \<in> set tbl" for row
    using that assms(2) by (fastforce simp: decode_column_def Atoi_show_int)
  then show ?thesis by (simp add: ScanMapDecode_def assms(1))
qed

theorem scan_map_decode_roundtrip_witness:
  "snd (ScanMapDecode (\<lambda>r :: nat rows. (r, Inr [[(''id'', CBytes ''-42'')]])) (\<lambda>s. None :: nat option)
         \<lparr>rs_rows = [], rs_closed = True, rs_CloseErr = None\<rparr>)
     = Inr [[(''id'', CInt (-42))]]"
proof -
  let ?R = "\<lambda>r :: nat rows. (r, Inr [[(''id'', CBytes ''-42'')]])
     :: nat rows \<times> (string + (string \<times> nat column) list list)"
  let ?r = "\<lparr>rs_rows = [], rs_closed = True, rs_CloseErr = None\<rparr> :: nat rows"
  have "show_int (-42) = ''-42''" by code_simp
  then have "?R ?r = (?r, Inr (map (map (\<lambda>(k, i). (k, CBytes (show_int i)))) [[(''id'', -42)]]))" by simp
  moreover have "\<forall>row \<in> set [[(''id'', -42 :: int)]]. \<forall>(k, i) \<in> set row. - (2 ^ 63) \<le> i \<and> i < 2 ^ 63" by simp
  ultimately show ?thesis
    using scan_map_decode_roundtrip [of ?R ?r ?r "[[(''id'', -42)]]" "\<lambda>s. None"] by simp
qed

text \<open>A target that is neither a pointer nor of a kind with a nil panics before its kind is looked at.\<close>

lemma scan_value_target_panics:
  "Scan S (Target NotNilable n) r t = Panic ''reflect: call of reflect.Value.IsNil''"
  by (simp add: Scan_def target_IsNil_def)

end
