(* ===== verification/Sql_Dao.thy ===== *)
theory Sql_Dao
  imports Sql_Scanner
begin

text \<open>
  The data access object of package onesql (src/onesql/dao.go) and its constructor
  (src/onesql/fastsql.go): each operation builds a statement, sends it, and scans or counts what
  comes back. The database is an argument; builder and scanner are interfaces, which the
  constructor fills with the ones of the package.
\<close>

section \<open>Interfaces\<close>

record builder_ops =
  bo_BuildSelectWithContext :: "string \<Rightarrow> sql_map \<Rightarrow> string list \<Rightarrow> query_result outcome"
  bo_BuildSelect :: "string \<Rightarrow> sql_map \<Rightarrow> string list \<Rightarrow> query_result outcome"
  bo_BuildInsert :: "string \<Rightarrow> sql_map list \<Rightarrow> query_result"
  bo_BuildUpsert :: "string \<Rightarrow> sql_map \<Rightarrow> query_result"
  bo_BuildUpdate :: "string \<Rightarrow> sql_map \<Rightarrow> sql_map \<Rightarrow> query_result"
  bo_BuildDelete :: "string \<Rightarrow> sql_map \<Rightarrow> query_result"

definition GetBuilder :: "'c squirrel \<Rightarrow> 'c sqlutils \<Rightarrow> builder_ops" where
  "GetBuilder Q U =
     \<lparr>bo_BuildSelectWithContext = BuildSelectWithContext Q U, bo_BuildSelect = BuildSelect Q U,
      bo_BuildInsert = BuildInsert Q, bo_BuildUpsert = BuildUpsert Q,
      bo_BuildUpdate = BuildUpdate Q, bo_BuildDelete = BuildDelete Q\<rparr>"

type_synonym ('row, 't) scanner = "target \<Rightarrow> 'row rows \<Rightarrow> 't \<Rightarrow> (('row rows \<times> 't) \<times> string option) outcome"

definition GetScanner :: "('row, 'o, 't) scan_ops \<Rightarrow> ('row, 't) scanner" where
  "GetScanner S = Scan S"

text \<open>A database: queries and statements change its state and return rows or a result, or nil.\<close>

record exec_result =
  er_LastInsertId :: "int \<times> string option"
  er_RowsAffected :: "int \<times> string option"

record ('db, 'row) xdb_ops =
  xd_Query :: "'db \<Rightarrow> string \<Rightarrow> sqlval list \<Rightarrow> 'db \<times> 'row rows option \<times> string option"
  xd_Exec :: "'db \<Rightarrow> string \<Rightarrow> sqlval list \<Rightarrow> 'db \<times> exec_result option \<times> string option"

text \<open>The state of the database, and how many rows were handed out and not closed.\<close>

record 'db session =
  se_db :: 'db
  se_open :: int

definition send_query ::
  "('db, 'row) xdb_ops \<Rightarrow> 'db session \<Rightarrow> string \<Rightarrow> sqlval list
     \<Rightarrow> 'db session \<times> 'row rows option \<times> string option" where
  "send_query X s cond vals =
     (let (d, rows, err) = xd_Query X (se_db s) cond vals
      in (s\<lparr>se_db := d, se_open := se_open s + (if rows = None then 0 else 1)\<rparr>, rows, err))"

definition settle :: "'row rows \<Rightarrow> 'db session \<Rightarrow> 'db session" where
  "settle r s = s\<lparr>se_open := se_open s - (if rs_closed r then 1 else 0)\<rparr>"

text \<open>
  The object: table, the columns that \<open>Omits\<close> lists, builder and scanner; and of its type parameter,
  the zero values of an object and of a slice of them, and whether an object is itself a slice.
\<close>

record ('row, 't) dao =
  da_table :: string
  da_omits :: "string list"
  da_builder :: builder_ops
  da_scanner :: "('row, 't) scanner"
  da_one :: 't
  da_many :: 't
  da_one_is_slice :: bool

definition dao_Init ::
  "builder_ops \<times> ('row, 't) scanner \<Rightarrow> string \<Rightarrow> string list \<Rightarrow> ('row, 't) dao \<Rightarrow> ('row, 't) dao" where
  "dao_Init cons tableName omits dao =
     dao\<lparr>da_builder := fst cons, da_scanner := snd cons, da_omits := omits, da_table := tableName\<rparr>"

definition dao_GetScanner :: "('row, 't) dao \<Rightarrow> ('row, 't) scanner" where
  "dao_GetScanner dao = da_scanner dao"

definition dao_GetBuilder :: "('row, 't) dao \<Rightarrow> builder_ops" where
  "dao_GetBuilder dao = da_builder dao"

lemma dao_Init_parts:
  "dao_GetBuilder (dao_Init cons tableName omits dao) = fst cons"
  "dao_GetScanner (dao_Init cons tableName omits dao) = snd cons"
  by (simp_all add: dao_Init_def dao_GetBuilder_def dao_GetScanner_def)

definition nil_db :: string where
  "nil_db = ''manager.XDB object couldn't be nil''"

section \<open>Queries\<close>

text \<open>From the statement on: send it, scan into a fresh target, close the rows.\<close>

definition run_query ::
  "('db, 'row) xdb_ops \<Rightarrow> ('row, 't) scanner \<Rightarrow> target_kind \<Rightarrow> 't \<Rightarrow> 'db session \<Rightarrow> query_result
     \<Rightarrow> (('db session \<times> 't) \<times> string option) outcome" where
  "run_query X scan k zero s q =
     (case q of (cond, vals, err) \<Rightarrow>
        if err \<noteq> None then Done ((s, zero), err)
        else case send_query X s cond vals of
          (s1, rows, Some e) \<Rightarrow> Done ((s1, zero), Some e)
        | (s1, None, None) \<Rightarrow> Done ((s1, zero), None)
        | (s1, Some r, None) \<Rightarrow>
            obind (scan (Target k False) r zero) (\<lambda>((r1, res), err).
              let (_, r2) = Close r1 in Done ((settle r2 s1, res), err)))"

type_synonym ('db, 'a) dao_call = "(('db session option \<times> 'a) \<times> string option) outcome"

definition with_db ::
  "'db session option \<Rightarrow> 'a \<Rightarrow> ('db session \<Rightarrow> (('db session \<times> 'a) \<times> string option) outcome) \<Rightarrow> ('db, 'a) dao_call" where
  "with_db db zero f =
     (case db of
        None \<Rightarrow> Done ((None, zero), Some nil_db)
      | Some s \<Rightarrow> obind (f s) (\<lambda>((s1, x), err). Done ((Some s1, x), err)))"

definition one_where :: "(sql_map \<Rightarrow> sql_map) \<Rightarrow> sql_map \<Rightarrow> sql_map" where
  "one_where CopyWhere conds =
     (let tar = CopyWhere conds
      in if map_of tar ''_limit'' = None then AList.update ''_limit'' (SUints [0, 1]) tar else tar)"

definition SelectOne ::
  "(sql_map \<Rightarrow> sql_map) \<Rightarrow> ('db, 'row) xdb_ops \<Rightarrow> ('row, 't) dao \<Rightarrow> 'db session option \<Rightarrow> sql_map \<Rightarrow> ('db, 't) dao_call" where
  "SelectOne CopyWhere X dao db conds =
     with_db db (da_one dao) (\<lambda>s.
       obind (bo_BuildSelectWithContext (da_builder dao) (da_table dao) (one_where CopyWhere conds) (da_omits dao))
         (run_query X (da_scanner dao) (if da_one_is_slice dao then PtrToSlice else PtrToOther) (da_one dao) s))"

definition SelectMulti ::
  "('db, 'row) xdb_ops \<Rightarrow> ('row, 't) dao \<Rightarrow> 'db session option \<Rightarrow> sql_map \<Rightarrow> ('db, 't) dao_call" where
  "SelectMulti X dao db conds =
     with_db db (da_many dao) (\<lambda>s.
       obind (bo_BuildSelectWithContext (da_builder dao) (da_table dao) conds (da_omits dao))
         (run_query X (da_scanner dao) PtrToSlice (da_many dao) s))"

text \<open>\<open>ComplexQuery\<close>: the statement is the caller's.\<close>

definition ComplexQuery ::
  "string \<Rightarrow> string list \<Rightarrow> ('db, 'row) xdb_ops \<Rightarrow> 'db session option \<Rightarrow> ('row, 't) scanner
     \<Rightarrow> (string \<Rightarrow> string list \<Rightarrow> query_result) \<Rightarrow> 't \<Rightarrow> ('db, 't) dao_call" where
  "ComplexQuery tableName columns X db scan f zero =
     with_db db zero (\<lambda>s. run_query X scan PtrToSlice zero s (f tableName columns))"

text \<open>
  \<open>CountOf\<close> reads the count of every row into the same variable and keeps the last. There is no close,
  and no test for nil rows. \<open>ScanCount\<close> is \<open>rows.Scan(&count)\<close>.
\<close>

fun count_loop ::
  "('row \<Rightarrow> string + int) \<Rightarrow> 'row list \<Rightarrow> int \<Rightarrow> (int \<times> string option) \<times> 'row list \<times> bool" where
  "count_loop ScanCount [] acc = ((acc, None), [], True)"
| "count_loop ScanCount (x # xs) acc =
     (case ScanCount x of
        Inl e \<Rightarrow> ((acc, Some e), xs, False)
      | Inr n \<Rightarrow> count_loop ScanCount xs n)"

definition CountOf ::
  "('row \<Rightarrow> string + int) \<Rightarrow> ('db, 'row) xdb_ops \<Rightarrow> ('row, 't) dao \<Rightarrow> 'db session option \<Rightarrow> sql_map \<Rightarrow> ('db, int) dao_call" where
  "CountOf ScanCount X dao db conds =
     with_db db 0 (\<lambda>s.
       obind (bo_BuildSelect (da_builder dao) (da_table dao) conds [''count(*) as count'']) (\<lambda>(cond, vals, err).
         if err \<noteq> None then Done ((s, 0), err)
         else case send_query X s cond vals of
           (s1, rows, Some e) \<Rightarrow> Done ((s1, 0), Some e)
         | (s1, None, None) \<Rightarrow> Panic ''invalid memory address or nil pointer dereference''
         | (s1, Some r, None) \<Rightarrow>
             if rs_closed r then Done ((s1, 0), None)
             else
               let ((n, err), rest, closed) = count_loop ScanCount (rs_rows r) 0
               in Done ((settle (r\<lparr>rs_rows := rest, rs_closed := closed\<rparr>) s1, n), err)))"

section \<open>Changes\<close>

text \<open>The two ways in which the result of a statement is read.\<close>

definition run_insert :: "('db, 'row) xdb_ops \<Rightarrow> 'db session \<Rightarrow> query_result \<Rightarrow> (('db session \<times> int) \<times> string option) outcome" where
  "run_insert X s q =
     (case q of (cond, vals, err) \<Rightarrow>
        if err \<noteq> None then Done ((s, 0), err)
        else case xd_Exec X (se_db s) cond vals of
          (d, _, Some e) \<Rightarrow> Done ((s\<lparr>se_db := d\<rparr>, 0), Some e)
        | (d, None, None) \<Rightarrow> Done ((s\<lparr>se_db := d\<rparr>, 0), None)
        | (d, Some res, None) \<Rightarrow> (let (n, e) = er_LastInsertId res in Done ((s\<lparr>se_db := d\<rparr>, n), e)))"

definition run_change :: "('db, 'row) xdb_ops \<Rightarrow> 'db session \<Rightarrow> query_result \<Rightarrow> (('db session \<times> int) \<times> string option) outcome" where
  "run_change X s q =
     (case q of (cond, vals, err) \<Rightarrow>
        if err \<noteq> None then Done ((s, 0), err)
        else case xd_Exec X (se_db s) cond vals of
          (d, _, Some e) \<Rightarrow> Done ((s\<lparr>se_db := d\<rparr>, 0), Some e)
        | (d, None, None) \<Rightarrow> Panic ''invalid memory address or nil pointer dereference''
        | (d, Some res, None) \<Rightarrow> (let (n, e) = er_RowsAffected res in Done ((s\<lparr>se_db := d\<rparr>, n), e)))"

definition Insert :: "('db, 'row) xdb_ops \<Rightarrow> ('row, 't) dao \<Rightarrow> 'db session option \<Rightarrow> sql_map list \<Rightarrow> ('db, int) dao_call" where
  "Insert X dao db data =
     with_db db 0 (\<lambda>s. run_insert X s (bo_BuildInsert (da_builder dao) (da_table dao) data))"

definition Upsert :: "('db, 'row) xdb_ops \<Rightarrow> ('row, 't) dao \<Rightarrow> 'db session option \<Rightarrow> sql_map \<Rightarrow> ('db, int) dao_call" where
  "Upsert X dao db data =
     with_db db 0 (\<lambda>s. run_insert X s (bo_BuildUpsert (da_builder dao) (da_table dao) data))"

definition Update :: "('db, 'row) xdb_ops \<Rightarrow> ('row, 't) dao \<Rightarrow> 'db session option \<Rightarrow> sql_map \<Rightarrow> sql_map \<Rightarrow> ('db, int) dao_call" where
  "Update X dao db conds data =
     with_db db 0 (\<lambda>s. run_change X s (bo_BuildUpdate (da_builder dao) (da_table dao) conds data))"

definition Delete :: "('db, 'row) xdb_ops \<Rightarrow> ('row, 't) dao \<Rightarrow> 'db session option \<Rightarrow> sql_map \<Rightarrow> ('db, int) dao_call" where
  "Delete X dao db conds =
     with_db db 0 (\<lambda>s. run_change X s (bo_BuildDelete (da_builder dao) (da_table dao) conds))"

text \<open>The function \<open>ComplexExec\<close> of dao.go.\<close>

definition ComplexExec ::
  "string \<Rightarrow> ('db, 'row) xdb_ops \<Rightarrow> 'db session option \<Rightarrow> (string \<Rightarrow> query_result) \<Rightarrow> ('db, int) dao_call" where
  "ComplexExec tableName X db f = with_db db 0 (\<lambda>s. run_change X s (f tableName))"

section \<open>The constructor's own statements (fastsql.go)\<close>

text \<open>
  The target of \<open>ComplexSelect\<close> is not used; \<open>bind\<close> gets the rows themselves. A query of \<open>sql.DB\<close> gives
  an error or rows.
\<close>

definition constructor_ComplexSelect ::
  "('db \<Rightarrow> string \<Rightarrow> sqlval list \<Rightarrow> 'db \<times> (string + 'row rows)) \<Rightarrow> query_result
     \<Rightarrow> ('row rows \<Rightarrow> 'row rows \<times> string option) \<Rightarrow> 'db session \<Rightarrow> 'db session \<times> string option" where
  "constructor_ComplexSelect QueryContext q bind s =
     (case q of (query, args, err) \<Rightarrow>
        if err \<noteq> None then (s, err)
        else case QueryContext (se_db s) query args of
          (d, Inl e) \<Rightarrow> (s\<lparr>se_db := d\<rparr>, Some e)
        | (d, Inr r) \<Rightarrow>
            (let s1 = s\<lparr>se_db := d, se_open := se_open s + 1\<rparr>; (r1, err) = bind r; (_, r2) = Close r1
             in (settle r2 s1, err)))"

definition constructor_ComplexExec ::
  "('db, 'row) xdb_ops \<Rightarrow> query_result \<Rightarrow> 'db session \<Rightarrow> 'db session \<times> string option" where
  "constructor_ComplexExec X q s =
     (case q of (query, args, err) \<Rightarrow>
        if err \<noteq> None then (s, err)
        else let (d, _, e) = xd_Exec X (se_db s) query args in (s\<lparr>se_db := d\<rparr>, e))"

section \<open>Lemmas\<close>

text \<open>What database/sql promises: an error comes without rows, and rows are handed out open.\<close>

definition xdb_law :: "('db, 'row) xdb_ops \<Rightarrow> bool" where
  "xdb_law X \<longleftrightarrow> (\<forall>d cond vals d1 rows err. xd_Query X d cond vals = (d1, rows, err) \<longrightarrow>
     (err \<noteq> None \<longrightarrow> rows = None) \<and> (\<forall>r. rows = Some r \<longrightarrow> \<not> rs_closed r))"

text \<open>No more and no fewer rows are open after a call than before it.\<close>

definition balanced :: "'db session \<Rightarrow> (('db session \<times> 'a) \<times> string option) outcome \<Rightarrow> bool" where
  "balanced s m = opost (\<lambda>((s1, x), err). se_open s1 = se_open s) m"

lemma run_query_balanced:
  assumes "xdb_law X"
  shows "balanced s (run_query X scan k zero s q)"
proof -
  obtain cond vals err where q: "q = (cond, vals, err)" by (cases q)
  show ?thesis
  proof (cases err)
    case None
    obtain d rows e where x: "xd_Query X (se_db s) cond vals = (d, rows, e)" by (cases "xd_Query X (se_db s) cond vals")
    have r: "rows = None" if "e \<noteq> None" using that assms x by (auto simp: xdb_law_def)
    have c: "opost (\<lambda>((s2, x), err). se_open s2 = se_open s)
        (let (_, r2) = Close r1 in Done ((settle r2 (s\<lparr>se_db := d, se_open := se_open s + 1\<rparr>), res), err))"
      for r1 :: "'b rows" and res :: 'c and err :: "string option"
      using Close_closed [of r1] by (cases "Close r1") (simp add: settle_def)
    show ?thesis
    proof (cases rows)
      case (Some r)
      with r have "e = None" by (cases e) auto
      moreover have "opost (\<lambda>((s2, x), err). se_open s2 = se_open s)
          (obind (scan (Target k False) r zero) (\<lambda>((r1, res), err).
             let (_, r2) = Close r1
             in Done ((settle r2 (s\<lparr>se_db := d, se_open := se_open s + 1\<rparr>), res), err)))"
        using c by (cases "scan (Target k False) r zero") auto
      ultimately show ?thesis
        using None x Some by (simp add: balanced_def q run_query_def send_query_def)
    qed (use x None in \<open>cases e; simp add: balanced_def q run_query_def send_query_def\<close>)
  qed (simp add: q balanced_def run_query_def)
qed

lemma with_db_balanced:
  "(\<And>s. balanced s (f s)) \<Longrightarrow>
     opost (\<lambda>((db1, x), err). map_option se_open db1 = map_option se_open db) (with_db db zero f)"
  by (fastforce simp: with_db_def balanced_def opost_def obind_Done_iff split: option.split)

lemma balanced_obind: "(\<And>q. balanced s (f q)) \<Longrightarrow> balanced s (obind m f)"
  by (cases m) (simp_all add: balanced_def)

lemma count_loop_all:
  "\<forall>x \<in> set xs. sc x = Inr (f x) \<Longrightarrow> count_loop sc xs n = ((last (n # map f xs), None), [], True)"
  by (induction xs arbitrary: n) auto

lemma count_loop_error:
  "\<forall>x \<in> set xs. sc x = Inr (f x) \<Longrightarrow> sc y = Inl e \<Longrightarrow>
     count_loop sc (xs @ y # ys) n = ((last (n # map f xs), Some e), ys, False)"
  by (induction xs arbitrary: n) auto

lemma update_absent: "k \<notin> fst ` set xs \<Longrightarrow> AList.update k v xs = xs @ [(k, v)]"
  by (induction xs) auto

lemma mset_concat_map: "mset (concat (map g xs)) = (\<Sum>x \<in># mset xs. mset (g x))"
  by (induction xs) simp_all

lemma clauses_of_mset: "mset v = mset w \<Longrightarrow> mset (clauses_of v) = mset (clauses_of w)"
  by (simp add: clauses_of_def mset_concat_map)

lemma conds_of_mset: "mset v = mset w \<Longrightarrow> mset (conds_of U v) = mset (conds_of U w)"
  by (simp add: conds_of_def)

section \<open>Properties\<close>


text \<open>A database with one table of numbers.\<close>

definition list_db :: "(nat list, nat) xdb_ops" where
  "list_db =
     \<lparr>xd_Query = (\<lambda>d cond vals. (d, Some \<lparr>rs_rows = d, rs_closed = False, rs_CloseErr = None\<rparr>, None)),
      xd_Exec = (\<lambda>d cond vals. ([], Some \<lparr>er_LastInsertId = (0, None), er_RowsAffected = (int (length d), None)\<rparr>, None))\<rparr>"

definition nat_dao :: "(nat, nat list) dao" where
  "nat_dao =
     \<lparr>da_table = ''t'', da_omits = [], da_builder = GetBuilder limit_squirrel eq_utils,
      da_scanner = GetScanner nat_scan, da_one = [], da_many = [], da_one_is_slice = False\<rparr>"

definition open_session :: "nat list \<Rightarrow> nat list session" where
  "open_session d = \<lparr>se_db = d, se_open = 0\<rparr>"

lemma list_db_law: "xdb_law list_db"
  by (auto simp: xdb_law_def list_db_def)

lemmas dao_eval = SelectOne_def SelectMulti_def CountOf_def with_db_def run_query_def send_query_def
  settle_def Close_def list_db_def nat_dao_def open_session_def GetBuilder_def GetScanner_def
  BuildSelect_def BuildSelectWithContext_def buildSelect_def eq_utils_def limit_squirrel_def
  Scan_def target_IsNil_def scan_checked_def nat_scan_def


text \<open>
  Counting. \<open>CountOf\<close> gives the count of the last row, and the rows are closed by reading to
  their end; but if a row cannot be scanned it returns that error with the count so far and the
  rows are never closed: one more is open.\<close>

theorem count_of_leaks_on_error:
  assumes "bo_BuildSelect (da_builder dao) (da_table dao) conds [''count(*) as count''] = Done (cond, vals, None)"
    and "xd_Query X (se_db s) cond vals =
           (d, Some \<lparr>rs_rows = rows, rs_closed = False, rs_CloseErr = ce\<rparr>, None)"
    and "\<forall>x \<in> set xs. ScanCount x = Inr (f x)" and "rows = xs \<or> (rows = xs @ y # ys \<and> ScanCount y = Inl e)"
  shows "CountOf ScanCount X dao (Some s) conds =
     Done ((Some \<lparr>se_db = d, se_open = se_open s + (if rows = xs then 0 else 1)\<rparr>, last (0 # map f xs)),
           if rows = xs then None else Some e)"
proof -
  have ne: "xs @ y # ys \<noteq> xs" by simp
  from assms(4) show ?thesis
  proof (elim disjE conjE)
    assume "rows = xs"
    then show ?thesis
      using assms(1,2) count_loop_all [OF assms(3)]
      by (cases s) (simp add: CountOf_def with_db_def send_query_def settle_def)
  next
    assume "rows = xs @ y # ys" "ScanCount y = Inl e"
    with ne show ?thesis
      using assms(1,2) count_loop_error [OF assms(3)]
      by (cases s) (simp add: CountOf_def with_db_def send_query_def settle_def)
  qed
qed

theorem count_of_leaks_on_error_witness:
  "CountOf (\<lambda>n. if n = 0 then Inl ''null'' else Inr (int n)) list_db nat_dao (Some (open_session [3, 0])) []
     = Done ((Some \<lparr>se_db = [3, 0], se_open = 1\<rparr>, 3), Some ''null'')"
proof -
  let ?sc = "\<lambda>n :: nat. if n = 0 then Inl ''null'' else Inr (int n)"
  obtain cond vals where 1: "bo_BuildSelect (da_builder nat_dao) (da_table nat_dao) [] [''count(*) as count'']
      = Done (cond, vals, None)" by (simp add: dao_eval)
  have 2: "xd_Query list_db (se_db (open_session [3, 0])) cond vals =
      ([3, 0], Some \<lparr>rs_rows = [3, 0], rs_closed = False, rs_CloseErr = None\<rparr>, None)" by (simp add: dao_eval)
  have 3: "\<forall>x \<in> set [3]. ?sc x = Inr (int x)" by simp
  have 4: "[3, 0] = [3] \<or> [3, 0] = [3] @ 0 # [] \<and> ?sc 0 = Inl ''null''" by simp
  from count_of_leaks_on_error [OF 1 2 3 4] show ?thesis by (simp add: open_session_def)
qed

text \<open>
  Composition of the object with the builder of the package. For a well-formed condition map
  without a limit, \<open>SelectOne\<close> sends the query that selects the columns that \<open>Omits\<close> lists (all of them
  if it lists none) from the table with the caller's clauses and conditions and a limit of one row
  at offset zero, and scans its rows into one object.\<close>

theorem select_one_limited:
  fixes U :: "'c sqlutils"
  assumes "copies U" and "\<forall>kv \<in> set w. good_entry U kv" and "map_of w ''_limit'' = None"
    and "da_builder dao = GetBuilder Q U" and "\<not> da_one_is_slice dao"
  shows "\<exists>clauses cs. mset clauses = {#Limit 1, Offset 0#} + mset (clauses_of w) \<and> mset cs = mset (conds_of U w) \<and>
     SelectOne (su_CopyWhere U) X dao (Some s) w =
       obind (run_query X (da_scanner dao) PtrToOther (da_one dao) s
                (sq_Select Q (select_field (da_omits dao)) (da_table dao) (clauses @ map Where cs)))
         (\<lambda>((s1, x), err). Done ((Some s1, x), err))"
proof -
  let ?w = "su_CopyWhere U w"
  let ?tar = "?w @ [(''_limit'', SUints [0, 1])]"
  have m: "mset ?w = mset w" using assms(1) by (simp add: copies_def)
  then have sw: "set ?w = set w" by (metis set_mset_mset)
  then have k: "''_limit'' \<notin> fst ` set ?w" using assms(3) by (simp add: map_of_eq_None_iff)
  then have o: "one_where (su_CopyWhere U) w = ?tar"
    by (simp add: one_where_def map_of_eq_None_iff update_absent)
  have "\<forall>kv \<in> set ?tar. good_entry U kv"
    using assms(2) sw by (simp add: good_entry_def special_keys_def clause_of_def)
  from buildSelect_good [OF assms(1) this, of Q "da_table dao" "da_omits dao"] obtain cs
    where cs: "mset cs = mset (conds_of U ?tar)" "buildSelect Q U (da_table dao) ?tar (da_omits dao)
      = Done (sq_Select Q (select_field (da_omits dao)) (da_table dao) (clauses_of ?tar @ map Where cs))" by blast
  have "mset (clauses_of ?tar) = {#Limit 1, Offset 0#} + mset (clauses_of w :: 'c sel_call list)"
    using clauses_of_mset [OF m] by (simp add: clauses_of_def special_keys_def clause_of_def)
  moreover have "mset cs = mset (conds_of U w)"
    using cs(1) conds_of_mset [OF m] by (simp add: conds_of_def special_keys_def)
  moreover have "SelectOne (su_CopyWhere U) X dao (Some s) w =
       obind (run_query X (da_scanner dao) PtrToOther (da_one dao) s
                (sq_Select Q (select_field (da_omits dao)) (da_table dao) (clauses_of ?tar @ map Where cs)))
         (\<lambda>((s1, x), err). Done ((Some s1, x), err))"
    using assms(4,5) cs(2)
    by (simp add: SelectOne_def with_db_def o GetBuilder_def BuildSelectWithContext_def)
  ultimately show ?thesis by blast
qed

theorem select_one_limited_witness:
  "SelectOne rev list_db nat_dao (Some (open_session [6, 7])) [(''age'', SInt 3)]
     = Done ((Some (open_session [6, 7]), [60]), None)"
proof -
  have 1: "copies eq_utils" by (simp add: copies_def eq_utils_def)
  have 2: "\<forall>kv \<in> set [(''age'', SInt 3)]. good_entry eq_utils kv"
    by (simp add: good_entry_def special_keys_def cond_of_def eq_utils_def)
  have 3: "map_of [(''age'', SInt 3)] ''_limit'' = None" by simp
  have 4: "da_builder nat_dao = GetBuilder limit_squirrel eq_utils" "\<not> da_one_is_slice nat_dao"
    by (simp_all add: nat_dao_def)
  have r: "su_CopyWhere eq_utils = rev" by (simp add: eq_utils_def)
  from select_one_limited [OF 1 2 3 4, where X = list_db and s = "open_session [6, 7]"] obtain clauses cs
    where "SelectOne rev list_db nat_dao (Some (open_session [6, 7])) [(''age'', SInt 3)] =
       obind (run_query list_db (da_scanner nat_dao) PtrToOther (da_one nat_dao) (open_session [6, 7])
                (sq_Select limit_squirrel (select_field (da_omits nat_dao)) (da_table nat_dao) (clauses @ map Where cs)))
         (\<lambda>((s1, x), err). Done ((Some s1, x), err))"
    unfolding r by blast
  then show ?thesis by (simp add: dao_eval Next_def)
qed

end
