(* ===== verification/Sql_Table.thy ===== *)
theory Sql_Table
  imports Sql_Dao "HOL-Library.Multiset"
begin

text \<open>
  The data access object (src/onesql/dao.go) with the builder and the scanner of the package
  (builder.go, scanner.go), composed by the constructor (fastsql.go), over a database that
  understands the statements: the object is a table of records. The table is a multiset, since a
  database promises no order.
\<close>

section \<open>Tables\<close>

text \<open>A record gives each column its value, \<open>SNil\<close> for NULL.\<close>

type_synonym sql_row = "string \<Rightarrow> sqlval"

type_synonym tables = "string \<Rightarrow> sql_row multiset"

definition overwrite :: "sql_map \<Rightarrow> sql_row \<Rightarrow> sql_row" where
  "overwrite data r = (\<lambda>k. case map_of data k of None \<Rightarrow> r k | Some v \<Rightarrow> v)"

abbreviation record_of :: "sql_map \<Rightarrow> sql_row" where
  "record_of d \<equiv> overwrite d (\<lambda>k. SNil)"

text \<open>What a row of an insert becomes: its values for the columns of the first row.\<close>

definition stored_row :: "string list \<Rightarrow> sql_map \<Rightarrow> sql_row" where
  "stored_row cols d = (\<lambda>k. if k \<in> set cols then record_of d k else SNil)"

section \<open>Statements and what they do\<close>

datatype 'c stmt =
    StSelect string string "'c sel_call list"
  | StInsert string "string list" "sqlval list list"
  | StUpsert string sql_map
  | StUpdate string sql_map sql_map
  | StDelete string sql_map

definition limits_in :: "'c sel_call list \<Rightarrow> nat list" where
  "limits_in calls = List.map_filter (\<lambda>c. case c of Limit n \<Rightarrow> Some n | _ \<Rightarrow> None) calls"

definition offsets_in :: "'c sel_call list \<Rightarrow> nat list" where
  "offsets_in calls = List.map_filter (\<lambda>c. case c of Offset n \<Rightarrow> Some n | _ \<Rightarrow> None) calls"

definition wheres_in :: "'c sel_call list \<Rightarrow> 'c list" where
  "wheres_in calls = List.map_filter (\<lambda>c. case c of Where x \<Rightarrow> Some x | _ \<Rightarrow> None) calls"

text \<open>How many of so many rows are returned.\<close>

definition window :: "'c sel_call list \<Rightarrow> nat \<Rightarrow> nat" where
  "window calls amount =
     (if limits_in calls = [] then amount
      else min (last (limits_in calls)) (amount - last (0 # offsets_in calls)))"

text \<open>
  What the parts of the application and of the libraries mean: \<open>tm_holds\<close> a condition of a
  select, \<open>tm_matches\<close> a map of conditions of an update or a delete; \<open>tm_obj\<close> the object of a record,
  \<open>tm_one\<close> and \<open>tm_many\<close> the targets with one and with many objects; \<open>tm_faults\<close> the errors that
  the database may give, \<open>tm_empty\<close> the error of an empty result. Names and conditions become part of
  the text of a statement: \<open>tm_plain\<close> are the names, and \<open>tm_cond\<close> the conditions, that are read back as
  what they are.
\<close>

record ('c, 'o, 't) table_model =
  tm_holds :: "'c \<Rightarrow> sql_row \<Rightarrow> bool"
  tm_matches :: "sql_map \<Rightarrow> sql_row \<Rightarrow> bool"
  tm_obj :: "sql_row \<Rightarrow> 'o"
  tm_one :: "'o \<Rightarrow> 't"
  tm_many :: "'o list \<Rightarrow> 't"
  tm_faults :: "string set"
  tm_empty :: string
  tm_plain :: "string \<Rightarrow> bool"
  tm_cond :: "'c \<Rightarrow> bool"

text \<open>A query of such names and conditions, without groups.\<close>

fun plain_call :: "('c, 'o, 't) table_model \<Rightarrow> 'c sel_call \<Rightarrow> bool" where
  "plain_call M (OrderByClause s) = tm_plain M s"
| "plain_call M (Where c) = tm_cond M c"
| "plain_call M (GroupBy g) = False"
| "plain_call M (Having g) = False"
| "plain_call M _ = True"

abbreviation plain_keys :: "('c, 'o, 't) table_model \<Rightarrow> sql_map \<Rightarrow> bool" where
  "plain_keys M w \<equiv> list_all (tm_plain M) (map fst w)"

definition satisfying :: "('c, 'o, 't) table_model \<Rightarrow> 'c list \<Rightarrow> sql_row multiset \<Rightarrow> sql_row multiset" where
  "satisfying M cs T = filter_mset (\<lambda>r. \<forall>c \<in> set cs. tm_holds M c r) T"

fun carried :: "('c, 'o, 't) table_model \<Rightarrow> 'c stmt \<Rightarrow> tables \<Rightarrow> tables \<Rightarrow> bool" where
  "carried M (StSelect field t calls) T T' \<longleftrightarrow> T' = T"
| "carried M (StInsert t cols rows) T T' \<longleftrightarrow> T' = T(t := T t + mset (map (\<lambda>vs. record_of (zip cols vs)) rows))"
| "carried M (StUpsert t data) T T' \<longleftrightarrow>
     T' = T(t := add_mset (record_of data) (T t)) \<or>
     (\<exists>r \<in># T t. T' = T(t := add_mset (overwrite data r) (T t - {#r#})))"
| "carried M (StUpdate t data conds) T T' \<longleftrightarrow>
     T' = T(t := image_mset (\<lambda>r. if tm_matches M conds r then overwrite data r else r) (T t))"
| "carried M (StDelete t conds) T T' \<longleftrightarrow> T' = T(t := filter_mset (\<lambda>r. \<not> tm_matches M conds r) (T t))"

text \<open>The rows that are reported as affected; an update may leave out those it did not change.\<close>

fun affected :: "('c, 'o, 't) table_model \<Rightarrow> 'c stmt \<Rightarrow> tables \<Rightarrow> int \<Rightarrow> bool" where
  "affected M (StUpdate t data conds) T n \<longleftrightarrow> 0 \<le> n \<and> n \<le> int (size (filter_mset (tm_matches M conds) (T t)))"
| "affected M (StDelete t conds) T n \<longleftrightarrow> n = int (size (filter_mset (tm_matches M conds) (T t)))"
| "affected M st T n \<longleftrightarrow> True"

section \<open>What the libraries promise\<close>

text \<open>
  Squirrel: the text and the arguments it makes mean the statement that was built. \<open>meaning\<close> is how
  a database reads them.
\<close>

definition means :: "(string \<Rightarrow> sqlval list \<Rightarrow> 'c stmt option) \<Rightarrow> query_result \<Rightarrow> 'c stmt \<Rightarrow> bool" where
  "means meaning q st \<longleftrightarrow> (case q of (cond, vals, err) \<Rightarrow> err = None \<and> meaning cond vals = Some st)"

definition upsert_calls :: "sql_map \<Rightarrow> ins_call list" where
  "upsert_calls data =
     [SetMap data, Suffix ''ON DUPLICATE KEY UPDATE'' [],
      Suffix (join '', '' (map (\<lambda>(k, v). k @ ''=?'') data)) (map snd data)]"

definition squirrel_law ::
  "'c squirrel \<Rightarrow> (string \<Rightarrow> sqlval list \<Rightarrow> 'c stmt option) \<Rightarrow> ('c, 'o, 't) table_model \<Rightarrow> bool" where
  "squirrel_law Q meaning M \<longleftrightarrow>
     (\<forall>field t calls. tm_plain M field \<longrightarrow> tm_plain M t \<longrightarrow> list_all (plain_call M) calls \<longrightarrow>
        means meaning (sq_Select Q field t calls) (StSelect field t calls)) \<and>
     (\<forall>t cols rows. tm_plain M t \<longrightarrow> list_all (tm_plain M) cols \<longrightarrow> cols \<noteq> [] \<longrightarrow> rows \<noteq> [] \<longrightarrow>
        (\<forall>vs \<in> set rows. length vs = length cols) \<longrightarrow>
        means meaning (sq_Insert Q INSERT t (Columns cols # map Values rows)) (StInsert t cols rows)) \<and>
     (\<forall>t data. tm_plain M t \<longrightarrow> plain_keys M data \<longrightarrow> data \<noteq> [] \<longrightarrow>
        means meaning (sq_Insert Q INSERT t (upsert_calls data)) (StUpsert t data)) \<and>
     (\<forall>t data conds. tm_plain M t \<longrightarrow> plain_keys M data \<longrightarrow> plain_keys M conds \<longrightarrow> data \<noteq> [] \<longrightarrow>
        means meaning (sq_Update Q t data conds) (StUpdate t data conds)) \<and>
     (\<forall>t conds. tm_plain M t \<longrightarrow> plain_keys M conds \<longrightarrow> means meaning (sq_Delete Q [] t conds) (StDelete t conds))"

text \<open>
  The database: a query changes nothing, and gives an error and no rows, or open rows; the rows are
  those of some records that satisfy the conditions, as many as the limit allows, in any order, or
  the row of their count, and can be read to the end. A statement that fails was carried out or not; one that succeeds was.
\<close>

definition count_field :: string where
  "count_field = ''count(*) as count''"

definition replied ::
  "('c, 'o, 't) table_model \<Rightarrow> (string \<Rightarrow> sql_row \<Rightarrow> 'row) \<Rightarrow> (nat \<Rightarrow> 'row) \<Rightarrow> string \<Rightarrow> 'c sel_call list
     \<Rightarrow> sql_row multiset \<Rightarrow> 'row list \<Rightarrow> bool" where
  "replied M row_of count_row field calls T xs \<longleftrightarrow>
     (let sat = satisfying M (wheres_in calls) T
      in if field = count_field then limits_in calls = [] \<longrightarrow> xs = [count_row (size sat)]
         else \<exists>rs. mset rs \<subseteq># sat \<and> length rs = window calls (size sat) \<and> xs = map (row_of field) rs)"

definition database_law ::
  "('db, 'row) xdb_ops \<Rightarrow> (string \<Rightarrow> sqlval list \<Rightarrow> 'c stmt option) \<Rightarrow> ('db \<Rightarrow> tables)
     \<Rightarrow> ('c, 'o, 't) table_model \<Rightarrow> (string \<Rightarrow> sql_row \<Rightarrow> 'row) \<Rightarrow> (nat \<Rightarrow> 'row) \<Rightarrow> bool" where
  "database_law X meaning look M row_of count_row \<longleftrightarrow>
     (\<forall>d cond vals field t calls d1 rows err.
        meaning cond vals = Some (StSelect field t calls) \<longrightarrow> list_all (plain_call M) calls \<longrightarrow> xd_Query X d cond vals = (d1, rows, err) \<longrightarrow>
        look d1 = look d \<and>
        (case err of
           Some e \<Rightarrow> e \<in> tm_faults M \<and> rows = None
         | None \<Rightarrow> \<exists>r. rows = Some r \<and> \<not> rs_closed r \<and> replied M row_of count_row field calls (look d t) (rs_rows r))) \<and>
     (\<forall>d cond vals st d1 res err.
        meaning cond vals = Some st \<longrightarrow> xd_Exec X d cond vals = (d1, res, err) \<longrightarrow>
        (case err of
           Some e \<Rightarrow> e \<in> tm_faults M \<and> (look d1 = look d \<or> carried M st (look d) (look d1))
         | None \<Rightarrow> carried M st (look d) (look d1) \<and>
             (\<exists>id n. res = Some \<lparr>er_LastInsertId = (id, None), er_RowsAffected = (n, None)\<rparr> \<and> affected M st (look d) n)))"

text \<open>The binding and the mirroring: every record becomes its object, and the target takes the objects.\<close>

definition scan_law ::
  "('row, 'o, 't) scan_ops \<Rightarrow> ('row \<Rightarrow> string + int) \<Rightarrow> ('c, 'o, 't) table_model \<Rightarrow> (string \<Rightarrow> sql_row \<Rightarrow> 'row)
     \<Rightarrow> (nat \<Rightarrow> 'row) \<Rightarrow> string \<Rightarrow> bool" where
  "scan_law S ScanCount M row_of count_row field \<longleftrightarrow>
     (\<exists>b. sc_bind S = Some b \<and> (\<forall>r. b (row_of field r) = Inr (BPtr (tm_obj M r)))) \<and>
     (\<forall>xs z. sc_Mirroring S (MSlice xs) z = (tm_many M xs, None)) \<and>
     (\<forall>x z. sc_Mirroring S (MOne (BPtr x)) z = (tm_one M x, None)) \<and>
     sc_ErrEmptyResult S = tm_empty M \<and> (\<forall>n. ScanCount (count_row n) = Inr (int n))"

section \<open>The abstract table\<close>

text \<open>The calls of the object, with what they are given, and what they return.\<close>

datatype table_call =
    CallInsert "sql_map list"
  | CallUpsert sql_map
  | CallUpdate sql_map sql_map
  | CallDelete sql_map
  | CallSelectMulti sql_map
  | CallSelectOne sql_map
  | CallCountOf sql_map

datatype 't table_reply = Got 't | Number int | Refused string

text \<open>
  A map has every key once. The keys are plain names, the conditions of a select are well-formed and
  without groups, and a count has no limit; the rows of an insert have their columns from the first.
\<close>

definition select_ok :: "('c, 'o, 't) table_model \<Rightarrow> 'c sqlutils \<Rightarrow> sql_map \<Rightarrow> bool" where
  "select_ok M U w \<longleftrightarrow> list_all (good_entry U) w \<and> distinct (map fst w) \<and>
     list_all (plain_call M) (clauses_of w) \<and> list_all (tm_cond M) (conds_of U w)"

fun call_ok :: "('c, 'o, 't) table_model \<Rightarrow> 'c sqlutils \<Rightarrow> table_call \<Rightarrow> bool" where
  "call_ok M U (CallInsert data) \<longleftrightarrow> data \<noteq> [] \<and> hd data \<noteq> [] \<and> list_all (\<lambda>d. distinct (map fst d)) data \<and>
     plain_keys M (hd data)"
| "call_ok M U (CallUpsert data) \<longleftrightarrow> data \<noteq> [] \<and> plain_keys M data"
| "call_ok M U (CallUpdate conds data) \<longleftrightarrow> data \<noteq> [] \<and> plain_keys M data \<and> plain_keys M conds"
| "call_ok M U (CallDelete conds) \<longleftrightarrow> plain_keys M conds"
| "call_ok M U (CallSelectMulti w) \<longleftrightarrow> select_ok M U w"
| "call_ok M U (CallSelectOne w) \<longleftrightarrow> select_ok M U w"
| "call_ok M U (CallCountOf w) \<longleftrightarrow> select_ok M U w \<and> ''_limit'' \<notin> fst ` set w"

text \<open>How many of so many records a condition map lets through.\<close>

definition visible :: "sql_map \<Rightarrow> nat \<Rightarrow> nat" where
  "visible w amount =
     (case map_of w ''_limit'' of
        Some (SUints [n]) \<Rightarrow> min n amount
      | Some (SUints [m, n]) \<Rightarrow> min n (amount - m)
      | _ \<Rightarrow> amount)"

text \<open>The change of a call, and the reply to a call that was not refused.\<close>

fun changed :: "('c, 'o, 't) table_model \<Rightarrow> string \<Rightarrow> table_call \<Rightarrow> tables \<Rightarrow> tables \<Rightarrow> bool" where
  "changed M t (CallInsert data) T T' \<longleftrightarrow>
     T' = T(t := T t + mset (map (stored_row (map fst (hd data))) data))"
| "changed M t (CallUpsert data) T T' \<longleftrightarrow> carried M (StUpsert t data) T T'"
| "changed M t (CallUpdate conds data) T T' \<longleftrightarrow> carried M (StUpdate t data conds) T T'"
| "changed M t (CallDelete conds) T T' \<longleftrightarrow> carried M (StDelete t conds) T T'"
| "changed M t c T T' \<longleftrightarrow> T' = T"

fun replies ::
  "('c, 'o, 't) table_model \<Rightarrow> 'c sqlutils \<Rightarrow> string \<Rightarrow> table_call \<Rightarrow> tables \<Rightarrow> 't table_reply \<Rightarrow> bool" where
  "replies M U t (CallSelectMulti w) T a \<longleftrightarrow>
     (let sat = satisfying M (conds_of U w) (T t)
      in \<exists>rs. mset rs \<subseteq># sat \<and> length rs = visible w (size sat) \<and> a = Got (tm_many M (map (tm_obj M) rs)))"
| "replies M U t (CallSelectOne w) T a \<longleftrightarrow>
     (let sat = satisfying M (conds_of U w) (T t)
      in if visible w (size sat) = 0 then a = Refused (tm_empty M)
         else \<exists>r \<in># sat. a = Got (tm_one M (tm_obj M r)))"
| "replies M U t (CallCountOf w) T a \<longleftrightarrow> a = Number (int (size (satisfying M (conds_of U w) (T t))))"
| "replies M U t (CallUpdate conds data) T a \<longleftrightarrow> (\<exists>n. a = Number n \<and> affected M (StUpdate t data conds :: 'c stmt) T n)"
| "replies M U t (CallDelete conds) T a \<longleftrightarrow> (\<exists>n. a = Number n \<and> affected M (StDelete t conds :: 'c stmt) T n)"
| "replies M U t c T a \<longleftrightarrow> (\<exists>id. a = Number id)"

text \<open>A step: the call is carried out and answered, or fails with an error of the database.\<close>

definition table_step ::
  "('c, 'o, 't) table_model \<Rightarrow> 'c sqlutils \<Rightarrow> string \<Rightarrow> tables \<Rightarrow> table_call \<Rightarrow> 't table_reply \<Rightarrow> tables \<Rightarrow> bool" where
  "table_step M U t T c a T' \<longleftrightarrow>
     changed M t c T T' \<and> replies M U t c T a \<or>
     (\<exists>e \<in> tm_faults M. a = Refused e \<and> (T' = T \<or> changed M t c T T'))"

inductive table_run ::
  "('c, 'o, 't) table_model \<Rightarrow> 'c sqlutils \<Rightarrow> string \<Rightarrow> tables \<Rightarrow> table_call list \<Rightarrow> 't table_reply list \<Rightarrow> tables \<Rightarrow> bool"
  for M U t where
  table_done: "table_run M U t T [] [] T"
| table_call: "table_step M U t T c a T' \<Longrightarrow> table_run M U t T' cs as T'' \<Longrightarrow> table_run M U t T (c # cs) (a # as) T''"

inductive_simps table_run_Nil [simp]: "table_run M U t T [] as T'"
inductive_simps table_run_Cons: "table_run M U t T (c # cs) as T'"

section \<open>The object\<close>

text \<open>
  The constructor of the package, and the object of an application that fills it with this
  constructor.
\<close>

definition Constructor ::
  "'c squirrel \<Rightarrow> 'c sqlutils \<Rightarrow> ('row, 'o, 't) scan_ops \<Rightarrow> builder_ops \<times> ('row, 't) scanner" where
  "Constructor Q U S = (GetBuilder Q U, GetScanner S)"

definition package_dao ::
  "'c squirrel \<Rightarrow> 'c sqlutils \<Rightarrow> ('row, 'o, 't) scan_ops \<Rightarrow> string \<Rightarrow> string list \<Rightarrow> ('row, 't) dao \<Rightarrow> ('row, 't) dao" where
  "package_dao Q U S t omits da = dao_Init (Constructor Q U S) t omits da"

definition reply_of ::
  "('a \<Rightarrow> 't table_reply) \<Rightarrow> ('db, 'a) dao_call \<Rightarrow> ('db session option \<times> 't table_reply) outcome" where
  "reply_of g m = obind m (\<lambda>((s, x), err). Done (s, case err of None \<Rightarrow> g x | Some e \<Rightarrow> Refused e))"

fun dao_do ::
  "'c sqlutils \<Rightarrow> ('row \<Rightarrow> string + int) \<Rightarrow> ('db, 'row) xdb_ops \<Rightarrow> ('row, 't) dao \<Rightarrow> 'db session option \<Rightarrow> table_call
     \<Rightarrow> ('db session option \<times> 't table_reply) outcome" where
  "dao_do U ScanCount X da s (CallInsert data) = reply_of Number (Insert X da s data)"
| "dao_do U ScanCount X da s (CallUpsert data) = reply_of Number (Upsert X da s data)"
| "dao_do U ScanCount X da s (CallUpdate conds data) = reply_of Number (Update X da s conds data)"
| "dao_do U ScanCount X da s (CallDelete conds) = reply_of Number (Delete X da s conds)"
| "dao_do U ScanCount X da s (CallSelectMulti w) = reply_of Got (SelectMulti X da s w)"
| "dao_do U ScanCount X da s (CallSelectOne w) = reply_of Got (SelectOne (su_CopyWhere U) X da s w)"
| "dao_do U ScanCount X da s (CallCountOf w) = reply_of Number (CountOf ScanCount X da s w)"

fun dao_run ::
  "'c sqlutils \<Rightarrow> ('row \<Rightarrow> string + int) \<Rightarrow> ('db, 'row) xdb_ops \<Rightarrow> ('row, 't) dao \<Rightarrow> 'db session option \<Rightarrow> table_call list
     \<Rightarrow> ('db session option \<times> 't table_reply list) outcome" where
  "dao_run U ScanCount X da s [] = Done (s, [])"
| "dao_run U ScanCount X da s (c # cs) =
     obind (dao_do U ScanCount X da s c) (\<lambda>(s1, a).
       obind (dao_run U ScanCount X da s1 cs) (\<lambda>(s2, as). Done (s2, a # as)))"

section \<open>Clauses\<close>

lemma record_of_zip: "record_of (zip cols (row_values cols r)) = stored_row cols r"
  by (rule ext) (simp add: overwrite_def stored_row_def row_values_def map_of_zip_map)

lemma calls_in_append [simp]:
  "limits_in (xs @ ys) = limits_in xs @ limits_in ys"
  "offsets_in (xs @ ys) = offsets_in xs @ offsets_in ys"
  "wheres_in (xs @ ys) = wheres_in xs @ wheres_in ys"
  by (simp_all add: limits_in_def offsets_in_def wheres_in_def map_filter_def)

lemma calls_in_Where [simp]:
  "limits_in (map Where cs) = []" "offsets_in (map Where cs) = []" "wheres_in (map Where cs) = cs"
  by (induction cs) (simp_all add: limits_in_def offsets_in_def wheres_in_def map_filter_simps)

text \<open>The clauses of a well-formed map: those of its limit, if it has one, and nothing else that limits.\<close>

fun limit_calls :: "sqlval option \<Rightarrow> nat list \<times> nat list" where
  "limit_calls (Some (SUints [n])) = ([n], [])"
| "limit_calls (Some (SUints [m, n])) = ([n], [m])"
| "limit_calls v = ([], [])"

lemma clause_limits:
  assumes "clause_of k v = Some (cs :: 'c sel_call list)"
  shows "(limits_in cs, offsets_in cs) = limit_calls (if k = ''_limit'' then Some v else None) \<and> wheres_in cs = []"
  using assms
  by (auto simp: clause_of_def limits_in_def offsets_in_def wheres_in_def map_filter_simps
      split: sqlval.splits list.splits if_splits)

lemma clauses_limits:
  fixes U :: "'c sqlutils"
  assumes "list_all (good_entry U) w" and "distinct (map fst w)"
  shows "(limits_in (clauses_of w :: 'c sel_call list), offsets_in (clauses_of w :: 'c sel_call list))
       = limit_calls (map_of w ''_limit'')
     \<and> wheres_in (clauses_of w :: 'c sel_call list) = []"
  using assms
proof (induction w)
  case Nil
  then show ?case by (simp add: clauses_of_def limits_in_def offsets_in_def wheres_in_def map_filter_simps)
next
  case (Cons kv w)
  obtain k v where kv: "kv = (k, v)" by (cases kv)
  have IH: "(limits_in (clauses_of w :: 'c sel_call list), offsets_in (clauses_of w :: 'c sel_call list))
       = limit_calls (map_of w ''_limit'') \<and> wheres_in (clauses_of w :: 'c sel_call list) = []"
    using Cons by simp
  show ?case
  proof (cases "k \<in> set special_keys")
    case True
    obtain cs where cs: "clause_of k v = Some (cs :: 'c sel_call list)"
      using Cons.prems True by (auto simp: good_entry_def kv)
    have u: "clauses_of (kv # w) = cs @ clauses_of w" using True cs by (simp add: clauses_of_def kv)
    have "k = ''_limit'' \<Longrightarrow> map_of w ''_limit'' = None" using Cons.prems(2) by (simp add: kv map_of_eq_None_iff)
    with IH clause_limits [OF cs] u show ?thesis by (cases "k = ''_limit''") (simp_all add: kv)
  next
    case False
    then have "clauses_of (kv # w) = (clauses_of w :: 'c sel_call list)" by (simp add: clauses_of_def kv)
    moreover have "k \<noteq> ''_limit''" using False by (auto simp: special_keys_def)
    ultimately show ?thesis using IH by (simp add: kv)
  qed
qed

lemma select_ok_limits:
  fixes U :: "'c sqlutils"
  assumes "select_ok M U w"
  shows "limits_in (clauses_of w :: 'c sel_call list) = fst (limit_calls (map_of w ''_limit''))"
    and "offsets_in (clauses_of w :: 'c sel_call list) = snd (limit_calls (map_of w ''_limit''))"
    and "wheres_in (clauses_of w :: 'c sel_call list) = []"
  using clauses_limits [of U w] assms unfolding select_ok_def by (metis fst_conv, metis snd_conv, metis)

lemma window_visible:
  fixes U :: "'c sqlutils"
  assumes "select_ok M U w"
  shows "window (clauses_of w @ map Where (cs :: 'c list)) n = visible w n"
  using select_ok_limits [OF assms]
  by (cases "map_of w ''_limit''" rule: limit_calls.cases) (simp_all add: window_def visible_def)

text \<open>The conditions that \<open>SelectOne\<close> adds a limit to.\<close>

lemma one_where_ok:
  fixes U :: "'c sqlutils"
  assumes "copies U" and "select_ok M U w"
  shows "select_ok M U (one_where (su_CopyWhere U) w)
     \<and> set (conds_of U (one_where (su_CopyWhere U) w)) = set (conds_of U w)
     \<and> (visible (one_where (su_CopyWhere U) w) n = 0 \<longleftrightarrow> visible w n = 0)"
proof -
  let ?w = "su_CopyWhere U w"
  have m: "mset ?w = mset w" using assms(1) by (simp add: copies_def)
  then have s: "set ?w = set w" by (metis set_mset_mset)
  have "mset (map fst ?w) = mset (map fst w)" using m by simp
  then have d: "distinct (map fst ?w)" using assms(2) unfolding select_ok_def by (metis mset_eq_imp_distinct_iff)
  then have eq: "map_of ?w = map_of w" using s assms(2) unfolding select_ok_def by (metis map_of_inject_set)
  have c: "set (conds_of U ?w) = set (conds_of U w)" using conds_of_mset [OF m, of U] by (metis set_mset_mset)
  have "set (clauses_of ?w :: 'c sel_call list) = set (clauses_of w)"
    using clauses_of_mset [OF m] by (metis set_mset_mset)
  then have ok: "select_ok M U ?w" using assms(2) d s c by (simp add: select_ok_def list_all_iff)
  show ?thesis
  proof (cases "map_of ?w ''_limit'' = None")
    case True
    then have k: "''_limit'' \<notin> fst ` set ?w" by (simp add: map_of_eq_None_iff)
    then have o: "one_where (su_CopyWhere U) w = ?w @ [(''_limit'', SUints [0, 1])]"
      using True by (simp add: one_where_def update_absent)
    have "conds_of U (?w @ [(''_limit'', SUints [0, 1])]) = conds_of U ?w"
      by (simp add: conds_of_def special_keys_def)
    moreover have "map_of (?w @ [(''_limit'', SUints [0, 1])]) ''_limit'' = Some (SUints [0, 1])"
      using True by (simp add: map_add_def)
    moreover have "clauses_of (?w @ [(''_limit'', SUints [0, 1])]) = (clauses_of ?w @ [Limit 1, Offset 0] :: 'c sel_call list)"
      by (simp add: clauses_of_def special_keys_def clause_of_def)
    moreover have "good_entry U (''_limit'', SUints [0, 1])"
      by (simp add: good_entry_def special_keys_def clause_of_def)
    ultimately show ?thesis using ok k c True eq by (auto simp: o select_ok_def visible_def min_def)
  next
    case False
    then have "one_where (su_CopyWhere U) w = ?w" by (auto simp: one_where_def Let_def)
    with ok c eq show ?thesis by (simp add: visible_def)
  qed
qed

section \<open>The object over a database\<close>

locale sql_table =
  fixes Q :: "'c squirrel" and U :: "'c sqlutils" and X :: "('db, 'row) xdb_ops"
    and S :: "('row, 'o, 't) scan_ops" and ScanCount :: "'row \<Rightarrow> string + int"
    and meaning :: "string \<Rightarrow> sqlval list \<Rightarrow> 'c stmt option" and look :: "'db \<Rightarrow> tables"
    and M :: "('c, 'o, 't) table_model" and row_of :: "string \<Rightarrow> sql_row \<Rightarrow> 'row" and count_row :: "nat \<Rightarrow> 'row"
    and t :: string and omits :: "string list" and da :: "('row, 't) dao"
  assumes copies: "copies U" and squirrel: "squirrel_law Q meaning M"
    and database: "database_law X meaning look M row_of count_row"
    and scans: "scan_law S ScanCount M row_of count_row (select_field omits)"
    and names: "tm_plain M t" "tm_plain M (select_field omits)" "tm_plain M count_field"
    and columns: "select_field omits \<noteq> count_field" and single: "\<not> da_one_is_slice da"
begin

abbreviation obj where "obj \<equiv> package_dao Q U S t omits da"

lemma parts:
  "da_builder obj = GetBuilder Q U" "da_scanner obj = Scan S" "da_table obj = t" "da_omits obj = omits"
  "da_one_is_slice obj = da_one_is_slice da" "da_one obj = da_one da" "da_many obj = da_many da"
  by (simp_all add: package_dao_def Constructor_def dao_Init_def GetScanner_def)

lemma sat_cong: "set cs = set cs' \<Longrightarrow> satisfying M cs T = satisfying M cs' T"
  by (simp add: satisfying_def)

lemma squirrel_means:
  "tm_plain M field \<Longrightarrow> list_all (plain_call M) calls \<Longrightarrow> means meaning (sq_Select Q field t calls) (StSelect field t calls)"
  "list_all (tm_plain M) cols \<Longrightarrow> cols \<noteq> [] \<Longrightarrow> rows \<noteq> [] \<Longrightarrow> \<forall>vs \<in> set rows. length vs = length cols \<Longrightarrow>
     means meaning (sq_Insert Q INSERT t (Columns cols # map Values rows)) (StInsert t cols rows)"
  "plain_keys M data \<Longrightarrow> data \<noteq> [] \<Longrightarrow> means meaning (sq_Insert Q INSERT t (upsert_calls data)) (StUpsert t data)"
  "plain_keys M data \<Longrightarrow> plain_keys M conds \<Longrightarrow> data \<noteq> [] \<Longrightarrow> means meaning (sq_Update Q t data conds) (StUpdate t data conds)"
  "plain_keys M conds \<Longrightarrow> means meaning (sq_Delete Q [] t conds) (StDelete t conds)"
  using squirrel [unfolded squirrel_law_def, THEN conjunct1]
    squirrel [unfolded squirrel_law_def, THEN conjunct2, THEN conjunct1]
    squirrel [unfolded squirrel_law_def, THEN conjunct2, THEN conjunct2, THEN conjunct1]
    squirrel [unfolded squirrel_law_def, THEN conjunct2, THEN conjunct2, THEN conjunct2, THEN conjunct1]
    squirrel [unfolded squirrel_law_def, THEN conjunct2, THEN conjunct2, THEN conjunct2, THEN conjunct2] names(1)
  by simp_all

text \<open>What the laws give of one statement, in the form in which the object uses them.\<close>

lemma exec_cases:
  assumes "means meaning (cond, vals, err) st"
  obtains (failed) d e res where "err = None" "xd_Exec X d0 cond vals = (d, res, Some e)" "e \<in> tm_faults M"
      "look d = look d0 \<or> carried M st (look d0) (look d)"
  | (succeeded) d id n where "err = None"
      "xd_Exec X d0 cond vals = (d, Some \<lparr>er_LastInsertId = (id, None), er_RowsAffected = (n, None)\<rparr>, None)"
      "carried M st (look d0) (look d)" "affected M st (look d0) n"
proof -
  obtain d res e where x: "xd_Exec X d0 cond vals = (d, res, e)" by (metis prod.exhaust)
  have "err = None" and m: "meaning cond vals = Some st" using assms by (simp_all add: means_def)
  have "case e of
           Some e \<Rightarrow> e \<in> tm_faults M \<and> (look d = look d0 \<or> carried M st (look d0) (look d))
         | None \<Rightarrow> carried M st (look d0) (look d) \<and>
             (\<exists>id n. res = Some \<lparr>er_LastInsertId = (id, None), er_RowsAffected = (n, None)\<rparr> \<and> affected M st (look d0) n)"
    using database m x unfolding database_law_def by blast
  with x \<open>err = None\<close> failed succeeded show thesis by (cases e) auto
qed

lemma query_cases:
  assumes "means meaning (cond, vals, err) (StSelect field tab calls)" and "list_all (plain_call M) calls"
  obtains (failed) d e where "err = None" "xd_Query X d0 cond vals = (d, None, Some e)" "e \<in> tm_faults M" "look d = look d0"
  | (rows) d r where "err = None" "xd_Query X d0 cond vals = (d, Some r, None)" "look d = look d0" "\<not> rs_closed r"
      "replied M row_of count_row field calls (look d0 tab) (rs_rows r)"
proof -
  obtain d res e where x: "xd_Query X d0 cond vals = (d, res, e)" by (metis prod.exhaust)
  have "err = None" and m: "meaning cond vals = Some (StSelect field tab calls)" using assms by (simp_all add: means_def)
  have "look d = look d0 \<and>
        (case e of
           Some e \<Rightarrow> e \<in> tm_faults M \<and> res = None
         | None \<Rightarrow> \<exists>r. res = Some r \<and> \<not> rs_closed r \<and> replied M row_of count_row field calls (look d0 tab) (rs_rows r))"
    using database m x assms(2) unfolding database_law_def by blast
  with x \<open>err = None\<close> failed rows show thesis by (cases e) auto
qed

text \<open>What a call leaves: the new state, a reply that the table allows, and no more rows open.\<close>

definition good_end :: "table_call \<Rightarrow> 'db session \<Rightarrow> ('db session option \<times> 't table_reply) outcome \<Rightarrow> bool" where
  "good_end c s m \<longleftrightarrow> (\<exists>s' a. m = Done (Some s', a) \<and> se_open s' = se_open s \<and>
     table_step M U t (look (se_db s)) c a (look (se_db s')))"

lemma good_endI:
  "m = Done (Some s', a) \<Longrightarrow> se_open s' = se_open s \<Longrightarrow> table_step M U t (look (se_db s)) c a (look (se_db s'))
     \<Longrightarrow> good_end c s m"
  unfolding good_end_def by blast

lemma change_end:
  assumes "means meaning q st" and "m = with_db (Some s) 0 (\<lambda>s. go s q)"
    and "go = run_insert X \<or> go = run_change X"
    and "\<And>T T'. carried M st T T' \<Longrightarrow> changed M t c T T'"
    and "\<And>T n. (go = run_change X \<Longrightarrow> affected M st T n) \<Longrightarrow> replies M U t c T (Number n)"
  shows "good_end c s (reply_of Number m)"
proof -
  obtain cond vals err where q: "q = (cond, vals, err)" by (cases q)
  from assms(1) [unfolded q] show ?thesis
  proof (cases rule: exec_cases [where ?d0.0 = "se_db s"])
    case (failed d e res)
    then have "reply_of Number m = Done (Some (s\<lparr>se_db := d\<rparr>), Refused e)"
      using assms(2,3) by (cases res) (auto simp: q with_db_def run_insert_def run_change_def reply_of_def)
    moreover have "table_step M U t (look (se_db s)) c (Refused e) (look d)"
      using failed assms(4) unfolding table_step_def by blast
    ultimately show ?thesis by (auto intro: good_endI)
  next
    case (succeeded d id n)
    define k where "k = (if go = run_change X then n else id)"
    have "go s q = Done ((s\<lparr>se_db := d\<rparr>, k), None)"
      using assms(3) succeeded by (auto simp: k_def q run_insert_def run_change_def)
    then have "reply_of Number m = Done (Some (s\<lparr>se_db := d\<rparr>), Number k)"
      using assms(2) by (simp add: with_db_def reply_of_def)
    moreover have "table_step M U t (look (se_db s)) c (Number k) (look d)"
      using succeeded(3,4) assms(4) assms(5) [of "look (se_db s)" k] unfolding table_step_def by (auto simp: k_def)
    ultimately show ?thesis by (auto intro: good_endI)
  qed
qed

lemma insert_end:
  assumes "call_ok M U (CallInsert data)"
  shows "good_end (CallInsert data) s (dao_do U ScanCount X obj (Some s) (CallInsert data))"
proof -
  obtain d ds where data: "data = d # ds" using assms by (cases data) auto
  let ?cols = "map fst d" let ?rows = "map (row_values ?cols) data"
  have d: "d \<noteq> []" "distinct (map fst d)" using assms by (simp_all add: data)
  have "insert_calls data = Columns ?cols # map Values ?rows"
    using insert_rows_aligned [OF d, of ds] by (simp add: data comp_def)
  moreover have "\<forall>vs \<in> set ?rows. length vs = length ?cols" by (simp add: row_values_def)
  moreover have "?cols \<noteq> []" "?rows \<noteq> []" using d(1) by (simp_all add: data)
  ultimately have m: "means meaning (BuildInsert Q t data) (StInsert t ?cols ?rows)"
    using assms squirrel_means(2) [of ?cols ?rows] by (simp add: BuildInsert_def buildInsert_def data)
  have c: "carried M (StInsert t ?cols ?rows) T T' \<Longrightarrow> changed M t (CallInsert data) T T'" for T T'
    by (simp add: data comp_def record_of_zip)
  show ?thesis
    unfolding dao_do.simps
    by (rule change_end [OF m _ _ c, of _ _ "run_insert X"]) (simp_all add: Insert_def parts GetBuilder_def)
qed

lemma other_changes_end:
  "call_ok M U (CallUpsert data) \<Longrightarrow> good_end (CallUpsert data) s (dao_do U ScanCount X obj (Some s) (CallUpsert data))"
  "call_ok M U (CallUpdate conds data) \<Longrightarrow>
     good_end (CallUpdate conds data) s (dao_do U ScanCount X obj (Some s) (CallUpdate conds data))"
  "call_ok M U (CallDelete conds) \<Longrightarrow> good_end (CallDelete conds) s (dao_do U ScanCount X obj (Some s) (CallDelete conds))"
proof -
  assume "call_ok M U (CallUpsert data)"
  then have m: "means meaning (BuildUpsert Q t data) (StUpsert t data)"
    using squirrel_means(3) [of data] by (simp add: BuildUpsert_def upsert_calls_def Let_def)
  show "good_end (CallUpsert data) s (dao_do U ScanCount X obj (Some s) (CallUpsert data))"
    unfolding dao_do.simps
    by (rule change_end [OF m, of _ _ "run_insert X"]) (simp_all add: Upsert_def parts GetBuilder_def)
next
  assume "call_ok M U (CallUpdate conds data)"
  then have m: "means meaning (BuildUpdate Q t conds data) (StUpdate t data conds)"
    using squirrel_means(4) [of data conds] by (simp add: BuildUpdate_def)
  show "good_end (CallUpdate conds data) s (dao_do U ScanCount X obj (Some s) (CallUpdate conds data))"
    unfolding dao_do.simps
    by (rule change_end [OF m, of _ _ "run_change X"]) (simp_all add: Update_def parts GetBuilder_def)
next
  assume "call_ok M U (CallDelete conds)"
  then have m: "means meaning (BuildDelete Q t conds) (StDelete t conds)"
    using squirrel_means(5) [of conds] by (simp add: BuildDelete_def)
  show "good_end (CallDelete conds) s (dao_do U ScanCount X obj (Some s) (CallDelete conds))"
    unfolding dao_do.simps
    by (rule change_end [OF m, of _ _ "run_change X"]) (simp_all add: Delete_def parts GetBuilder_def)
qed

text \<open>A select, up to the target.\<close>

lemma bind_all:
  obtains b where "sc_bind S = Some b" "\<forall>r. b (row_of (select_field omits) r) = Inr (BPtr (tm_obj M r))"
  using scans unfolding scan_law_def by blast

lemma mirrors [simp]:
  "sc_Mirroring S (MSlice xs) z = (tm_many M xs, None)" "sc_Mirroring S (MOne (BPtr x)) z = (tm_one M x, None)"
  "sc_ErrEmptyResult S = tm_empty M" "ScanCount (count_row n) = Inr (int n)"
  using scans by (simp_all add: scan_law_def)

lemma select_means:
  assumes "select_ok M U w" and "tm_plain M (select_field fs)"
  obtains cs where "set cs = set (conds_of U w)"
    "buildSelect Q U t w fs = Done (sq_Select Q (select_field fs) t (clauses_of w @ map Where cs))"
    "list_all (plain_call M) (clauses_of w @ map Where cs)"
    "means meaning (sq_Select Q (select_field fs) t (clauses_of w @ map Where cs))
       (StSelect (select_field fs) t (clauses_of w @ map Where cs))"
proof -
  obtain cs where cs: "mset cs = mset (conds_of U w)"
      "buildSelect Q U t w fs = Done (sq_Select Q (select_field fs) t (clauses_of w @ map Where cs))"
    using buildSelect_good [OF copies, of w Q t fs] assms(1) unfolding select_ok_def list_all_iff by blast
  have "list_all (plain_call M) (clauses_of w @ map Where cs)"
    using assms cs(1) by (auto simp: select_ok_def list_all_iff dest: mset_eq_setD)
  with cs squirrel_means(1) [OF assms(2) this] that show thesis by (metis set_mset_mset)
qed

lemma select_rows:
  assumes "select_ok M U w" and "k \<in> {PtrToSlice, PtrToOther}"
  obtains (failed) s1 e where "obind (buildSelect Q U t w omits) (run_query X (Scan S) k zero s) = Done ((s1, zero), Some e)"
      "e \<in> tm_faults M" "look (se_db s1) = look (se_db s)" "se_open s1 = se_open s"
  | (read) s1 rs where "obind (buildSelect Q U t w omits) (run_query X (Scan S) k zero s) =
        Done ((s1, if k = PtrToSlice then tm_many M (map (tm_obj M) rs)
                   else if rs = [] then zero else tm_one M (tm_obj M (hd rs))),
              if k = PtrToOther \<and> rs = [] then Some (tm_empty M) else None)"
      "look (se_db s1) = look (se_db s)" "se_open s1 = se_open s"
      "mset rs \<subseteq># satisfying M (conds_of U w) (look (se_db s) t)"
      "length rs = visible w (size (satisfying M (conds_of U w) (look (se_db s) t)))"
proof -
  let ?sat = "satisfying M (conds_of U w) (look (se_db s) t)" and ?f = "select_field omits"
  obtain cs where cs: "set cs = set (conds_of U w)"
      "buildSelect Q U t w omits = Done (sq_Select Q ?f t (clauses_of w @ map Where cs))"
      "list_all (plain_call M) (clauses_of w @ map Where cs)"
      "means meaning (sq_Select Q ?f t (clauses_of w @ map Where cs)) (StSelect ?f t (clauses_of w @ map Where cs))"
    by (rule select_means [OF assms(1) names(2)])
  obtain cond vals err where q: "sq_Select Q ?f t (clauses_of w @ map Where cs) = (cond, vals, err)"
    by (metis prod.exhaust)
  from cs(4) [unfolded q] cs(3) show thesis
  proof (cases rule: query_cases [where ?d0.0 = "se_db s"])
    case (failed d e)
    then show thesis
      using that(1) [of "s\<lparr>se_db := d\<rparr>" e] by (simp add: cs(2) q run_query_def send_query_def)
  next
    case (rows d r)
    have w: "wheres_in (clauses_of w @ map Where cs) = cs" using select_ok_limits(3) [OF assms(1)] by simp
    have sat: "satisfying M cs (look (se_db s) t) = ?sat" by (rule sat_cong [OF cs(1)])
    obtain rs where rs: "mset rs \<subseteq># ?sat" "length rs = visible w (size ?sat)" "rs_rows r = map (row_of ?f) rs"
      using rows(5) columns unfolding replied_def
      by (auto simp: w sat window_visible [OF assms(1)] Let_def simp del: calls_in_append)
    obtain b where b: "sc_bind S = Some b" "\<forall>r. b (row_of ?f r) = Inr (BPtr (tm_obj M r))" by (rule bind_all)
    let ?s1 = "s\<lparr>se_db := d\<rparr>"
    have all: "scan_list b (map (row_of ?f) rs) [] = Done (Inr (map (tm_obj M) rs), [], True)"
      using scan_list_all [of "map (row_of ?f) rs" b "\<lambda>x. case b x of Inr (BPtr y) \<Rightarrow> y"] b(2)
      by (simp add: comp_def)
    have "obind (buildSelect Q U t w omits) (run_query X (Scan S) k zero s) =
        Done ((?s1, if k = PtrToSlice then tm_many M (map (tm_obj M) rs)
                   else if rs = [] then zero else tm_one M (tm_obj M (hd rs))),
              if k = PtrToOther \<and> rs = [] then Some (tm_empty M) else None)"
      using assms(2) rows rs(3) b all
      by (cases s; cases rs) (auto simp: cs(2) q run_query_def send_query_def Scan_def target_IsNil_def scan_checked_def
          Next_def Close_def settle_def)
    then show thesis by (rule that(2)) (simp_all add: rows(3) rs(1,2))
  qed
qed

lemma select_multi_end:
  assumes "call_ok M U (CallSelectMulti w)"
  shows "good_end (CallSelectMulti w) s (dao_do U ScanCount X obj (Some s) (CallSelectMulti w))"
proof -
  have ok: "select_ok M U w" using assms by simp
  have k: "PtrToSlice \<in> {PtrToSlice, PtrToOther}" by simp
  from ok k show ?thesis
  proof (cases rule: select_rows [where zero = "da_many da" and s = s])
    case (failed s1 e)
    then show ?thesis
      by (auto simp: SelectMulti_def parts GetBuilder_def BuildSelectWithContext_def with_db_def reply_of_def
          good_end_def table_step_def)
  next
    case (read s1 rs)
    then have "dao_do U ScanCount X obj (Some s) (CallSelectMulti w) = Done (Some s1, Got (tm_many M (map (tm_obj M) rs)))"
      by (simp add: SelectMulti_def parts GetBuilder_def BuildSelectWithContext_def with_db_def reply_of_def)
    with read(2-5) show ?thesis by (auto simp: good_end_def table_step_def Let_def)
  qed
qed

lemma select_one_end:
  assumes "call_ok M U (CallSelectOne w)"
  shows "good_end (CallSelectOne w) s (dao_do U ScanCount X obj (Some s) (CallSelectOne w))"
proof -
  let ?w = "one_where (su_CopyWhere U) w" and ?T = "look (se_db s) t"
  let ?sat = "satisfying M (conds_of U w) ?T"
  have w: "select_ok M U ?w" "set (conds_of U ?w) = set (conds_of U w)" "visible ?w n = 0 \<longleftrightarrow> visible w n = 0" for n
    using one_where_ok [OF copies, of M w n] assms by auto
  have sat: "satisfying M (conds_of U ?w) ?T = ?sat" by (rule sat_cong [OF w(2)])
  let ?run = "obind (buildSelect Q U t ?w omits) (run_query X (Scan S) PtrToOther (da_one da) s)"
  have do: "dao_do U ScanCount X obj (Some s) (CallSelectOne w)
      = obind ?run (\<lambda>((s1, x), err). Done (Some s1, case err of None \<Rightarrow> Got x | Some e \<Rightarrow> Refused e))"
    using single
    by (cases ?run) (auto simp: SelectOne_def parts GetBuilder_def BuildSelectWithContext_def with_db_def reply_of_def)
  have k: "PtrToOther \<in> {PtrToSlice, PtrToOther}" by simp
  from w(1) k show ?thesis
  proof (cases rule: select_rows [where zero = "da_one da" and s = s])
    case (failed s1 e)
    then show ?thesis unfolding do by (auto simp: good_end_def table_step_def)
  next
    case (read s1 rs)
    show ?thesis
    proof (cases rs)
      case Nil
      with read w(3) show ?thesis unfolding do by (auto simp: good_end_def table_step_def Let_def sat)
    next
      case (Cons r rs')
      then have "visible w (size ?sat) \<noteq> 0" using read(5) w(3) by (metis length_0_conv list.distinct(1) sat)
      moreover have "r \<in># ?sat" using read(4) Cons by (auto simp: sat dest: mset_subset_eqD)
      ultimately show ?thesis using read Cons unfolding do by (auto simp: good_end_def table_step_def Let_def)
    qed
  qed
qed

lemma count_end:
  assumes "call_ok M U (CallCountOf w)"
  shows "good_end (CallCountOf w) s (dao_do U ScanCount X obj (Some s) (CallCountOf w))"
proof -
  have ok: "select_ok M U w" and nolimit: "map_of w ''_limit'' = None" using assms by (simp_all add: map_of_eq_None_iff)
  let ?sat = "satisfying M (conds_of U w) (look (se_db s) t)" and ?f = "select_field [''count(*) as count'']"
  have f: "?f = count_field" by (simp add: select_field_def count_field_def)
  obtain cs where cs: "set cs = set (conds_of U w)"
      "buildSelect Q U t w [''count(*) as count''] = Done (sq_Select Q ?f t (clauses_of w @ map Where cs))"
      "list_all (plain_call M) (clauses_of w @ map Where cs)"
      "means meaning (sq_Select Q ?f t (clauses_of w @ map Where cs)) (StSelect ?f t (clauses_of w @ map Where cs))"
    using select_means [OF ok, of "[''count(*) as count'']"] names(3) f by metis
  obtain cond vals err where q: "sq_Select Q ?f t (clauses_of w @ map Where cs) = (cond, vals, err)"
    by (metis prod.exhaust)
  from cs(4) [unfolded q] cs(3) show ?thesis
  proof (cases rule: query_cases [where ?d0.0 = "se_db s"])
    case (failed d e)
    then show ?thesis
      by (auto simp: CountOf_def parts GetBuilder_def BuildSelect_def cs(2) q with_db_def send_query_def reply_of_def
          good_end_def table_step_def)
  next
    case (rows d r)
    have w: "wheres_in (clauses_of w @ map Where cs) = cs" using select_ok_limits(3) [OF ok] by simp
    have l: "limits_in (clauses_of w @ map Where cs) = []" using select_ok_limits(1) [OF ok] nolimit by simp
    have sat: "satisfying M cs (look (se_db s) t) = ?sat" by (rule sat_cong [OF cs(1)])
    have "rs_rows r = [count_row (size ?sat)]"
      using rows(5) unfolding replied_def f by (simp add: w l sat Let_def del: calls_in_append)
    then have "dao_do U ScanCount X obj (Some s) (CallCountOf w) = Done (Some (s\<lparr>se_db := d\<rparr>), Number (int (size ?sat)))"
      using rows
      by (cases s) (simp add: CountOf_def parts GetBuilder_def BuildSelect_def cs(2) q with_db_def send_query_def
          reply_of_def settle_def)
    with rows(3) show ?thesis by (auto simp: good_end_def table_step_def)
  qed
qed

lemma call_end: "call_ok M U c \<Longrightarrow> good_end c s (dao_do U ScanCount X obj (Some s) c)"
  using insert_end other_changes_end select_multi_end select_one_end count_end by (cases c) blast+

lemma run_end:
  "\<forall>c \<in> set cs. call_ok M U c \<Longrightarrow>
     \<exists>s' as. dao_run U ScanCount X obj (Some s) cs = Done (Some s', as) \<and> se_open s' = se_open s \<and>
       table_run M U t (look (se_db s)) cs as (look (se_db s'))"
proof (induction cs arbitrary: s)
  case (Cons c cs)
  obtain s1 a where c: "dao_do U ScanCount X obj (Some s) c = Done (Some s1, a)" "se_open s1 = se_open s"
      "table_step M U t (look (se_db s)) c a (look (se_db s1))"
    using call_end [of c s] Cons.prems unfolding good_end_def by auto
  obtain s2 as where "dao_run U ScanCount X obj (Some s1) cs = Done (Some s2, as)" "se_open s2 = se_open s1"
      "table_run M U t (look (se_db s1)) cs as (look (se_db s2))"
    using Cons.IH [of s1] Cons.prems by auto
  with c show ?case by (auto intro: table_call)
qed (auto intro: table_done)

end

section \<open>Concrete libraries\<close>

text \<open>
  A squirrel whose text is the verb and whose arguments hold the rest, and a database of lists of
  records that reads them: conditions are equalities, the object of a record is its age.
\<close>

fun flat :: "('a \<times> 'a) list \<Rightarrow> 'a list" where
  "flat [] = []"
| "flat ((x, y) # ps) = x # y # flat ps"

fun pairs :: "'a list \<Rightarrow> ('a \<times> 'a) list" where
  "pairs (x # y # xs) = (x, y) # pairs xs"
| "pairs _ = []"

fun chunks :: "nat \<Rightarrow> nat \<Rightarrow> 'a list \<Rightarrow> 'a list list" where
  "chunks n 0 xs = []"
| "chunks n (Suc k) xs = take n xs # chunks n k (drop n xs)"

lemma pairs_flat [simp]: "pairs (flat ps) = ps"
  by (induction ps rule: flat.induct) simp_all

lemma chunks_concat: "\<forall>r \<in> set rows. length r = n \<Longrightarrow> chunks n (length rows) (concat rows) = rows"
  by (induction rows) simp_all

fun str_of :: "sqlval \<Rightarrow> string" where
  "str_of (SStr s) = s"
| "str_of _ = []"

lemma str_of_SStr [simp]: "map str_of (map SStr xs) = xs"
  by (induction xs) simp_all

definition map_args :: "sql_map \<Rightarrow> (sqlval \<times> sqlval) list" where
  "map_args w = map (\<lambda>(k, v). (SStr k, v)) w"

definition args_map :: "(sqlval \<times> sqlval) list \<Rightarrow> sql_map" where
  "args_map ps = map (\<lambda>(k, v). (str_of k, v)) ps"

lemma length_map_args [simp]: "length (map_args w) = length w"
  by (simp add: map_args_def)

lemma args_map_args [simp]: "args_map (map_args w) = w"
  by (induction w) (auto simp: args_map_def map_args_def)

fun call_arg :: "(string \<times> sqlval) sel_call \<Rightarrow> sqlval \<times> sqlval" where
  "call_arg (Limit n) = (SStr ''LIMIT'', SUints [n])"
| "call_arg (Offset n) = (SStr ''OFFSET'', SUints [n])"
| "call_arg (Where (k, v)) = (SBytes k, v)"
| "call_arg (OrderByClause e) = (SStr ''ORDER BY'', SStr e)"
| "call_arg (Having e) = (SStr ''HAVING'', SStr e)"
| "call_arg (GroupBy e) = (SStr ''GROUP BY'', SStr e)"

definition arg_call :: "sqlval \<times> sqlval \<Rightarrow> (string \<times> sqlval) sel_call" where
  "arg_call p =
     (case p of
        (SBytes k, v) \<Rightarrow> Where (k, v)
      | (SStr w, SUints ns) \<Rightarrow> if w = ''LIMIT'' then Limit (hd ns) else Offset (hd ns)
      | (_, v) \<Rightarrow> OrderByClause (str_of v))"

lemma arg_call_arg: "list_all (plain_call M) calls \<Longrightarrow> map arg_call (map call_arg calls) = calls"
proof (induction calls)
  case (Cons c calls)
  then show ?case by (cases c rule: call_arg.cases) (simp_all add: arg_call_def)
qed simp

fun row_args :: "ins_call \<Rightarrow> sqlval list" where
  "row_args (Values vs) = vs"
| "row_args _ = []"

definition store_squirrel :: "(string \<times> sqlval) squirrel" where
  "store_squirrel =
     \<lparr>sq_Select = (\<lambda>field t calls. (''SELECT'', SStr t # SStr field # flat (map call_arg calls), None)),
      sq_Update = (\<lambda>t data conds.
        (''UPDATE'', SStr t # SUints [length data] # flat (map_args data @ map_args conds), None)),
      sq_Delete = (\<lambda>field t conds. (''DELETE'', SStr t # flat (map_args conds), None)),
      sq_Insert = (\<lambda>vb t calls. case calls of
          Columns cols # vs \<Rightarrow>
            (''INSERT'', SStr t # SUints [length cols, length vs] # map SStr cols @ concat (map row_args vs), None)
        | SetMap data # sfx \<Rightarrow> (''UPSERT'', SStr t # flat (map_args data), None)
        | _ \<Rightarrow> ([], [], Some ''insert statements must have at least one set of values''))\<rparr>"

definition store_meaning :: "string \<Rightarrow> sqlval list \<Rightarrow> (string \<times> sqlval) stmt option" where
  "store_meaning cond vals =
     (case vals of
        SStr t # xs \<Rightarrow>
          if cond = ''SELECT'' then Some (StSelect (str_of (hd xs)) t (map arg_call (pairs (tl xs))))
          else if cond = ''UPSERT'' then Some (StUpsert t (args_map (pairs xs)))
          else if cond = ''DELETE'' then Some (StDelete t (args_map (pairs xs)))
          else (case xs of
             SUints [n, k] # ys \<Rightarrow> Some (StInsert t (map str_of (take n ys)) (chunks n k (drop n ys)))
           | SUints [n] # ys \<Rightarrow> Some (StUpdate t (args_map (take n (pairs ys))) (args_map (drop n (pairs ys))))
           | _ \<Rightarrow> None)
      | _ \<Rightarrow> None)"

lemma store_squirrel_law: "squirrel_law store_squirrel store_meaning M"
  by (auto simp: squirrel_law_def means_def store_squirrel_def store_meaning_def arg_call_arg upsert_calls_def
      comp_def chunks_concat simp del: map_map
      | simp add: map_args_def [symmetric])+

definition has :: "sql_row \<Rightarrow> sql_map \<Rightarrow> bool" where
  "has r w = list_all (\<lambda>(k, v). r k = v) w"

definition store_model :: "(string \<times> sqlval, sqlval, sqlval list) table_model" where
  "store_model =
     \<lparr>tm_holds = (\<lambda>(k, v) r. r k = v), tm_matches = (\<lambda>w r. has r w), tm_obj = (\<lambda>r. r ''age''),
      tm_one = (\<lambda>x. [x]), tm_many = (\<lambda>xs. xs), tm_faults = {}, tm_empty = ''empty'',
      tm_plain = (\<lambda>name. True), tm_cond = (\<lambda>c. True)\<rparr>"

definition store_answer :: "string \<Rightarrow> (string \<times> sqlval) sel_call list \<Rightarrow> sql_row list \<Rightarrow> (sql_row + nat) list" where
  "store_answer field calls rs =
     (let sat = filter (\<lambda>r. has r (wheres_in calls)) rs;
          skip = (if limits_in calls = [] then 0 else last (0 # offsets_in calls))
      in if field = count_field then [Inr (length sat)]
         else map Inl (take (window calls (length sat)) (drop skip sat)))"

fun store_exec :: "(string \<times> sqlval) stmt \<Rightarrow> (string \<Rightarrow> sql_row list) \<Rightarrow> (string \<Rightarrow> sql_row list) \<times> nat" where
  "store_exec (StSelect field t calls) d = (d, 0)"
| "store_exec (StInsert t cols rows) d = (d(t := d t @ map (\<lambda>vs. record_of (zip cols vs)) rows), length rows)"
| "store_exec (StUpsert t data) d = (d(t := d t @ [record_of data]), 1)"
| "store_exec (StUpdate t data conds) d =
     (d(t := map (\<lambda>r. if has r conds then overwrite data r else r) (d t)), length (filter (\<lambda>r. has r conds) (d t)))"
| "store_exec (StDelete t conds) d = (d(t := filter (\<lambda>r. \<not> has r conds) (d t)), length (filter (\<lambda>r. has r conds) (d t)))"

definition store_db :: "(string \<Rightarrow> sql_row list, sql_row + nat) xdb_ops" where
  "store_db =
     \<lparr>xd_Query = (\<lambda>d cond vals. case store_meaning cond vals of
          Some (StSelect field t calls) \<Rightarrow>
            (d, Some \<lparr>rs_rows = store_answer field calls (d t), rs_closed = False, rs_CloseErr = None\<rparr>, None)
        | _ \<Rightarrow> (d, None, Some ''not a query'')),
      xd_Exec = (\<lambda>d cond vals. case store_meaning cond vals of
          Some st \<Rightarrow> (fst (store_exec st d),
            Some \<lparr>er_LastInsertId = (0, None), er_RowsAffected = (int (snd (store_exec st d)), None)\<rparr>, None)
        | None \<Rightarrow> (d, None, Some ''not a statement''))\<rparr>"

abbreviation store_look :: "(string \<Rightarrow> sql_row list) \<Rightarrow> tables" where
  "store_look d \<equiv> (\<lambda>t. mset (d t))"

lemma mset_take_drop: "mset (take n (drop k xs)) \<subseteq># mset xs"
proof -
  have "mset (drop k xs) = mset (take n (drop k xs)) + mset (drop n (drop k xs))"
    by (metis append_take_drop_id mset_append)
  moreover have "mset xs = mset (take k xs) + mset (drop k xs)" by (metis append_take_drop_id mset_append)
  ultimately show ?thesis by simp
qed

lemma store_answer_replied: "replied store_model (\<lambda>field. Inl) Inr field calls (mset rs) (store_answer field calls rs)"
proof -
  define F where "F = filter (\<lambda>r. has r (wheres_in calls)) rs"
  let ?skip = "if limits_in calls = [] then 0 else last (0 # offsets_in calls)"
  have "satisfying store_model (wheres_in calls) (mset rs) = mset F"
    by (simp add: F_def satisfying_def store_model_def has_def list_all_iff case_prod_beta)
  moreover have "mset (take (window calls (length F)) (drop ?skip F)) \<subseteq># mset F" by (rule mset_take_drop)
  moreover have "length (take (window calls (length F)) (drop ?skip F)) = window calls (length F)"
    by (simp add: window_def)
  ultimately show ?thesis
    unfolding replied_def store_answer_def Let_def F_def [symmetric] by auto
qed

lemma store_exec_carried:
  "carried store_model st (store_look d) (store_look (fst (store_exec st d)))"
  "affected store_model st (store_look d) (int (snd (store_exec st d)))"
  by (cases st; force simp: store_model_def fun_eq_iff simp flip: mset_filter size_mset mset_map)+

lemma store_db_law: "database_law store_db store_meaning store_look store_model (\<lambda>field. Inl) Inr"
  unfolding database_law_def
  using store_answer_replied store_exec_carried by (auto simp: store_db_def)

definition store_scan :: "(sql_row + nat, sqlval, sqlval list) scan_ops" where
  "store_scan =
     \<lparr>sc_bind = Some (\<lambda>x. case x of Inl r \<Rightarrow> Inr (BPtr (r ''age'')) | Inr n \<Rightarrow> Inl ''no record''),
      sc_Mirroring = (\<lambda>m z. case m of MSlice xs \<Rightarrow> (xs, None) | MOne (BPtr x) \<Rightarrow> ([x], None) | _ \<Rightarrow> (z, Some ''mirror'')),
      sc_ErrNotSettable = ''not settable'', sc_ErrNilFunction = ''nil function'',
      sc_ErrEmptyResult = ''empty'', sc_NewCloseErr = (\<lambda>e. e)\<rparr>"

definition store_count :: "sql_row + nat \<Rightarrow> string + int" where
  "store_count x = (case x of Inl r \<Rightarrow> Inl ''no count'' | Inr n \<Rightarrow> Inr (int n))"

lemma store_scan_law: "scan_law store_scan store_count store_model (\<lambda>field. Inl) Inr field"
  by (simp add: scan_law_def store_scan_def store_count_def store_model_def)

definition blank_dao :: "(sql_row + nat, sqlval list) dao" where
  "blank_dao =
     \<lparr>da_table = [], da_omits = [], da_builder = GetBuilder store_squirrel eq_utils,
      da_scanner = GetScanner store_scan, da_one = [], da_many = [], da_one_is_slice = False\<rparr>"

lemmas store_laws = store_squirrel_law [of store_model] store_db_law store_scan_law [of "select_field []"]

lemma store_names:
  "copies eq_utils" "tm_plain store_model name" "select_field [] \<noteq> count_field" "\<not> da_one_is_slice blank_dao"
  by (simp_all add: copies_def eq_utils_def store_model_def select_field_def count_field_def blank_dao_def)

interpretation stored: sql_table store_squirrel eq_utils store_db store_scan store_count store_meaning store_look
    store_model "\<lambda>field. Inl" Inr t "[]" blank_dao for t
  by (rule sql_table.intro) (fact store_laws store_names)+

section \<open>The object and the table\<close>





end
