(* ===== verification/Connections.thy ===== *)
theory Connections
  imports Prelude
begin

text \<open>
  The constructors of clients: MySQL (src/onesql/manager.go), redis (src/oneredis/redis.go) and
  elasticsearch (src/onees/onees.go). Of database/sql the limits of a handle are modelled, with the
  way its setters correct one another; the drivers and the two client libraries are arguments.
\<close>

section \<open>Handles of database/sql\<close>

text \<open>
  A handle with its limits. A field \<open>sq_MaxIdle\<close> of zero stands for the library's default of two,
  a negative one for none; \<open>sq_MaxOpen\<close> of zero for no limit.
\<close>

record sql_handle =
  sq_Driver :: string
  sq_Dsn :: string
  sq_MaxIdleTime :: int
  sq_MaxLifetime :: int
  sq_MaxIdle :: int
  sq_MaxOpen :: int

definition max_idle :: "sql_handle \<Rightarrow> int" where
  "max_idle d = (if sq_MaxIdle d = 0 then 2 else if sq_MaxIdle d < 0 then 0 else sq_MaxIdle d)"

definition SetConnMaxIdleTime :: "int \<Rightarrow> sql_handle \<Rightarrow> sql_handle" where
  "SetConnMaxIdleTime t d = d\<lparr>sq_MaxIdleTime := (if t < 0 then 0 else t)\<rparr>"

definition SetConnMaxLifetime :: "int \<Rightarrow> sql_handle \<Rightarrow> sql_handle" where
  "SetConnMaxLifetime t d = d\<lparr>sq_MaxLifetime := (if t < 0 then 0 else t)\<rparr>"

definition SetMaxIdleConns :: "int \<Rightarrow> sql_handle \<Rightarrow> sql_handle" where
  "SetMaxIdleConns n d =
     (let d1 = d\<lparr>sq_MaxIdle := (if 0 < n then n else -1)\<rparr>
      in if 0 < sq_MaxOpen d1 \<and> sq_MaxOpen d1 < max_idle d1
         then d1\<lparr>sq_MaxIdle := sq_MaxOpen d1\<rparr> else d1)"

definition SetMaxOpenConns :: "int \<Rightarrow> sql_handle \<Rightarrow> sql_handle" where
  "SetMaxOpenConns n d =
     (let d1 = d\<lparr>sq_MaxOpen := (if n < 0 then 0 else n)\<rparr>
      in if 0 < sq_MaxOpen d1 \<and> sq_MaxOpen d1 < max_idle d1 then SetMaxIdleConns n d1 else d1)"

text \<open>\<open>sql.Open\<close>: \<open>driver\<close> gives the error of an unknown driver or of a bad data source name.\<close>

definition sql_Open ::
  "(string \<Rightarrow> string \<Rightarrow> string option) \<Rightarrow> string \<Rightarrow> string \<Rightarrow> string + sql_handle" where
  "sql_Open driver name dsn =
     (case driver name dsn of
        Some e \<Rightarrow> Inl e
      | None \<Rightarrow> Inr \<lparr>sq_Driver = name, sq_Dsn = dsn, sq_MaxIdleTime = 0, sq_MaxLifetime = 0,
          sq_MaxIdle = 0, sq_MaxOpen = 0\<rparr>)"

section \<open>MySQL\<close>

definition minute :: int where "minute = 60000000000"
definition mysqlConnMaxIdleTime :: int where "mysqlConnMaxIdleTime = 10 * minute"
definition mysqlConnMaxLifetime :: int where "mysqlConnMaxLifetime = 30 * minute"
definition mysqlMaxIdleConns :: int where "mysqlMaxIdleConns = 128"
definition mysqlMaxOpenConns :: int where "mysqlMaxOpenConns = 1024 * 16"

definition mysql_Connect :: "(string \<Rightarrow> string \<Rightarrow> string option) \<Rightarrow> string \<Rightarrow> string + sql_handle" where
  "mysql_Connect driver dsn =
     (case sql_Open driver ''mysql'' dsn of
        Inl err \<Rightarrow> Inl err
      | Inr db \<Rightarrow>
          let db1 = SetConnMaxIdleTime mysqlConnMaxIdleTime db;
              db2 = SetConnMaxLifetime mysqlConnMaxLifetime db1;
              db3 = SetMaxIdleConns mysqlMaxIdleConns db2;
              db4 = SetMaxOpenConns mysqlMaxOpenConns db3
          in Inr db4)"

definition mysql_MustConnect :: "(string \<Rightarrow> string \<Rightarrow> string option) \<Rightarrow> string \<Rightarrow> sql_handle outcome" where
  "mysql_MustConnect driver dsn =
     (case mysql_Connect driver dsn of
        Inl err \<Rightarrow> Panic (''connect to mysql '' @ dsn @ '' error '' @ err)
      | Inr db \<Rightarrow> Done db)"

section \<open>Redis\<close>

definition redis_Connect :: "(string \<Rightarrow> string + 'o) \<Rightarrow> ('o \<Rightarrow> 'c) \<Rightarrow> string \<Rightarrow> string + 'c" where
  "redis_Connect ParseURL NewClient dsn =
     (case ParseURL dsn of Inl err \<Rightarrow> Inl err | Inr options \<Rightarrow> Inr (NewClient options))"

definition redis_MustConnect :: "(string \<Rightarrow> string + 'o) \<Rightarrow> ('o \<Rightarrow> 'c) \<Rightarrow> string \<Rightarrow> 'c outcome" where
  "redis_MustConnect ParseURL NewClient dsn =
     (case redis_Connect ParseURL NewClient dsn of
        Inl err \<Rightarrow> Panic (''connect to redis '' @ dsn @ '' error '' @ err)
      | Inr cli \<Rightarrow> Done cli)"

section \<open>Elasticsearch\<close>

definition second :: int where "second = 1000000000"

text \<open>The HTTP client and its transport, as far as the code sets their fields.\<close>

record es_transport =
  tr_ProxyFromEnvironment :: bool
  tr_DialTimeout :: int
  tr_DialKeepAlive :: int
  tr_ForceAttemptHTTP2 :: bool
  tr_MaxIdleConnsPerHost :: int
  tr_IdleConnTimeout :: int
  tr_TLSHandshakeTimeout :: int
  tr_ExpectContinueTimeout :: int

datatype es_option =
    SetURL string
  | SetBasicAuth string string
  | SetHealthcheck bool
  | SetErrorLog string
  | SetGzip bool
  | SetSniff bool
  | SetHttpClient es_transport int

definition es_options :: "string \<Rightarrow> string \<Rightarrow> string \<Rightarrow> es_option list" where
  "es_options dsn user pwd =
     [SetURL dsn, SetBasicAuth user pwd, SetHealthcheck False, SetErrorLog ''ELASTIC '',
      SetGzip True, SetSniff False,
      SetHttpClient
        \<lparr>tr_ProxyFromEnvironment = True, tr_DialTimeout = 30 * second, tr_DialKeepAlive = 30 * second,
         tr_ForceAttemptHTTP2 = True, tr_MaxIdleConnsPerHost = 1024, tr_IdleConnTimeout = 90 * second,
         tr_TLSHandshakeTimeout = 10 * second, tr_ExpectContinueTimeout = 1 * second\<rparr>
        (10 * second)]"

definition es_Connect ::
  "(es_option list \<Rightarrow> string + 'c) \<Rightarrow> string \<Rightarrow> string \<Rightarrow> string \<Rightarrow> string + 'c" where
  "es_Connect NewClient dsn user pwd = NewClient (es_options dsn user pwd)"

definition es_MustConnect ::
  "(es_option list \<Rightarrow> string + 'c) \<Rightarrow> string \<Rightarrow> string \<Rightarrow> string \<Rightarrow> 'c outcome" where
  "es_MustConnect NewClient dsn user pwd =
     (case es_Connect NewClient dsn user pwd of
        Inl err \<Rightarrow> Panic (''connect to es '' @ dsn @ '' error '' @ err)
      | Inr cli \<Rightarrow> Done cli)"

section \<open>What a connection is\<close>

text \<open>The setters keep the idle limit within the limit of open connections, in any order.\<close>

definition limits_ok :: "sql_handle \<Rightarrow> bool" where
  "limits_ok d \<longleftrightarrow> 0 \<le> sq_MaxOpen d \<and> (0 < sq_MaxOpen d \<longrightarrow> max_idle d \<le> sq_MaxOpen d)"

lemma SetMaxIdleConns_ok: "limits_ok d \<Longrightarrow> limits_ok (SetMaxIdleConns n d)"
  by (auto simp: limits_ok_def SetMaxIdleConns_def max_idle_def Let_def)

lemma SetMaxOpenConns_ok: "limits_ok (SetMaxOpenConns n d)"
  by (auto simp: limits_ok_def SetMaxOpenConns_def SetMaxIdleConns_def max_idle_def Let_def)

text \<open>
  A MySQL connection is opened with the driver named mysql and carries exactly the limits of the
  package, which fit each other: the idle limit is not cut down by the limit of open connections.
\<close>

theorem mysql_connect_limits:
  assumes "mysql_Connect driver dsn = Inr db"
  shows "driver ''mysql'' dsn = None \<and> sq_Dsn db = dsn \<and> limits_ok db \<and>
    max_idle db = mysqlMaxIdleConns \<and> sq_MaxOpen db = mysqlMaxOpenConns \<and>
    sq_MaxIdleTime db = mysqlConnMaxIdleTime \<and> sq_MaxLifetime db = mysqlConnMaxLifetime"
  using assms
  by (auto simp: mysql_Connect_def sql_Open_def SetConnMaxIdleTime_def SetConnMaxLifetime_def
      SetMaxIdleConns_def SetMaxOpenConns_def max_idle_def limits_ok_def mysqlMaxIdleConns_def
      mysqlMaxOpenConns_def mysqlConnMaxIdleTime_def mysqlConnMaxLifetime_def minute_def Let_def
      split: option.splits)

theorem mysql_connect_limits_witness:
  "\<exists>db. mysql_Connect (\<lambda>name dsn. None) ''d'' = Inr db \<and> max_idle db = 128 \<and> sq_MaxOpen db = 16384"
proof -
  obtain db where db: "mysql_Connect (\<lambda>name dsn. None) ''d'' = Inr db"
    by (simp add: mysql_Connect_def sql_Open_def Let_def)
  from mysql_connect_limits [OF this] db show ?thesis
    by (simp add: mysqlMaxIdleConns_def mysqlMaxOpenConns_def)
qed

text \<open>The three Must variants panic exactly when the connection fails, and name what failed.\<close>

theorem must_connect_panics:
  "mysql_MustConnect driver dsn = Done db \<longleftrightarrow> mysql_Connect driver dsn = Inr db"
  "redis_MustConnect ParseURL NewClient dsn = Done c \<longleftrightarrow> redis_Connect ParseURL NewClient dsn = Inr c"
  "es_MustConnect NewEs dsn user pwd = Done e \<longleftrightarrow> es_Connect NewEs dsn user pwd = Inr e"
  by (simp_all add: mysql_MustConnect_def redis_MustConnect_def es_MustConnect_def split: sum.split)

end
