(* ===== verification/Spec2Isabelle.thy ===== *)
theory Spec2Isabelle
  imports Pool_Contract Pool_Rest Cache_Local Cache_Multi Cache_Types Cache_Coherence Watchdog_System Http_Roundtrip
    Middleware_Stack Sql_Table Connections
begin

text \<open>
  Verification of the Go library eins, a collection of building blocks for services: connection
  pools, a cache with a fallback, a distributed lock, HTTP clients, HTTP middlewares, helpers for
  gin, and an SQL builder, scanner and data access object.

  \<^bold>\<open>The program.\<close> The packages under src/ are independent but for the plumbing: onegovernor, onenet
  and oneprom use oneenv and onelog; oneprom is what the middlewares and the HTTP clients report
  to; onecache stands on onecache/store; onesql/dao.go stands on onesql/builder.go and
  onesql/scanner.go through interfaces that onesql/fastsql.go fills. The two pools of onepool are
  two implementations of one interface and the only part of the program with goroutines that share
  memory.

  \<^bold>\<open>Conventions.\<close> A Go function is a definition with its name, prefixed by the type when two types
  share it (\<open>list_Put\<close>, \<open>slice_Put\<close>). State is passed explicitly. A result of type
  \<open>'a outcome\<close> (theory Prelude) is \<open>Done x\<close>, \<open>Panic\<close> with the text of the panic, or \<open>Blocked\<close>
  where a call never returns; an error of the code is a value inside \<open>Done\<close>. Durations and times
  are nanoseconds as \<open>int\<close>, and \<open>int\<close> is used for Go's \<open>int\<close> where the code only counts and
  compares; the request keys of the slice pool, which wrap, are \<open>64 word\<close>. Strings are lists of
  bytes. There is no fuel: every loop of the program is a structural recursion on the list or the
  rows it ranges over, or has a measure.

  \<^bold>\<open>Pools\<close> (src/onepool). Pool_Base has what pool.go declares: \<open>config\<close>, \<open>item\<close>, \<open>expired\<close>, the
  errors. List_Pool models list.go and Slice_Pool slice.go: the record is the struct, and each
  definition is one critical section, the code between a \<open>Lock\<close> and the next \<open>Unlock\<close>. Two lines of
  work build on them. The uninterrupted runs, \<open>list_Get\<close> and \<open>slice_Get\<close>, are the whole functions
  with their retry loops, compared with a reference definition. The theories List_Pool_System and
  Slice_Pool_System interleave the critical sections of any number of goroutines: the state adds
  the position of every goroutine that does not hold the lock (a multiset, since goroutines have no
  names), the cleaner and the opener, the items in flight in channels, the connections that clients
  hold, and those that were closed. \<open>list_step\<close> and \<open>slice_step\<close> take one event, and \<open>reach\<close> and
  \<open>run\<close> (Prelude) give the reachable states. The lemmas show conservation (every connection made is
  in one place), the exact count, the limits, that no request is forgotten, and, as theorems about
  concrete runs, the ways in which the code fails: a lost wake-up, a leaked place, a Reload that
  locks its own mutex. Pool_Contract states what both promise: a machine that knows of each
  connection whether it is kept, lent or shut, and accepts the actions a client can see. The locale
  \<open>conn_pool\<close> proves the refinement once, and both systems interpret it. Pool_Rest shows that a
  pool left alone comes to rest.

  \<^bold>\<open>Cache\<close> (src/onecache). Go_Reflect models what the package uses of package reflect: types,
  values, a heap of pointer cells and maps in which aliases are equal addresses, and the operations
  on reflected values with their panics. Cache_Store models store.go, gcache.go, redis.go and
  serializer.go: the interface is the record \<open>store_ops\<close>, and \<open>LocalStore\<close> and \<open>RedisStore\<close> are two values
  of it. Cache_Box models box.go over any store. Cache_Local has the frame and write contracts of a
  store as locales, interpreted on the two stores, and the properties of a cache over the local one;
  Cache_Multi the loops of \<open>GetMulti\<close>; Cache_Redis the cache over redis, where values are copies.
  Store_Spec states what a store is, a finite map, and shows that both stores implement it as long as
  their libraries lose nothing (locales \<open>kv_store\<close>, \<open>local_kv\<close>, \<open>redis_kv\<close>). Cache_System puts the
  cache between its callers and a database: the state adds the values that a \<open>Get\<close>, \<open>GetMulti\<close>, \<open>Refresh\<close> or
  \<open>RefreshMulti\<close> has read from the database and not stored yet, \<open>cs_step\<close> interleaves the two parts of
  every call with writes of the database and evictions, and the lemmas say what each part does over a redis
  that loses entries and fails (locale \<open>lossy_redis\<close>). Cache_Coherence bounds from them how old a value a
  \<open>Get\<close> or a \<open>GetMulti\<close> can return. Over the local store there is no such bound, since
  the entry is the caller's own variable (\<open>cache_get_keeps_pointer\<close>). Cache_Types gives
  the heap types and shows that no call of a cache breaks them, over any store that keeps them
  (locale \<open>typed_store\<close>), which both do.

  \<^bold>\<open>Watchdog\<close> (src/watchdog): theory Watchdog. The contexts that were cancelled and the running
  renewing goroutines are state; a turn of such a goroutine is one step. Watchdog_System interleaves
  any number of lock objects and their goroutines on one server with a clock, whose commands may fail
  and whose keys expire (locale \<open>timed_redis\<close>). The lock is not safe by itself (\<open>lock_not_exclusive\<close>,
  \<open>unlock_frees_foreign_lock\<close>, \<open>second_lock_orphans_first\<close>); the guards of \<open>wd_step\<close> are the rules of use
  and the punctuality of the goroutines under which it excludes, implements the abstract lock
  \<open>lock_spec\<close>, and comes free when it is abandoned.

  \<^bold>\<open>Services.\<close> Go_Url models what is used of net/url, with the round trip from \<open>Encode\<close> to
  \<open>ParseQuery\<close>. Observability models oneenv, onelog and oneprom. Net models src/onenet: one
  definition per client, \<open>std_do\<close> and \<open>fast_do\<close>, composed of the steps the code takes, in its order.
  Governor models src/onegovernor: handlers are functions on requests, response writers and
  the world, and a middleware wraps one; a panic of a handler is the value that \<open>Recover\<close> catches.
  Middleware_Stack composes them: the locale \<open>contract\<close> says what a middleware does on the way in and on the
  way out, the four middlewares keep it, contracts compose, and so any stack of them keeps it; what
  a stack does to the response, to a panic and to the metrics follows for every stack. Gin
  models src/onegin, which shares the request model of Governor. Http_Roundtrip joins the two ends: what
  a client of onenet sends is what a handler finds with ginreq, and what it answers comes back.

  \<^bold>\<open>SQL\<close> (src/onesql). Sql_Builder models builder.go: a statement is the list of calls made on
  squirrel. Sql_Scanner models scanner.go, and Sql_Dao models dao.go and fastsql.go over the interfaces, with
  rows that are open until they are closed. Sql_Table composes the three over a database: a table is a
  multiset of records, \<open>table_step\<close> says what each call of the object may do to it and answer, and the
  locale \<open>sql_table\<close> proves that every call of the code does just that, from what squirrel, the database
  and the binding promise. It is interpreted on a database of lists of records. Connections has the constructors of the clients
  (src/onesql/manager.go, src/oneredis/redis.go, src/onees/onees.go), with the limits of a handle of
  database/sql.

  \<^bold>\<open>Parameters.\<close> Code outside src/ is an argument of the definitions. What a property needs of it
  is a named hypothesis: \<open>gcache_law\<close>, \<open>strips_pointers\<close> (Cache_Local), \<open>redis_law\<close> and
  \<open>serializer_law\<close> (Cache_Redis), \<open>gcache_keeps\<close>, \<open>typed_serializer\<close> and \<open>typed_fallback\<close> (Cache_Types),
  \<open>gcache_map\<close>, \<open>redis_map\<close> and \<open>codec_of\<close> (Store_Spec), \<open>redis_lossy\<close> and \<open>codec_through\<close>
  (Cache_System), \<open>wd_law\<close> (Watchdog), \<open>setnx_law\<close>, \<open>del_law\<close>, \<open>expire_law\<close> and \<open>pass_law\<close>
  (Watchdog_System), \<open>wrap_law\<close> (Governor), \<open>xdb_law\<close> (Sql_Dao),
  \<open>squirrel_law\<close>, \<open>database_law\<close> and \<open>scan_law\<close> (Sql_Table), which speak of names and conditions that are
  read back as what they are (\<open>tm_plain\<close>, \<open>tm_cond\<close>) and of results that are read to the end.
  Each is instantiated by a concrete function in the witness of the property that uses it. The
  application's \<open>New\<close>, fallbacks and handlers are arguments with no other hypotheses, except that
  \<open>New\<close> returns a new connection each time, and that a handler behind a stack of middlewares only adds to
  the metrics, the log and the response (\<open>behaved\<close>), and does not count requests itself (\<open>uncounted\<close>).

  \<^bold>\<open>Not modelled.\<close> Interfaces without code (src/watchdog/watchdog.go, src/onesql/fastsql.go from
  FastRepo on), contexts as carriers of a logger, and the constructors that only fill a struct with a library's default. Lines written
  to the log are left out, except for the entries of the middlewares that the code under src/
  composes and the one in src/onegin/ginreq/args.go that panics. Of the pool of gzip readers only
  whether it gives a reader matters. Weak memory, the runtime's scheduler and timers are
  out of scope: a ticker is an event that can happen at any time, and a context ends at any time.
\<close>

end
